(* ===== verification/JS_Base.thy ===== *)
theory JS_Base
  imports Main "HOL-Library.Code_Target_Nat"
begin

text \<open>
  What the console's TypeScript uses of its language: strings as sequences of UTF-16 code
  units, their code points, decimal numerals, and the loops that walk a string while a
  character test holds. Every component theory imports this one.
\<close>

named_theorems js_simps \<open>evaluation of the string primitives\<close>

section \<open>Strings\<close>

text \<open>A string is the list of its UTF-16 code units; a literal is written \<open>js ''text''\<close>.\<close>

type_synonym jstring = "nat list"

definition js :: "string \<Rightarrow> jstring" where
  "js s = map of_char s"

lemma js_Nil [simp]: "js [] = []"
  by (simp add: js_def)

lemma js_Cons [simp]: "js (c # s) = of_char c # js s"
  by (simp add: js_def)

text \<open>\<open>text[i]\<close>: \<open>undefined\<close> out of range.\<close>

definition at_opt :: "'a list \<Rightarrow> nat \<Rightarrow> 'a option" where
  "at_opt xs i = (if i < length xs then Some (xs ! i) else None)"

lemma at_opt_None [simp]: "at_opt xs i = None \<longleftrightarrow> length xs \<le> i"
  by (auto simp: at_opt_def)

lemma at_opt_Some: "at_opt xs i = Some x \<longleftrightarrow> i < length xs \<and> xs ! i = x"
  by (auto simp: at_opt_def)

lemma at_opt_drop: "at_opt xs i = (case drop i xs of [] \<Rightarrow> None | x # _ \<Rightarrow> Some x)"
proof (cases "i < length xs")
  case True
  then show ?thesis by (simp add: at_opt_def Cons_nth_drop_Suc [symmetric])
next
  case False
  then show ?thesis by (simp add: at_opt_def)
qed

text \<open>A test of \<open>text[i]\<close>, false where that is \<open>undefined\<close>.\<close>

definition test_at :: "(nat \<Rightarrow> bool) \<Rightarrow> nat list \<Rightarrow> nat \<Rightarrow> bool" where
  "test_at p xs i \<longleftrightarrow> i < length xs \<and> p (xs ! i)"

text \<open>\<open>text.slice(from, to)\<close> for \<open>0 \<le> from\<close>.\<close>

definition slice :: "'a list \<Rightarrow> nat \<Rightarrow> nat \<Rightarrow> 'a list" where
  "slice xs from to = take (to - from) (drop from xs)"

lemma length_slice [simp]: "length (slice xs i j) = min (j - i) (length xs - i)"
  by (simp add: slice_def)

section \<open>Walking a string\<close>

text \<open>\<open>while (i < text.length && p(text[i])) i += 1\<close>, starting at \<open>i\<close>.\<close>

definition run_end :: "('a \<Rightarrow> bool) \<Rightarrow> 'a list \<Rightarrow> nat \<Rightarrow> nat" where
  "run_end p xs i = i + length (takeWhile p (drop i xs))"

lemma run_end_ge [simp]: "i \<le> run_end p xs i"
  by (simp add: run_end_def)

lemma run_end_Suc [simp]: "i < run_end p xs (Suc i)"
  by (rule less_le_trans [OF lessI run_end_ge])

lemma run_end_le [simp]: "i \<le> length xs \<Longrightarrow> run_end p xs i \<le> length xs"
  using length_takeWhile_le [of p "drop i xs"] by (simp add: run_end_def)

text \<open>The loop's own equation, one test and one step at a time.\<close>

lemma run_end_unfold:
  "run_end p xs i = (if i < length xs \<and> p (xs ! i) then run_end p xs (Suc i) else i)"
  by (cases "i < length xs") (auto simp: run_end_def Cons_nth_drop_Suc [symmetric])

lemma run_end_gt: "i < length xs \<Longrightarrow> p (xs ! i) \<Longrightarrow> i < run_end p xs i"
  by (subst run_end_unfold) (auto intro: less_le_trans [OF lessI])

lemma run_end_inside: "i \<le> j \<Longrightarrow> j < run_end p xs i \<Longrightarrow> p (xs ! j)"
proof -
  assume ij: "i \<le> j" and j: "j < run_end p xs i"
  have "j - i < length (takeWhile p (drop i xs))"
    using ij j by (simp add: run_end_def)
  moreover from this have "takeWhile p (drop i xs) ! (j - i) = drop i xs ! (j - i)"
    by (rule takeWhile_nth)
  ultimately have "p (drop i xs ! (j - i))"
    by (metis nth_mem set_takeWhileD)
  moreover have "i + (j - i) \<le> length xs"
    using \<open>j - i < length (takeWhile p (drop i xs))\<close> length_takeWhile_le [of p "drop i xs"] by simp
  ultimately show ?thesis using ij by simp
qed

lemma run_end_stop: "run_end p xs i < length xs \<Longrightarrow> \<not> p (xs ! run_end p xs i)"
proof -
  assume h: "run_end p xs i < length xs"
  then have "length (takeWhile p (drop i xs)) < length (drop i xs)"
    by (simp add: run_end_def)
  then have "\<not> p (drop i xs ! length (takeWhile p (drop i xs)))"
    by (rule nth_length_takeWhile)
  with h show ?thesis by (simp add: run_end_def)
qed

lemma drop_run_end: "drop (run_end p xs i) xs = dropWhile p (drop i xs)"
  by (metis add.commute dropWhile_eq_drop drop_drop run_end_def)

lemma slice_run_end: "slice xs i (run_end p xs i) = takeWhile p (drop i xs)"
  by (simp add: slice_def run_end_def takeWhile_eq_take [symmetric])

section \<open>Pieces of a string\<close>

text \<open>\<open>split\<close> at a code unit, and \<open>join\<close>.\<close>

fun split_on :: "nat \<Rightarrow> jstring \<Rightarrow> jstring list" where
  "split_on c [] = [[]]"
| "split_on c (x # xs) =
     (if x = c then [] # split_on c xs
      else case split_on c xs of p # ps \<Rightarrow> (x # p) # ps | [] \<Rightarrow> [[x]])"

fun join_with :: "jstring \<Rightarrow> jstring list \<Rightarrow> jstring" where
  "join_with sep [] = []"
| "join_with sep [s] = s"
| "join_with sep (s # t # r) = s @ sep @ join_with sep (t # r)"

lemma split_on_piece: "c \<notin> set q \<Longrightarrow> split_on c (q @ c # r) = q # split_on c r"
  by (induction q) auto

lemma split_on_whole: "c \<notin> set q \<Longrightarrow> split_on c q = [q]"
  by (induction q) auto

lemma split_on_pieces: "q \<in> set (split_on c p) \<Longrightarrow> c \<notin> set q"
  by (induction p arbitrary: q) (auto split: list.splits if_splits)

lemma split_join: "ps \<noteq> [] \<Longrightarrow> \<forall>q\<in>set ps. c \<notin> set q \<Longrightarrow> split_on c (join_with [c] ps) = ps"
  by (induction "[c]" ps rule: join_with.induct) (auto simp: split_on_piece split_on_whole)

lemma length_join: "ts \<noteq> [] \<Longrightarrow> sum_list (map (\<lambda>t. length t + 1) ts) = length (join_with [c] ts) + 1"
  by (induction "[c]" ts rule: join_with.induct) auto

section \<open>Decimal numerals\<close>

text \<open>A template's \<open>${n}\<close> of an integer: its decimal digits, with a minus sign when negative.\<close>

fun show_nat :: "nat \<Rightarrow> jstring" where
  "show_nat n = (if n < 10 then [48 + n] else show_nat (n div 10) @ [48 + n mod 10])"

declare show_nat.simps [simp del]

definition show_int :: "int \<Rightarrow> jstring" where
  "show_int i = (if i < 0 then 45 # show_nat (nat (- i)) else show_nat (nat i))"

lemma show_nat_digits: "u \<in> set (show_nat n) \<Longrightarrow> 48 \<le> u \<and> u \<le> 57"
proof (induction n rule: show_nat.induct)
  case (1 n)
  show ?case
  proof (cases "n < 10")
    case True
    with "1.prems" show ?thesis by (simp add: show_nat.simps [of n])
  next
    case False
    with "1.prems" have "u \<in> set (show_nat (n div 10)) \<or> u = 48 + n mod 10"
      by (auto simp: show_nat.simps [of n])
    with False "1.IH" show ?thesis by (auto intro: order_trans)
  qed
qed

lemma show_nat_nonempty [simp]: "show_nat n \<noteq> []"
  by (subst show_nat.simps) simp

text \<open>Reading the digits back gives the number, so two numbers never print alike.\<close>

definition read_nat :: "jstring \<Rightarrow> nat" where
  "read_nat s = foldl (\<lambda>acc u. 10 * acc + (u - 48)) 0 s"

lemma read_show_nat [simp]: "read_nat (show_nat n) = n"
proof (induction n rule: show_nat.induct)
  case (1 n)
  show ?case
  proof (cases "n < 10")
    case True
    then show ?thesis by (simp add: show_nat.simps [of n] read_nat_def)
  next
    case False
    with "1.IH" show ?thesis by (simp add: show_nat.simps [of n] read_nat_def)
  qed
qed

lemma show_nat_inject [simp]: "show_nat m = show_nat n \<longleftrightarrow> m = n"
  by (metis read_show_nat)

lemma show_nat_head: "show_nat m \<noteq> 45 # s"
proof
  assume "show_nat m = 45 # s"
  then have "45 \<in> set (show_nat m)" by simp
  then show False using show_nat_digits by fastforce
qed

lemma show_int_inject [simp]: "show_int i = show_int j \<longleftrightarrow> i = j"
  using show_nat_head [of "nat i" "show_nat (nat (- j))"]
    show_nat_head [of "nat j" "show_nat (nat (- i))"]
  by (auto simp: show_int_def split: if_splits) 

section \<open>Code points\<close>

definition high_surrogate :: "nat \<Rightarrow> bool" where
  "high_surrogate u \<longleftrightarrow> 0xD800 \<le> u \<and> u < 0xDC00"

definition low_surrogate :: "nat \<Rightarrow> bool" where
  "low_surrogate u \<longleftrightarrow> 0xDC00 \<le> u \<and> u < 0xE000"

text \<open>
  \<open>Array.from(text)\<close> and \<open>for (const c of text)\<close>: the code point of each element. A high
  surrogate followed by a low one is one element; a surrogate on its own is itself.
\<close>

fun code_points :: "jstring \<Rightarrow> nat list" where
  "code_points [] = []"
| "code_points [u] = [u]"
| "code_points (u # v # r) =
     (if high_surrogate u \<and> low_surrogate v
      then (0x10000 + (u - 0xD800) * 0x400 + (v - 0xDC00)) # code_points r
      else u # code_points (v # r))"

text \<open>The code units of one code point, and of several joined.\<close>

definition units_of :: "nat \<Rightarrow> jstring" where
  "units_of c = (if c < 0x10000 then [c]
     else [0xD800 + (c - 0x10000) div 0x400, 0xDC00 + (c - 0x10000) mod 0x400])"

definition join_points :: "nat list \<Rightarrow> jstring" where
  "join_points cs = concat (map units_of cs)"

text \<open>
  A list of code points that \<^const>\<open>code_points\<close> can answer: every element in Unicode's
  range, and no high surrogate right before a low one.
\<close>

fun no_pairs :: "nat list \<Rightarrow> bool" where
  "no_pairs [] = True"
| "no_pairs [c] = (c < 0x110000)"
| "no_pairs (c # d # r) = (c < 0x110000 \<and> \<not> (high_surrogate c \<and> low_surrogate d) \<and> no_pairs (d # r))"

definition units_ok :: "jstring \<Rightarrow> bool" where
  "units_ok s \<longleftrightarrow> (\<forall>u\<in>set s. u < 0x10000)"

lemma units_ok_simps [simp]:
  "units_ok []"
  "units_ok (u # s) \<longleftrightarrow> u < 0x10000 \<and> units_ok s"
  "units_ok (s @ t) \<longleftrightarrow> units_ok s \<and> units_ok t"
  by (auto simp: units_ok_def)

lemma units_of_pair:
  assumes "high_surrogate u" and "low_surrogate v"
  shows "units_of (0x10000 + (u - 0xD800) * 0x400 + (v - 0xDC00)) = [u, v]"
proof -
  from assms have v: "v - 0xDC00 < 0x400" and u: "0xD800 \<le> u" and v': "0xDC00 \<le> v"
    by (auto simp: high_surrogate_def low_surrogate_def)
  have "((u - 0xD800) * 0x400 + (v - 0xDC00)) div 0x400 = u - 0xD800"
    using v by simp
  moreover have "((u - 0xD800) * 0x400 + (v - 0xDC00)) mod 0x400 = v - 0xDC00"
    using v by simp
  ultimately show ?thesis using u v' by (simp add: units_of_def add.assoc)
qed

text \<open>Joining what a string was cut into gives the string back.\<close>

lemma join_code_points: "units_ok s \<Longrightarrow> join_points (code_points s) = s"
  by (induction s rule: code_points.induct)
    (auto simp: join_points_def units_of_pair, auto simp: units_of_def)

lemma no_pairs_Cons: "no_pairs (c # cs) \<longleftrightarrow>
    c < 0x110000 \<and> (cs \<noteq> [] \<longrightarrow> \<not> (high_surrogate c \<and> low_surrogate (hd cs))) \<and> no_pairs cs"
  by (cases cs) auto

lemma pair_point_range:
  "high_surrogate u \<Longrightarrow> low_surrogate v \<Longrightarrow>
     0x10000 \<le> 0x10000 + (u - 0xD800) * 0x400 + (v - 0xDC00) \<and>
     0x10000 + (u - 0xD800) * 0x400 + (v - 0xDC00) < 0x110000"
  by (auto simp: high_surrogate_def low_surrogate_def)

lemma hd_code_points_low:
  "units_ok (v # r) \<Longrightarrow> low_surrogate (hd (code_points (v # r))) \<Longrightarrow> low_surrogate v"
  by (cases r) (auto simp: low_surrogate_def split: if_splits)

lemma code_points_nonempty [simp]: "code_points s = [] \<longleftrightarrow> s = []"
  by (cases s rule: code_points.cases) auto

lemma no_pairs_code_points: "units_ok s \<Longrightarrow> no_pairs (code_points s)"
proof (induction s rule: code_points.induct)
  case (3 u v r)
  show ?case
  proof (cases "high_surrogate u \<and> low_surrogate v")
    case True
    then show ?thesis
      using 3 pair_point_range [of u v] by (auto simp: no_pairs_Cons high_surrogate_def)
  next
    case False
    then show ?thesis
      using 3 hd_code_points_low [of v r] by (auto simp: no_pairs_Cons)
  qed
qed auto

text \<open>Cutting joined code points gives them back, when no pair was torn apart.\<close>

lemma code_points_append_pair:
  "0x10000 \<le> c \<Longrightarrow> c < 0x110000 \<Longrightarrow> code_points (units_of c @ s) = c # code_points s"
  by (auto simp: units_of_def high_surrogate_def low_surrogate_def algebra_simps)

lemma code_points_append_unit:
  "c < 0x10000 \<Longrightarrow> s = [] \<or> \<not> (high_surrogate c \<and> low_surrogate (hd s)) \<Longrightarrow>
   code_points (units_of c @ s) = c # code_points s"
  by (cases s) (auto simp: units_of_def)

lemma hd_join_points: "no_pairs cs \<Longrightarrow> cs \<noteq> [] \<Longrightarrow> low_surrogate (hd (join_points cs)) \<Longrightarrow> low_surrogate (hd cs)"
  by (cases cs)
    (auto simp: join_points_def units_of_def low_surrogate_def no_pairs_Cons split: if_splits)

lemma code_points_join: "no_pairs cs \<Longrightarrow> code_points (join_points cs) = cs"
proof (induction cs)
  case (Cons c cs)
  from Cons.prems have c: "c < 0x110000" and cs: "no_pairs cs"
    by (auto simp: no_pairs_Cons)
  have step: "join_points (c # cs) = units_of c @ join_points cs"
    by (simp add: join_points_def)
  show ?case
  proof (cases "c < 0x10000")
    case True
    have "join_points cs = [] \<or> \<not> (high_surrogate c \<and> low_surrogate (hd (join_points cs)))"
      using Cons.prems hd_join_points [of cs]
      by (cases cs) (auto simp: no_pairs_Cons join_points_def)
    with True show ?thesis
      unfolding step by (simp add: code_points_append_unit Cons.IH [OF cs])
  next
    case False
    with c show ?thesis
      unfolding step by (simp add: code_points_append_pair Cons.IH [OF cs])
  qed
qed (simp add: join_points_def)

lemma join_points_append [simp]: "join_points (xs @ ys) = join_points xs @ join_points ys"
  by (simp add: join_points_def)

lemma join_points_Nil [simp]: "join_points [] = []"
  by (simp add: join_points_def)

text \<open>Cutting two strings one after the other, when no pair straddles the seam.\<close>

lemma code_points_append:
  assumes "s = [] \<or> t = [] \<or> \<not> high_surrogate (last s) \<or> \<not> low_surrogate (hd t)"
  shows "code_points (s @ t) = code_points s @ code_points t"
  using assms
proof (induction s rule: code_points.induct)
  case (2 u)
  then show ?case by (cases t) auto
next
  case (3 u v r)
  show ?case
  proof (cases "high_surrogate u \<and> low_surrogate v")
    case True
    with "3.prems" have "r = [] \<or> t = [] \<or> \<not> high_surrogate (last r) \<or> \<not> low_surrogate (hd t)"
      by (auto split: if_splits)
    with True "3.IH"(1) show ?thesis by simp
  next
    case False
    with 3 have "code_points ((v # r) @ t) = code_points (v # r) @ code_points t" by simp
    with False show ?thesis by auto
  qed
qed auto

lemma code_points_ascii: "\<forall>u\<in>set s. u < 0xD800 \<Longrightarrow> code_points s = s"
  by (induction s rule: code_points.induct) (auto simp: high_surrogate_def)

lemma units_ok_join: "\<forall>c\<in>set cs. c < 0x110000 \<Longrightarrow> units_ok (join_points cs)"
  by (induction cs) (auto simp: join_points_def units_of_def)

lemma no_pairs_range: "no_pairs cs \<Longrightarrow> c \<in> set cs \<Longrightarrow> c < 0x110000"
  by (induction cs rule: no_pairs.induct) auto

lemma no_pairs_infix: "no_pairs (xs @ ys @ zs) \<Longrightarrow> no_pairs ys"
proof -
  have tail: "no_pairs ys'" if "no_pairs (xs' @ ys')" for xs' ys' :: "nat list"
    using that by (induction xs') (auto simp: no_pairs_Cons)
  have front: "no_pairs ys'" if "no_pairs (ys' @ zs')" for ys' zs' :: "nat list"
    using that by (induction ys' rule: no_pairs.induct) (auto simp: no_pairs_Cons)
  assume "no_pairs (xs @ ys @ zs)"
  from front [OF tail [OF this]] show ?thesis .
qed

lemma no_pairs_slice: "no_pairs cs \<Longrightarrow> no_pairs (slice cs i j)"
  by (rule no_pairs_infix [of "take i cs" _ "drop (j - i) (drop i cs)"]) (simp add: slice_def del: drop_drop)

end
