(* ===== verification/Feed_Store.thy ===== *)
theory Feed_Store
  imports JS_Base
begin

text \<open>
  The ring every feed keeps (\<open>console/src/lib/live/feed-store.ts\<close>): a bounded deque over a
  power-of-two array with an index from row keys to absolute positions. The first part
  translates the closure \<open>createFeedStore\<close> returns, one definition per function, over a
  record of its variables; the second gives the list of rows a reader sees and what each
  operation does to that list; the third proves that the ring implements it.
\<close>

unbundle bit_operations_syntax

section \<open>The store\<close>

text \<open>A row: an item, a gap, or a marker with its optional action (a label and what it runs).\<close>

datatype ('a, 'c) feed_row =
    Item 'a
  | Gap "nat option" nat
  | Marker jstring jstring "(jstring \<times> 'c) option"

fun is_item :: "('a, 'c) feed_row \<Rightarrow> bool" where
  "is_item (Item x) = True"
| "is_item r = False"

record feed_snapshot =
  snap_size :: nat
  snap_version :: nat
  snap_dropped :: nat
  snap_pending :: nat

text \<open>
  The options: at most \<open>max_items\<close> items, \<open>pause_max\<close> while paused and buffering, the key of
  an item, and whether a paused feed freezes (or buffers).
\<close>

record 'a feed_options =
  max_items :: nat
  pause_max :: nat
  item_key :: "'a \<Rightarrow> jstring"
  freezes :: bool

definition feed_options :: "nat \<Rightarrow> nat option \<Rightarrow> ('a \<Rightarrow> jstring) \<Rightarrow> bool option \<Rightarrow> 'a feed_options" where
  "feed_options mx pmx key mode =
     \<lparr>max_items = mx, pause_max = max (case pmx of None \<Rightarrow> 50000 | Some n \<Rightarrow> n) mx,
      item_key = key, freezes = (case mode of None \<Rightarrow> False | Some b \<Rightarrow> b)\<rparr>"

text \<open>
  The variables of the closure. Listeners are named by numbers, in the order they were added;
  \<open>evict_calls\<close> and \<open>frame_calls\<close> record the calls made to them.
\<close>

record ('a, 'c) feed =
  capacity :: nat
  slots :: "('a, 'c) feed_row option list"
  start :: int
  count :: nat
  items :: int
  others :: int
  index :: "jstring \<rightharpoonup> int"
  evicted :: nat
  paused :: bool
  counted :: nat
  changes :: nat
  figures :: feed_snapshot
  scheduled :: bool
  listeners :: "nat list"
  evict_listeners :: "nat list"
  frame_calls :: "nat list"
  evict_calls :: "(nat \<times> jstring list) list"

definition MAX_OTHER_ROWS :: int where
  "MAX_OTHER_ROWS = 1000"

definition marker_key :: "jstring \<Rightarrow> jstring" where
  "marker_key k = 0 # js ''marker:'' @ k"

definition gap_key :: "int \<Rightarrow> jstring" where
  "gap_key seq = 0 # js ''gap:'' @ show_int seq"

fun rowKey :: "('a, 'c) feed_row \<Rightarrow> ('a \<Rightarrow> jstring) \<Rightarrow> int \<Rightarrow> jstring" where
  "rowKey (Item x) key seq = key x"
| "rowKey (Marker k t a) key seq = marker_key k"
| "rowKey (Gap m kept) key seq = gap_key seq"

definition createFeedStore :: "('a, 'c) feed" where
  "createFeedStore =
     \<lparr>capacity = 16, slots = replicate 16 None, start = 0, count = 0, items = 0, others = 0,
      index = Map.empty, evicted = 0, paused = False, counted = 0, changes = 0,
      figures = \<lparr>snap_size = 0, snap_version = 0, snap_dropped = 0, snap_pending = 0\<rparr>,
      scheduled = False, listeners = [], evict_listeners = [], frame_calls = [],
      evict_calls = []\<rparr>"

text \<open>\<open>frameScheduler\<close>: asking again before the frame changes nothing; the frame notifies once.\<close>

definition schedule :: "('a, 'c) feed \<Rightarrow> ('a, 'c) feed" where
  "schedule st = (if scheduled st then st else st\<lparr>scheduled := True\<rparr>)"

definition run_frame :: "('a, 'c) feed \<Rightarrow> ('a, 'c) feed" where
  "run_frame st =
     (if scheduled st
      then st\<lparr>scheduled := False, frame_calls := frame_calls st @ listeners st\<rparr> else st)"

definition slot :: "nat \<Rightarrow> int \<Rightarrow> nat" where
  "slot cap seq = nat (seq AND (int cap - 1))"

definition rowAt :: "('a, 'c) feed \<Rightarrow> int \<Rightarrow> ('a, 'c) feed_row option" where
  "rowAt st seq = slots st ! slot (capacity st) seq"

definition set_slot :: "int \<Rightarrow> ('a, 'c) feed_row option \<Rightarrow> ('a, 'c) feed \<Rightarrow> ('a, 'c) feed" where
  "set_slot seq r st = st\<lparr>slots := (slots st)[slot (capacity st) seq := r]\<rparr>"

text \<open>\<open>grow\<close>: every kept row copied to its place in an array twice as long.\<close>

fun grow_copy :: "('a, 'c) feed \<Rightarrow> nat \<Rightarrow> ('a, 'c) feed_row option list
    \<Rightarrow> ('a, 'c) feed_row option list" where
  "grow_copy st 0 next = next"
| "grow_copy st (Suc offset) next =
     (grow_copy st offset next)
       [slot (2 * capacity st) (start st + int offset) := rowAt st (start st + int offset)]"

definition grow :: "('a, 'c) feed \<Rightarrow> ('a, 'c) feed" where
  "grow st = st\<lparr>slots := grow_copy st (count st) (replicate (2 * capacity st) None),
                capacity := 2 * capacity st\<rparr>"

text \<open>\<open>if (count === capacity) grow()\<close>, before a row is added at either end.\<close>

definition room :: "('a, 'c) feed \<Rightarrow> ('a, 'c) feed" where
  "room st = (if count st = capacity st then grow st else st)"

definition changed :: "('a, 'c) feed \<Rightarrow> ('a, 'c) feed" where
  "changed st = schedule (st\<lparr>changes := changes st + 1\<rparr>)"

definition tally :: "('a, 'c) feed_row \<Rightarrow> int \<Rightarrow> ('a, 'c) feed \<Rightarrow> ('a, 'c) feed" where
  "tally r by st = (if is_item r then st\<lparr>items := items st + by\<rparr> else st\<lparr>others := others st + by\<rparr>)"

definition append_row :: "'a feed_options \<Rightarrow> ('a, 'c) feed_row \<Rightarrow> ('a, 'c) feed \<Rightarrow> ('a, 'c) feed" where
  "append_row opt r st0 =
     (let st = room st0;
          seq = start st + int (count st);
          st1 = set_slot seq (Some r) st;
          st2 = tally r 1 (st1\<lparr>count := count st1 + 1\<rparr>)
      in st2\<lparr>index := (index st2)(rowKey r (item_key opt) seq \<mapsto> seq)\<rparr>)"

text \<open>\<open>if (index.get(name) === seq) index.delete(name)\<close>\<close>

definition forget :: "jstring \<Rightarrow> int \<Rightarrow> (jstring \<rightharpoonup> int) \<Rightarrow> (jstring \<rightharpoonup> int)" where
  "forget name seq m = (if m name = Some seq then m(name := None) else m)"

definition evictFront :: "'a feed_options \<Rightarrow> ('a, 'c) feed \<Rightarrow> ('a, 'c) feed \<times> jstring" where
  "evictFront opt st =
     (let seq = start st; row = rowAt st seq;
          st1 = (set_slot seq None st)\<lparr>start := start st + 1, count := count st - 1\<rparr>
      in case row of
           None \<Rightarrow> (st1, [])
         | Some r \<Rightarrow>
             (let st2 = tally r (- 1) st1; name = rowKey r (item_key opt) seq;
                  st3 = st2\<lparr>index := forget name seq (index st2)\<rparr>;
                  st4 = (if is_item r then st3\<lparr>evicted := evicted st3 + 1\<rparr> else st3)
              in (st4, name)))"

lemma count_evictFront [simp]: "count (fst (evictFront opt st)) = count st - 1"
  by (auto simp: evictFront_def tally_def set_slot_def Let_def split: option.splits)

function trim_loop :: "'a feed_options \<Rightarrow> nat \<Rightarrow> ('a, 'c) feed \<Rightarrow> ('a, 'c) feed \<times> jstring list" where
  "trim_loop opt limit st =
     (if count st = 0 \<or> (items st \<le> int limit \<and> others st \<le> MAX_OTHER_ROWS) then (st, [])
      else let (st1, name) = evictFront opt st; (st2, gone) = trim_loop opt limit st1
           in (st2, name # gone))"
  by pat_completeness auto
termination
proof (relation "measure (\<lambda>(opt, limit, st). count st)", goal_cases)
  case (2 opt limit st x st1 name)
  then show ?case using count_evictFront [of opt st] by (cases "evictFront opt st") auto
qed simp

declare trim_loop.simps [simp del]

definition trim :: "'a feed_options \<Rightarrow> nat \<Rightarrow> bool \<Rightarrow> ('a, 'c) feed \<Rightarrow> ('a, 'c) feed" where
  "trim opt limit report st =
     (let (st1, gone) = trim_loop opt limit st
      in if report \<and> gone \<noteq> []
         then st1\<lparr>evict_calls := evict_calls st1 @ map (\<lambda>l. (l, gone)) (evict_listeners st1)\<rparr>
         else st1)"

definition settle :: "'a feed_options \<Rightarrow> ('a, 'c) feed \<Rightarrow> ('a, 'c) feed" where
  "settle opt st =
     (if \<not> paused st then trim opt (max_items opt) False st
      else if \<not> freezes opt then trim opt (pause_max opt) True st else st)"

text \<open>Whether \<open>existing !== undefined && rowAt(existing)?.kind === 'item'\<close>, and where.\<close>

definition existing_item :: "'a feed_options \<Rightarrow> 'a \<Rightarrow> ('a, 'c) feed \<Rightarrow> int option" where
  "existing_item opt x st =
     (case index st (item_key opt x) of
        None \<Rightarrow> None
      | Some seq \<Rightarrow>
          (case rowAt st seq of Some (Item y) \<Rightarrow> Some seq | _ \<Rightarrow> None))"

definition put_item :: "'a feed_options \<Rightarrow> 'a \<Rightarrow> ('a, 'c) feed \<Rightarrow> ('a, 'c) feed" where
  "put_item opt x st =
     (case existing_item opt x st of
        Some seq \<Rightarrow> set_slot seq (Some (Item x)) st
      | None \<Rightarrow> append_row opt (Item x) st)"

definition appendItems :: "'a feed_options \<Rightarrow> 'a list \<Rightarrow> ('a, 'c) feed \<Rightarrow> ('a, 'c) feed" where
  "appendItems opt xs st =
     (if xs = [] then st
      else if paused st \<and> freezes opt then changed (st\<lparr>counted := counted st + length xs\<rparr>)
      else changed (settle opt (fold (put_item opt) xs st)))"

section \<open>The operations the store offers\<close>

abbreviation push :: "'a feed_options \<Rightarrow> 'a list \<Rightarrow> ('a, 'c) feed \<Rightarrow> ('a, 'c) feed" where
  "push \<equiv> appendItems"

fun upsert_loop :: "'a feed_options \<Rightarrow> 'a list \<Rightarrow> ('a, 'c) feed \<times> 'a list \<times> bool
    \<Rightarrow> ('a, 'c) feed \<times> 'a list \<times> bool" where
  "upsert_loop opt [] acc = acc"
| "upsert_loop opt (x # xs) (st, fresh, replaced) =
     (case existing_item opt x st of
        Some seq \<Rightarrow> upsert_loop opt xs (set_slot seq (Some (Item x)) st, fresh, True)
      | None \<Rightarrow> upsert_loop opt xs (st, fresh @ [x], replaced))"

definition upsert :: "'a feed_options \<Rightarrow> 'a list \<Rightarrow> ('a, 'c) feed \<Rightarrow> ('a, 'c) feed" where
  "upsert opt xs st0 =
     (let (st, fresh, replaced) = upsert_loop opt xs (st0, [], False)
      in appendItems opt fresh (if replaced then changed st else st))"

definition prepend_item :: "'a feed_options \<Rightarrow> 'a \<Rightarrow> ('a, 'c) feed \<Rightarrow> ('a, 'c) feed" where
  "prepend_item opt x st0 =
     (if index st0 (item_key opt x) \<noteq> None then st0
      else let st = room st0;
               st1 = st\<lparr>start := start st - 1, count := count st + 1\<rparr>;
               st2 = tally (Item x) 1 (set_slot (start st1) (Some (Item x)) st1)
           in st2\<lparr>index := (index st2)(item_key opt x \<mapsto> start st2)\<rparr>)"

text \<open>\<open>prepend\<close> walks the list from its end, so that the rows stay oldest first.\<close>

definition prepend :: "'a feed_options \<Rightarrow> 'a list \<Rightarrow> ('a, 'c) feed \<Rightarrow> ('a, 'c) feed" where
  "prepend opt xs st =
     (if xs = [] then st else changed (fold (prepend_item opt) (rev xs) st))"

definition replaceLast :: "'a feed_options \<Rightarrow> 'a \<Rightarrow> ('a, 'c) feed \<Rightarrow> ('a, 'c) feed" where
  "replaceLast opt x st =
     (if count st = 0 then appendItems opt [x] st
      else let seq = start st + int (count st) - 1;
               st1 = (case rowAt st seq of
                        None \<Rightarrow> st
                      | Some r \<Rightarrow>
                          tally r (- 1)
                            (st\<lparr>index := forget (rowKey r (item_key opt) seq) seq (index st)\<rparr>));
               st2 = tally (Item x) 1 (set_slot seq (Some (Item x)) st1)
           in changed (st2\<lparr>index := (index st2)(item_key opt x \<mapsto> seq)\<rparr>))"

text \<open>A marker's arguments: its key, its text and its action.\<close>

definition marker :: "'a feed_options \<Rightarrow> jstring \<Rightarrow> jstring \<Rightarrow> (jstring \<times> 'c) option
    \<Rightarrow> ('a, 'c) feed \<Rightarrow> ('a, 'c) feed" where
  "marker opt k t a st =
     changed (settle opt
       (case index st (rowKey (Marker k t a :: ('a, 'c) feed_row) (item_key opt) 0) of
          Some seq \<Rightarrow> set_slot seq (Some (Marker k t a)) st
        | None \<Rightarrow> append_row opt (Marker k t a) st))"

definition gap :: "'a feed_options \<Rightarrow> nat option \<Rightarrow> nat \<Rightarrow> ('a, 'c) feed \<Rightarrow> ('a, 'c) feed" where
  "gap opt missed kept st = changed (settle opt (append_row opt (Gap missed kept) st))"

definition pause :: "('a, 'c) feed \<Rightarrow> ('a, 'c) feed" where
  "pause st = (if paused st then st else changed (st\<lparr>paused := True\<rparr>))"

definition resume :: "'a feed_options \<Rightarrow> ('a, 'c) feed \<Rightarrow> ('a, 'c) feed" where
  "resume opt st =
     (if \<not> paused st then st
      else changed (trim opt (max_items opt) True (st\<lparr>paused := False, counted := 0\<rparr>)))"

definition pending :: "('a, 'c) feed \<Rightarrow> nat" where
  "pending st = counted st"

definition clear :: "('a, 'c) feed \<Rightarrow> ('a, 'c) feed" where
  "clear st =
     changed (st\<lparr>slots := replicate 16 None, capacity := 16, start := 0, count := 0,
                 items := 0, others := 0, index := Map.empty, evicted := 0, counted := 0\<rparr>)"

definition size_of :: "('a, 'c) feed \<Rightarrow> nat" where
  "size_of st = count st"

definition at_row :: "int \<Rightarrow> ('a, 'c) feed \<Rightarrow> ('a, 'c) feed_row option" where
  "at_row position st =
     (if 0 \<le> position \<and> position < int (count st) then rowAt st (start st + position) else None)"

definition indexOf :: "jstring \<Rightarrow> ('a, 'c) feed \<Rightarrow> int" where
  "indexOf name st = (case index st name of None \<Rightarrow> - 1 | Some seq \<Rightarrow> seq - start st)"

definition dropped :: "('a, 'c) feed \<Rightarrow> nat" where
  "dropped st = evicted st"

text \<open>\<open>Set.add\<close> keeps the place of a listener that is already there.\<close>

definition add_listener :: "nat \<Rightarrow> nat list \<Rightarrow> nat list" where
  "add_listener l ls = (if l \<in> set ls then ls else ls @ [l])"

definition onEvict :: "nat \<Rightarrow> ('a, 'c) feed \<Rightarrow> ('a, 'c) feed" where
  "onEvict l st = st\<lparr>evict_listeners := add_listener l (evict_listeners st)\<rparr>"

definition offEvict :: "nat \<Rightarrow> ('a, 'c) feed \<Rightarrow> ('a, 'c) feed" where
  "offEvict l st = st\<lparr>evict_listeners := removeAll l (evict_listeners st)\<rparr>"

definition subscribe :: "nat \<Rightarrow> ('a, 'c) feed \<Rightarrow> ('a, 'c) feed" where
  "subscribe l st = st\<lparr>listeners := add_listener l (listeners st)\<rparr>"

definition unsubscribe :: "nat \<Rightarrow> ('a, 'c) feed \<Rightarrow> ('a, 'c) feed" where
  "unsubscribe l st = st\<lparr>listeners := removeAll l (listeners st)\<rparr>"

definition version :: "('a, 'c) feed \<Rightarrow> nat" where
  "version st = changes st"

definition snapshot :: "('a, 'c) feed \<Rightarrow> ('a, 'c) feed \<times> feed_snapshot" where
  "snapshot st =
     (let f = (if snap_version (figures st) \<noteq> changes st
               then \<lparr>snap_size = count st, snap_version = changes st,
                     snap_dropped = evicted st, snap_pending = counted st\<rparr>
               else figures st)
      in (st\<lparr>figures := f\<rparr>, f))"

section \<open>The rows a reader sees\<close>

definition feed_rows :: "('a, 'c) feed \<Rightarrow> ('a, 'c) feed_row list" where
  "feed_rows st = map (\<lambda>i. the (rowAt st (start st + int i))) [0..<count st]"

definition n_items :: "('a, 'c) feed_row list \<Rightarrow> nat" where
  "n_items rs = length (filter is_item rs)"

definition n_others :: "('a, 'c) feed_row list \<Rightarrow> nat" where
  "n_others rs = length (filter (\<lambda>r. \<not> is_item r) rs)"

text \<open>The keys of rows whose first is at position \<open>seq\<close>, and the index over them.\<close>

fun row_keys :: "('a \<Rightarrow> jstring) \<Rightarrow> int \<Rightarrow> ('a, 'c) feed_row list \<Rightarrow> jstring list" where
  "row_keys key seq [] = []"
| "row_keys key seq (r # rs) = rowKey r key seq # row_keys key (seq + 1) rs"

fun index_of :: "('a \<Rightarrow> jstring) \<Rightarrow> int \<Rightarrow> ('a, 'c) feed_row list \<Rightarrow> (jstring \<rightharpoonup> int)" where
  "index_of key seq [] = Map.empty"
| "index_of key seq (r # rs) = (index_of key (seq + 1) rs)(rowKey r key seq \<mapsto> seq)"

text \<open>
  \<open>feed_rep opt st rs\<close>: the store's variables stand for the rows \<open>rs\<close>. The first four
  conjuncts are the ring (a power-of-two array with the rows in their slots), the next two the
  tallies, the last two that no key is listed twice and that the index is exact.
\<close>

definition ring_rep :: "('a, 'c) feed \<Rightarrow> ('a, 'c) feed_row list \<Rightarrow> bool" where
  "ring_rep st rs \<longleftrightarrow>
     (\<exists>k. capacity st = 2 ^ k) \<and> length (slots st) = capacity st \<and>
     count st = length rs \<and> length rs \<le> capacity st \<and>
     (\<forall>i<length rs. rowAt st (start st + int i) = Some (rs ! i))"

definition feed_rep :: "'a feed_options \<Rightarrow> ('a, 'c) feed \<Rightarrow> ('a, 'c) feed_row list \<Rightarrow> bool" where
  "feed_rep opt st rs \<longleftrightarrow>
     ring_rep st rs \<and> items st = int (n_items rs) \<and> others st = int (n_others rs) \<and>
     distinct (row_keys (item_key opt) (start st) rs) \<and>
     index st = index_of (item_key opt) (start st) rs"

text \<open>No item's key starts with the NUL the markers' and gaps' keys start with.\<close>

definition plain_keys :: "'a feed_options \<Rightarrow> bool" where
  "plain_keys opt \<longleftrightarrow> (\<forall>x. item_key opt x = [] \<or> hd (item_key opt x) \<noteq> 0)"

text \<open>What the operations do to the rows.\<close>

fun swap_item :: "('a \<Rightarrow> jstring) \<Rightarrow> 'a \<Rightarrow> ('a, 'c) feed_row \<Rightarrow> ('a, 'c) feed_row" where
  "swap_item key x (Item y) = (if key y = key x then Item x else Item y)"
| "swap_item key x r = r"

fun has_item :: "('a \<Rightarrow> jstring) \<Rightarrow> 'a \<Rightarrow> ('a, 'c) feed_row \<Rightarrow> bool" where
  "has_item key x (Item y) \<longleftrightarrow> key y = key x"
| "has_item key x r \<longleftrightarrow> False"

definition put_rows :: "('a \<Rightarrow> jstring) \<Rightarrow> 'a \<Rightarrow> ('a, 'c) feed_row list \<Rightarrow> ('a, 'c) feed_row list" where
  "put_rows key x rs =
     (if list_ex (has_item key x) rs then map (swap_item key x) rs else rs @ [Item x])"

fun trim_rows :: "nat \<Rightarrow> ('a, 'c) feed_row list \<Rightarrow> ('a, 'c) feed_row list" where
  "trim_rows limit [] = []"
| "trim_rows limit (r # rs) =
     (if n_items (r # rs) \<le> limit \<and> int (n_others (r # rs)) \<le> MAX_OTHER_ROWS then r # rs
      else trim_rows limit rs)"

definition prepend_rows :: "('a \<Rightarrow> jstring) \<Rightarrow> 'a \<Rightarrow> ('a, 'c) feed_row list \<Rightarrow> ('a, 'c) feed_row list" where
  "prepend_rows key x rs = (if list_ex (has_item key x) rs then rs else Item x # rs)"

fun is_marker :: "jstring \<Rightarrow> ('a, 'c) feed_row \<Rightarrow> bool" where
  "is_marker k (Marker k' t a) \<longleftrightarrow> k' = k"
| "is_marker k r \<longleftrightarrow> False"

definition marker_rows :: "jstring \<Rightarrow> jstring \<Rightarrow> (jstring \<times> 'c) option
    \<Rightarrow> ('a, 'c) feed_row list \<Rightarrow> ('a, 'c) feed_row list" where
  "marker_rows k t a rs =
     (if list_ex (is_marker k) rs
      then map (\<lambda>r. if is_marker k r then Marker k t a else r) rs else rs @ [Marker k t a])"

text \<open>Which limit a settled feed is trimmed to: none while it is frozen.\<close>

definition settle_rows :: "'a feed_options \<Rightarrow> bool \<Rightarrow> ('a, 'c) feed_row list
    \<Rightarrow> ('a, 'c) feed_row list" where
  "settle_rows opt psd rs =
     (if \<not> psd then trim_rows (max_items opt) rs
      else if \<not> freezes opt then trim_rows (pause_max opt) rs else rs)"

section \<open>The ring\<close>

lemma slot_mod: "slot (2 ^ k) seq = nat (seq mod 2 ^ k)"
  by (simp add: slot_def mask_eq_exp_minus_1 [symmetric] take_bit_eq_mask [symmetric] take_bit_eq_mod)

lemma slot_less: "slot (2 ^ k) seq < 2 ^ k"
  by (simp add: slot_mod nat_less_iff)

lemma slot_eq_iff:
  assumes "\<bar>a - b\<bar> < 2 ^ k"
  shows "slot (2 ^ k) a = slot (2 ^ k) b \<longleftrightarrow> a = b"
proof
  assume "slot (2 ^ k) a = slot (2 ^ k) b"
  then have "a mod 2 ^ k = b mod 2 ^ k"
    by (simp add: slot_mod eq_nat_nat_iff)
  then have "(2 ^ k :: int) dvd a - b"
    by (simp add: mod_eq_dvd_iff)
  then show "a = b"
    using assms zdvd_imp_le [of "2 ^ k" "\<bar>a - b\<bar>"] by (cases "a = b") auto
qed simp

lemma slot_window:
  "ring_rep st rs \<Longrightarrow> \<bar>a - b\<bar> < int (capacity st) \<Longrightarrow>
   slot (capacity st) a = slot (capacity st) b \<longleftrightarrow> a = b"
  using slot_eq_iff by (fastforce simp: ring_rep_def)

lemma rowAt_set_slot:
  assumes "ring_rep st rs"
  shows "rowAt (set_slot seq r st) seq' =
    (if slot (capacity st) seq' = slot (capacity st) seq then r else rowAt st seq')"
  using assms slot_less by (auto simp: ring_rep_def rowAt_def set_slot_def)

lemma feed_rows_rep: "ring_rep st rs \<Longrightarrow> feed_rows st = rs"
  by (auto simp: ring_rep_def feed_rows_def intro: nth_equalityI)

lemma ring_rep_cong:
  "slots st' = slots st \<Longrightarrow> capacity st' = capacity st \<Longrightarrow> start st' = start st \<Longrightarrow>
   count st' = count st \<Longrightarrow> ring_rep st' rs = ring_rep st rs"
  by (simp add: ring_rep_def rowAt_def)

lemma grow_copy_length [simp]: "length (grow_copy st n next) = length next"
  by (induction n) auto

lemma grow_copy_nth:
  assumes cap: "capacity st = 2 ^ k" and len: "length next = 2 * capacity st"
  shows "n \<le> capacity st \<Longrightarrow> i < n \<Longrightarrow>
    grow_copy st n next ! slot (2 * capacity st) (start st + int i) = rowAt st (start st + int i)"
proof (induction n)
  case (Suc n)
  have pow: "2 * capacity st = 2 ^ Suc k" using cap by simp
  have lt: "slot (2 * capacity st) (start st + int n) < length (grow_copy st n next)"
    unfolding pow using slot_less [of "Suc k"] cap len by simp
  show ?case
  proof (cases "i = n")
    case True
    with lt show ?thesis by simp
  next
    case False
    have "int n < int (capacity st)" using Suc.prems by simp
    then have "int n < 2 ^ k" by (simp only: cap of_nat_power of_nat_numeral)
    with Suc.prems have "\<bar>start st + int i - (start st + int n)\<bar> < 2 ^ Suc k"
      unfolding power_Suc by arith
    then have "slot (2 * capacity st) (start st + int n) \<noteq> slot (2 * capacity st) (start st + int i)"
      unfolding pow using slot_eq_iff [of "start st + int i" "start st + int n" "Suc k"] False by auto
    with Suc False show ?thesis by simp
  qed
qed simp

lemma ring_rep_grow:
  assumes "ring_rep st rs"
  shows "ring_rep (grow st) rs"
proof -
  from assms obtain k where k: "capacity st = 2 ^ k" by (auto simp: ring_rep_def)
  have "rowAt (grow st) (start st + int i) = Some (rs ! i)" if "i < length rs" for i
    using assms that grow_copy_nth [of st k "replicate (2 * capacity st) None" "count st" i] k
    by (simp add: ring_rep_def rowAt_def grow_def)
  moreover have "capacity (grow st) = 2 ^ Suc k" using k by (simp add: grow_def)
  ultimately show ?thesis
    using assms by (auto simp: ring_rep_def grow_def intro: exI [of _ "Suc k"])
qed

lemma capacity_set_slot [simp]: "capacity (set_slot seq r st) = capacity st"
  and start_set_slot [simp]: "start (set_slot seq r st) = start st"
  and count_set_slot [simp]: "count (set_slot seq r st) = count st"
  and length_slots_set_slot [simp]: "length (slots (set_slot seq r st)) = length (slots st)"
  by (simp_all add: set_slot_def)

lemma rowAt_cong:
  "slots st' = slots st \<Longrightarrow> capacity st' = capacity st \<Longrightarrow> rowAt st' seq = rowAt st seq"
  by (simp add: rowAt_def)

lemma rowAt_window:
  assumes "ring_rep st rs" and "\<bar>seq' - seq\<bar> < int (capacity st)"
  shows "rowAt (set_slot seq r st) seq' = (if seq' = seq then r else rowAt st seq')"
  using assms slot_window [OF assms] by (simp add: rowAt_set_slot)

lemma ring_rep_push:
  assumes "ring_rep st rs" and "length rs < capacity st"
  shows "ring_rep ((set_slot (start st + int (count st)) (Some r) st)\<lparr>count := count st + 1\<rparr>) (rs @ [r])"
proof -
  let ?st = "set_slot (start st + int (count st)) (Some r) st"
  have "rowAt ?st (start st + int i) = Some ((rs @ [r]) ! i)" if "i < Suc (length rs)" for i
  proof -
    have "\<bar>(start st + int i) - (start st + int (count st))\<bar> < int (capacity st)"
      using assms that by (auto simp: ring_rep_def)
    from rowAt_window [OF assms(1) this] show ?thesis
      using assms(1) that by (auto simp: ring_rep_def nth_append)
  qed
  then show ?thesis
    using assms by (auto simp: ring_rep_def rowAt_cong [of "_\<lparr>count := _\<rparr>" "_"])
qed

lemma ring_rep_drop:
  assumes "ring_rep st (r # rs)"
  shows "ring_rep ((set_slot (start st) None st)\<lparr>start := start st + 1, count := count st - 1\<rparr>) rs"
proof -
  let ?st = "set_slot (start st) None st"
  have "rowAt ?st (start st + 1 + int i) = Some (rs ! i)" if "i < length rs" for i
  proof -
    have "\<bar>(start st + 1 + int i) - start st\<bar> < int (capacity st)"
      using assms that by (auto simp: ring_rep_def)
    from rowAt_window [OF assms this]
    have "rowAt ?st (start st + 1 + int i) = rowAt st (start st + int (Suc i))"
      by (simp add: algebra_simps)
    also have "\<dots> = Some (rs ! i)"
      using assms that by (force simp: ring_rep_def)
    finally show ?thesis .
  qed
  then show ?thesis
    using assms by (auto simp: ring_rep_def rowAt_cong [of "_\<lparr>start := _, count := _\<rparr>" "_"])
qed

lemma ring_rep_unshift:
  assumes "ring_rep st rs" and "length rs < capacity st"
  shows "ring_rep (set_slot (start st - 1) (Some r) (st\<lparr>start := start st - 1, count := count st + 1\<rparr>))
           (r # rs)"
proof -
  let ?st = "set_slot (start st - 1) (Some r) st"
  have "rowAt ?st (start st - 1 + int i) = Some ((r # rs) ! i)" if "i < Suc (length rs)" for i
  proof -
    have "\<bar>(start st - 1 + int i) - (start st - 1)\<bar> < int (capacity st)"
      using assms that by (auto simp: ring_rep_def)
    from rowAt_window [OF assms(1) this] show ?thesis
      using assms(1) that by (cases i) (auto simp: ring_rep_def algebra_simps)
  qed
  then show ?thesis
    using assms by (auto simp: ring_rep_def rowAt_def set_slot_def)
qed

lemma ring_rep_update:
  assumes "ring_rep st rs" and "i < length rs"
  shows "ring_rep (set_slot (start st + int i) (Some r) st) (rs[i := r])"
proof -
  let ?st = "set_slot (start st + int i) (Some r) st"
  have "rowAt ?st (start st + int j) = Some (rs[i := r] ! j)" if "j < length rs" for j
  proof -
    have "length rs \<le> capacity st" using assms(1) by (simp add: ring_rep_def)
    then have "\<bar>(start st + int j) - (start st + int i)\<bar> < int (capacity st)"
      using assms(2) that by arith
    from rowAt_window [OF assms(1) this] show ?thesis
      using assms that by (auto simp: ring_rep_def nth_list_update)
  qed
  then show ?thesis using assms by (auto simp: ring_rep_def)
qed

section \<open>The index\<close>

lemma row_keys_append:
  "row_keys key seq (rs @ ss) = row_keys key seq rs @ row_keys key (seq + int (length rs)) ss"
  by (induction rs arbitrary: seq) (auto simp: algebra_simps)

lemma length_row_keys [simp]: "length (row_keys key seq rs) = length rs"
  by (induction rs arbitrary: seq) auto

lemma row_keys_nth: "i < length rs \<Longrightarrow> row_keys key seq rs ! i = rowKey (rs ! i) key (seq + int i)"
  by (induction rs arbitrary: seq i) (auto simp: nth_Cons algebra_simps split: nat.splits)

lemma dom_index_of: "dom (index_of key seq rs) = set (row_keys key seq rs)"
  by (induction rs arbitrary: seq) auto

lemma index_of_None: "name \<notin> set (row_keys key seq rs) \<Longrightarrow> index_of key seq rs name = None"
  using dom_index_of [of key seq rs] by auto

lemma index_of_append:
  "distinct (row_keys key seq (rs @ [r])) \<Longrightarrow>
   index_of key seq (rs @ [r]) =
     (index_of key seq rs)(rowKey r key (seq + int (length rs)) \<mapsto> seq + int (length rs))"
proof (induction rs arbitrary: seq)
  case (Cons a rs)
  then have "rowKey a key seq \<noteq> rowKey r key (seq + 1 + int (length rs))"
    by (auto simp: row_keys_append)
  with Cons.prems Cons.IH [of "seq + 1"] show ?case
    by (auto simp: fun_eq_iff add.assoc)
qed simp

lemma index_of_nth:
  "distinct (row_keys key seq rs) \<Longrightarrow> i < length rs \<Longrightarrow>
   index_of key seq rs (row_keys key seq rs ! i) = Some (seq + int i)"
proof (induction rs arbitrary: seq i)
  case (Cons r rs)
  show ?case
  proof (cases i)
    case (Suc j)
    with Cons.prems have "row_keys key (seq + 1) rs ! j \<noteq> rowKey r key seq"
      by (auto simp: in_set_conv_nth)
    with Suc Cons show ?thesis by simp
  qed simp
qed simp

lemma index_of_SomeD:
  "index_of key seq rs name = Some s \<Longrightarrow>
   \<exists>i<length rs. s = seq + int i \<and> rowKey (rs ! i) key s = name"
proof (induction rs arbitrary: seq)
  case (Cons r rs)
  show ?case
  proof (cases "name = rowKey r key seq")
    case True
    with Cons.prems show ?thesis by auto
  next
    case False
    with Cons.prems have "index_of key (seq + 1) rs name = Some s" by simp
    from Cons.IH [OF this] obtain i where
      i: "i < length rs" "s = seq + 1 + int i" "rowKey (rs ! i) key s = name" by blast
    then show ?thesis by (intro exI [of _ "Suc i"]) auto
  qed
qed simp

text \<open>Writing a row with the key of the row it replaces leaves the keys and the index alone.\<close>

lemma row_keys_update:
  "i < length rs \<Longrightarrow> rowKey r key (seq + int i) = rowKey (rs ! i) key (seq + int i) \<Longrightarrow>
   row_keys key seq (rs[i := r]) = row_keys key seq rs"
  by (auto intro: nth_equalityI simp: row_keys_nth nth_list_update)

lemma index_of_update:
  "i < length rs \<Longrightarrow> rowKey r key (seq + int i) = rowKey (rs ! i) key (seq + int i) \<Longrightarrow>
   index_of key seq (rs[i := r]) = index_of key seq rs"
proof (induction rs arbitrary: seq i)
  case (Cons a rs)
  show ?case
  proof (cases i)
    case 0
    with Cons.prems show ?thesis by simp
  next
    case (Suc j)
    with Cons.prems have "index_of key (seq + 1) (rs[j := r]) = index_of key (seq + 1) rs"
      by (intro Cons.IH) (auto simp: algebra_simps)
    with Suc show ?thesis by simp
  qed
qed simp

section \<open>Each operation on the representation\<close>

lemma rowKey_plain:
  assumes "plain_keys opt"
  shows "item_key opt x \<noteq> marker_key k" and "item_key opt x \<noteq> gap_key q"
    and "marker_key k \<noteq> item_key opt x" and "gap_key q \<noteq> item_key opt x"
proof -
  from assms have "item_key opt x = [] \<or> hd (item_key opt x) \<noteq> 0" by (simp add: plain_keys_def)
  then show "item_key opt x \<noteq> marker_key k" and "item_key opt x \<noteq> gap_key q"
    and "marker_key k \<noteq> item_key opt x" and "gap_key q \<noteq> item_key opt x"
    by (cases "item_key opt x"; auto simp: marker_key_def gap_key_def)+
qed

lemma special_keys [simp]:
  "marker_key k \<noteq> gap_key q" "gap_key q \<noteq> marker_key k"
  "marker_key k = marker_key k' \<longleftrightarrow> k = k'" "gap_key q = gap_key q' \<longleftrightarrow> q = q'"
  by (auto simp: marker_key_def gap_key_def)

lemma tally_simps [simp]:
  "slots (tally r b st) = slots st" "capacity (tally r b st) = capacity st"
  "start (tally r b st) = start st" "count (tally r b st) = count st"
  "index (tally r b st) = index st" "paused (tally r b st) = paused st"
  "evicted (tally r b st) = evicted st"
  "items (tally r b st) = items st + (if is_item r then b else 0)"
  "others (tally r b st) = others st + (if is_item r then 0 else b)"
  by (auto simp: tally_def)

lemma set_slot_simps [simp]:
  "index (set_slot q r st) = index st" "items (set_slot q r st) = items st"
  "others (set_slot q r st) = others st" "paused (set_slot q r st) = paused st"
  "evicted (set_slot q r st) = evicted st"
  by (auto simp: set_slot_def)

lemma n_items_simps [simp]:
  "n_items [] = 0" "n_items (r # rs) = (if is_item r then 1 else 0) + n_items rs"
  "n_items (rs @ ss) = n_items rs + n_items ss"
  by (auto simp: n_items_def)

lemma n_others_simps [simp]:
  "n_others [] = 0" "n_others (r # rs) = (if is_item r then 0 else 1) + n_others rs"
  "n_others (rs @ ss) = n_others rs + n_others ss"
  by (auto simp: n_others_def)

text \<open>Rows that are items where the old ones were count the same.\<close>

lemma tallies_update:
  "i < length rs \<Longrightarrow> is_item r = is_item (rs ! i) \<Longrightarrow>
   n_items (rs[i := r]) = n_items rs \<and> n_others (rs[i := r]) = n_others rs"
  by (induction rs arbitrary: i) (auto split: nat.splits)

lemma room_simps [simp]:
  "start (room st) = start st" "count (room st) = count st" "index (room st) = index st"
  "items (room st) = items st" "others (room st) = others st" "paused (room st) = paused st"
  "evicted (room st) = evicted st"
  by (auto simp: room_def grow_def)

lemma ring_rep_room:
  assumes "ring_rep st rs"
  shows "ring_rep (room st) rs \<and> length rs < capacity (room st)"
  using assms ring_rep_grow [OF assms]
  by (auto simp: room_def grow_def ring_rep_def)

lemma feed_rep_ring: "feed_rep opt st rs \<Longrightarrow> ring_rep st rs"
  by (simp add: feed_rep_def)

lemma feed_rep_cong:
  assumes "slots st' = slots st" and "capacity st' = capacity st" and "start st' = start st"
    and "count st' = count st" and "items st' = items st" and "others st' = others st"
    and "index st' = index st"
  shows "feed_rep opt st' rs = feed_rep opt st rs"
  using assms ring_rep_cong [of st' st rs] by (simp add: feed_rep_def)

lemma feed_rep_append:
  assumes rep: "feed_rep opt st rs"
    and fresh: "rowKey r (item_key opt) (start st + int (length rs))
      \<notin> set (row_keys (item_key opt) (start st) rs)"
  shows "feed_rep opt (append_row opt r st) (rs @ [r])"
proof -
  let ?q = "start st + int (length rs)"
  have len: "count st = length rs" using rep by (simp add: feed_rep_def ring_rep_def)
  have "ring_rep ((set_slot ?q (Some r) (room st))\<lparr>count := count st + 1\<rparr>) (rs @ [r])"
    using ring_rep_push [of "room st" rs r] ring_rep_room [OF feed_rep_ring [OF rep]] len by simp
  moreover have "distinct (row_keys (item_key opt) (start st) (rs @ [r]))"
    using rep fresh by (auto simp: feed_rep_def row_keys_append)
  moreover from this have "index_of (item_key opt) (start st) (rs @ [r]) =
      (index st)(rowKey r (item_key opt) ?q \<mapsto> ?q)"
    using rep by (simp add: index_of_append feed_rep_def)
  moreover have "ring_rep (append_row opt r st) (rs @ [r]) =
      ring_rep ((set_slot ?q (Some r) (room st))\<lparr>count := count st + 1\<rparr>) (rs @ [r])"
    by (rule ring_rep_cong) (simp_all add: append_row_def Let_def len)
  ultimately show ?thesis
    using rep len by (auto simp: feed_rep_def append_row_def Let_def)
qed

lemma append_row_frame [simp]:
  "paused (append_row opt r st) = paused st" "evicted (append_row opt r st) = evicted st"
  "start (append_row opt r st) = start st"
  by (simp_all add: append_row_def Let_def)

lemma feed_rep_update:
  assumes rep: "feed_rep opt st rs" and i: "i < length rs"
    and key: "rowKey r (item_key opt) (start st + int i)
      = rowKey (rs ! i) (item_key opt) (start st + int i)"
    and kind: "is_item r = is_item (rs ! i)"
  shows "feed_rep opt (set_slot (start st + int i) (Some r) st) (rs[i := r])"
  using rep ring_rep_update [OF feed_rep_ring [OF rep] i, of r] tallies_update [OF i kind]
    row_keys_update [OF i key] index_of_update [OF i key]
  by (simp add: feed_rep_def)

lemma forget_index:
  assumes "distinct (row_keys key seq (r # rs))"
  shows "forget (rowKey r key seq) seq (index_of key seq (r # rs)) = index_of key (seq + 1) rs"
  using assms index_of_None [of "rowKey r key seq" key "seq + 1" rs]
  by (auto simp: forget_def fun_eq_iff)

lemma feed_rep_evict:
  assumes rep: "feed_rep opt st (r # rs)"
  shows "feed_rep opt (fst (evictFront opt st)) rs"
    and "snd (evictFront opt st) = rowKey r (item_key opt) (start st)"
    and "evicted (fst (evictFront opt st)) = evicted st + n_items [r]"
    and "paused (fst (evictFront opt st)) = paused st"
    and "start (fst (evictFront opt st)) = start st + 1"
proof -
  have ring: "ring_rep st (r # rs)" by (rule feed_rep_ring [OF rep])
  then have "\<forall>i<Suc (length rs). rowAt st (start st + int i) = Some ((r # rs) ! i)"
    by (simp add: ring_rep_def)
  then have row: "rowAt st (start st) = Some r"
    using spec [of _ 0] by fastforce
  show "snd (evictFront opt st) = rowKey r (item_key opt) (start st)"
    and "evicted (fst (evictFront opt st)) = evicted st + n_items [r]"
    and "paused (fst (evictFront opt st)) = paused st"
    and "start (fst (evictFront opt st)) = start st + 1"
    by (simp_all add: evictFront_def row Let_def)
  show "feed_rep opt (fst (evictFront opt st)) rs"
    using rep ring_rep_drop [OF ring] forget_index [of "item_key opt" "start st" r rs]
    by (auto simp: feed_rep_def evictFront_def row Let_def ring_rep_def rowAt_def)
qed

lemma trim_rows_suffix: "\<exists>n. trim_rows limit rs = drop n rs"
proof (induction rs)
  case (Cons r rs)
  then obtain n where "trim_rows limit rs = drop n rs" by blast
  then show ?case by (auto intro: exI [of _ "Suc n"] exI [of _ 0])
qed simp

lemma trim_loop_rep:
  "feed_rep opt st rs \<Longrightarrow> trim_loop opt limit st = (st', gone) \<Longrightarrow>
   feed_rep opt st' (trim_rows limit rs) \<and> paused st' = paused st \<and>
   gone = take (length rs - length (trim_rows limit rs)) (row_keys (item_key opt) (start st) rs) \<and>
   evicted st' + n_items (trim_rows limit rs) = evicted st + n_items rs"
proof (induction rs arbitrary: st st' gone)
  case Nil
  then have "count st = 0" by (simp add: feed_rep_def ring_rep_def)
  with Nil show ?case by (simp add: trim_loop.simps [of opt limit st])
next
  case (Cons r rs)
  have "count st = Suc (length rs)" "items st = int (n_items (r # rs))"
    "others st = int (n_others (r # rs))"
    using Cons.prems(1) by (auto simp: feed_rep_def ring_rep_def)
  note tallies = this
  show ?case
  proof (cases "n_items (r # rs) \<le> limit \<and> int (n_others (r # rs)) \<le> MAX_OTHER_ROWS")
    case True
    with Cons.prems tallies show ?thesis by (simp add: trim_loop.simps [of opt limit st])
  next
    case False
    obtain st1 name where e: "evictFront opt st = (st1, name)" by (cases "evictFront opt st")
    obtain st2 rest where t: "trim_loop opt limit st1 = (st2, rest)"
      by (cases "trim_loop opt limit st1")
    have out: "st' = st2" "gone = name # rest"
      using Cons.prems(2) tallies False e t
      by (auto simp: trim_loop.simps [of opt limit st] split: if_splits)
    note ev = feed_rep_evict [OF Cons.prems(1), unfolded e fst_conv snd_conv]
    obtain n where "trim_rows limit rs = drop n rs" using trim_rows_suffix by blast
    then have "length (trim_rows limit rs) \<le> length rs" by simp
    with Cons.IH [OF ev(1) t] out False ev show ?thesis
      by (auto simp: Suc_diff_le)
  qed
qed

lemma feed_rep_changed [simp]: "feed_rep opt (changed st) rs = feed_rep opt st rs"
  by (rule feed_rep_cong) (simp_all add: changed_def schedule_def)

lemma changed_simps [simp]:
  "paused (changed st) = paused st" "evicted (changed st) = evicted st"
  "counted (changed st) = counted st"
  by (simp_all add: changed_def schedule_def)

lemma trim_rep:
  assumes "feed_rep opt st rs"
  shows "feed_rep opt (trim opt limit report st) (trim_rows limit rs)"
    and "paused (trim opt limit report st) = paused st"
    and "evicted (trim opt limit report st) + n_items (trim_rows limit rs) = evicted st + n_items rs"
proof -
  obtain st1 gone where t: "trim_loop opt limit st = (st1, gone)" by (cases "trim_loop opt limit st")
  note loop = trim_loop_rep [OF assms t]
  have "feed_rep opt (trim opt limit report st) (trim_rows limit rs)
      = feed_rep opt st1 (trim_rows limit rs)"
    by (rule feed_rep_cong) (simp_all add: trim_def t)
  with loop show "feed_rep opt (trim opt limit report st) (trim_rows limit rs)"
    by simp
  show "paused (trim opt limit report st) = paused st"
    and "evicted (trim opt limit report st) + n_items (trim_rows limit rs) = evicted st + n_items rs"
    using loop by (simp_all add: trim_def t)
qed

lemma settle_rep:
  assumes "feed_rep opt st rs"
  shows "feed_rep opt (settle opt st) (settle_rows opt (paused st) rs)"
    and "paused (settle opt st) = paused st"
  by (simp_all add: settle_def settle_rows_def assms trim_rep [OF assms])

lemma feed_rep_rowAt:
  "feed_rep opt st rs \<Longrightarrow> i < length rs \<Longrightarrow> rowAt st (start st + int i) = Some (rs ! i)"
  by (simp add: feed_rep_def ring_rep_def)

lemma feed_rep_index:
  "feed_rep opt st rs \<Longrightarrow> i < length rs \<Longrightarrow>
   index st (rowKey (rs ! i) (item_key opt) (start st + int i)) = Some (start st + int i)"
  using index_of_nth [of "item_key opt" "start st" rs i]
  by (simp add: feed_rep_def row_keys_nth)

lemma feed_rep_indexD:
  "feed_rep opt st rs \<Longrightarrow> index st name = Some q \<Longrightarrow>
   \<exists>i<length rs. q = start st + int i \<and> rowKey (rs ! i) (item_key opt) q = name"
  using index_of_SomeD [of "item_key opt" "start st" rs name q] by (simp add: feed_rep_def)

text \<open>Positions of equal keys are equal: a key is listed once.\<close>

lemma feed_rep_key_unique:
  assumes "feed_rep opt st rs" and "i < length rs" and "j < length rs"
    and "rowKey (rs ! i) (item_key opt) (start st + int i)
      = rowKey (rs ! j) (item_key opt) (start st + int j)"
  shows "i = j"
proof -
  from feed_rep_index [OF assms(1,2)] feed_rep_index [OF assms(1,3)]
  have "Some (start st + int i) = Some (start st + int j)"
    unfolding assms(4) by (rule trans [OF sym])
  then show ?thesis by simp
qed

lemma has_itemE: "has_item key x r \<Longrightarrow> (\<And>y. r = Item y \<Longrightarrow> key y = key x \<Longrightarrow> P) \<Longrightarrow> P"
  by (cases r) auto

lemma is_markerE: "is_marker k r \<Longrightarrow> (\<And>t a. r = Marker k t a \<Longrightarrow> P) \<Longrightarrow> P"
  by (cases r) auto

lemma plain_rowKey_item:
  "plain_keys opt \<Longrightarrow> rowKey r (item_key opt) q = item_key opt x \<Longrightarrow> has_item (item_key opt) x r"
  by (cases r) (auto simp: rowKey_plain)

lemma plain_rowKey_marker:
  "plain_keys opt \<Longrightarrow> rowKey r (item_key opt) q = marker_key k \<Longrightarrow> is_marker k r"
  by (cases r) (auto simp: rowKey_plain)

lemma index_item_None:
  assumes "feed_rep opt st rs" and "plain_keys opt" and "\<not> list_ex (has_item (item_key opt) x) rs"
  shows "index st (item_key opt x) = None"
proof (rule ccontr)
  assume "index st (item_key opt x) \<noteq> None"
  then obtain q where "index st (item_key opt x) = Some q" by auto
  from feed_rep_indexD [OF assms(1) this] obtain i where
    i: "i < length rs" and "rowKey (rs ! i) (item_key opt) q = item_key opt x" by blast
  from plain_rowKey_item [OF assms(2) this(2)] i assms(3) show False
    by (auto simp: list_ex_length)
qed

lemma existing_None:
  assumes "feed_rep opt st rs" and "plain_keys opt" and "\<not> list_ex (has_item (item_key opt) x) rs"
  shows "existing_item opt x st = None"
  using index_item_None [OF assms] by (simp add: existing_item_def)

lemma key_fresh:
  assumes "feed_rep opt st rs" and "index st name = None"
  shows "name \<notin> set (row_keys (item_key opt) (start st) rs)"
  using assms dom_index_of [of "item_key opt" "start st" rs] by (auto simp: feed_rep_def)

text \<open>An item whose key is listed: where, and what writing it there does to the rows.\<close>

lemma existing_Some:
  assumes rep: "feed_rep opt st rs" and "list_ex (has_item (item_key opt) x) rs"
  obtains i y where "i < length rs" and "rs ! i = Item y" and "item_key opt y = item_key opt x"
    and "existing_item opt x st = Some (start st + int i)"
    and "index st (item_key opt x) = Some (start st + int i)"
    and "map (swap_item (item_key opt) x) rs = rs[i := Item x]"
proof -
  from assms(2) obtain i where i: "i < length rs" and "has_item (item_key opt) x (rs ! i)"
    by (auto simp: list_ex_length)
  then obtain y where y: "rs ! i = Item y" "item_key opt y = item_key opt x"
    by (auto elim: has_itemE)
  have ix: "index st (item_key opt x) = Some (start st + int i)"
    using feed_rep_index [OF rep i] y by simp
  have ex: "existing_item opt x st = Some (start st + int i)"
    using ix feed_rep_rowAt [OF rep i] y by (simp add: existing_item_def)
  have "swap_item (item_key opt) x (rs ! j) = rs[i := Item x] ! j" if j: "j < length rs" for j
  proof (cases "j = i")
    case False
    have "\<not> has_item (item_key opt) x (rs ! j)"
    proof
      assume "has_item (item_key opt) x (rs ! j)"
      then have "rowKey (rs ! j) (item_key opt) (start st + int j)
          = rowKey (rs ! i) (item_key opt) (start st + int i)"
        using y by (cases "rs ! j") auto
      from feed_rep_key_unique [OF rep j i this] False show False by simp
    qed
    then show ?thesis using False by (cases "rs ! j") auto
  qed (use y i in auto)
  then have "map (swap_item (item_key opt) x) rs = rs[i := Item x]"
    by (intro nth_equalityI) auto
  with i y ex ix that show thesis by blast
qed

lemma swap_rep:
  assumes rep: "feed_rep opt st rs" and ex: "list_ex (has_item (item_key opt) x) rs"
  obtains q where "existing_item opt x st = Some q"
    and "feed_rep opt (set_slot q (Some (Item x)) st) (map (swap_item (item_key opt) x) rs)"
proof -
  obtain i y where
    i: "i < length rs" "rs ! i = Item y" "item_key opt y = item_key opt x"
    and e: "existing_item opt x st = Some (start st + int i)"
      "index st (item_key opt x) = Some (start st + int i)"
    and m: "map (swap_item (item_key opt) x) rs = rs[i := Item x]"
    by (rule existing_Some [OF rep ex])
  from feed_rep_update [OF rep i(1), of "Item x"] i m
  have "feed_rep opt (set_slot (start st + int i) (Some (Item x)) st)
      (map (swap_item (item_key opt) x) rs)" by simp
  with e that show thesis by blast
qed

lemma put_rep:
  assumes rep: "feed_rep opt st rs" and plain: "plain_keys opt"
  shows "feed_rep opt (put_item opt x st) (put_rows (item_key opt) x rs)"
    and "paused (put_item opt x st) = paused st"
    and "evicted (put_item opt x st) = evicted st"
proof -
  show "feed_rep opt (put_item opt x st) (put_rows (item_key opt) x rs)"
  proof (cases "list_ex (has_item (item_key opt) x) rs")
    case True
    obtain q where "existing_item opt x st = Some q"
      and "feed_rep opt (set_slot q (Some (Item x)) st) (map (swap_item (item_key opt) x) rs)"
      by (rule swap_rep [OF rep True])
    with True show ?thesis by (simp add: put_item_def put_rows_def)
  next
    case False
    with existing_None [OF rep plain False] feed_rep_append [OF rep, of "Item x"]
      key_fresh [OF rep index_item_None [OF rep plain False]]
    show ?thesis by (simp add: put_item_def put_rows_def)
  qed
  show "paused (put_item opt x st) = paused st" and "evicted (put_item opt x st) = evicted st"
    by (simp_all add: put_item_def split: option.splits)
qed

lemma fold_put_rep:
  assumes "plain_keys opt"
  shows "feed_rep opt st rs \<Longrightarrow>
    feed_rep opt (fold (put_item opt) xs st) (fold (put_rows (item_key opt)) xs rs) \<and>
    paused (fold (put_item opt) xs st) = paused st \<and> evicted (fold (put_item opt) xs st) = evicted st"
proof (induction xs arbitrary: st rs)
  case (Cons x xs)
  from Cons.IH [OF put_rep(1) [OF Cons.prems assms, of x]]
    put_rep(2,3) [OF Cons.prems assms, of x]
  show ?case by simp
qed simp

section \<open>What each operation does to the rows\<close>

definition push_rows :: "'a feed_options \<Rightarrow> bool \<Rightarrow> 'a list \<Rightarrow> ('a, 'c) feed_row list
    \<Rightarrow> ('a, 'c) feed_row list" where
  "push_rows opt psd xs rs =
     (if xs = [] \<or> (psd \<and> freezes opt) then rs
      else settle_rows opt psd (fold (put_rows (item_key opt)) xs rs))"

definition upsert_rows :: "'a feed_options \<Rightarrow> bool \<Rightarrow> 'a list \<Rightarrow> ('a, 'c) feed_row list
    \<Rightarrow> ('a, 'c) feed_row list" where
  "upsert_rows opt psd xs rs =
     push_rows opt psd (filter (\<lambda>x. \<not> list_ex (has_item (item_key opt) x) rs) xs)
       (fold (\<lambda>x. map (swap_item (item_key opt) x)) xs rs)"

definition replaceLast_rows :: "'a feed_options \<Rightarrow> bool \<Rightarrow> 'a \<Rightarrow> ('a, 'c) feed_row list
    \<Rightarrow> ('a, 'c) feed_row list" where
  "replaceLast_rows opt psd x rs =
     (if rs = [] then push_rows opt psd [x] rs else butlast rs @ [Item x])"

lemma push_rep:
  assumes "feed_rep opt st rs" and "plain_keys opt"
  shows "feed_rep opt (push opt xs st) (push_rows opt (paused st) xs rs)"
    and "paused (push opt xs st) = paused st"
proof -
  note put = fold_put_rep [OF assms(2,1), of xs]
  then have f: "feed_rep opt (fold (put_item opt) xs st) (fold (put_rows (item_key opt)) xs rs)"
    and p: "paused (fold (put_item opt) xs st) = paused st" by simp_all
  have c: "feed_rep opt (st\<lparr>counted := n\<rparr>) rs" for n
    using assms(1) feed_rep_cong [of "st\<lparr>counted := n\<rparr>" st] by simp
  show "feed_rep opt (push opt xs st) (push_rows opt (paused st) xs rs)"
    using assms(1) c settle_rep(1) [OF f] p by (auto simp: appendItems_def push_rows_def)
  show "paused (push opt xs st) = paused st"
    using settle_rep(2) [OF f] p by (simp add: appendItems_def)
qed

lemma list_ex_swap:
  "list_ex (has_item key x) (map (swap_item key y) rs) = list_ex (has_item key x) rs"
proof (induction rs)
  case (Cons r rs)
  then show ?case by (cases r) auto
qed simp

lemma map_swap_absent: "\<not> list_ex (has_item key x) rs \<Longrightarrow> map (swap_item key x) rs = rs"
proof (induction rs)
  case (Cons r rs)
  then show ?case by (cases r) auto
qed simp

lemma upsert_loop_rep:
  assumes "plain_keys opt"
  shows "feed_rep opt st rs \<Longrightarrow>
    \<exists>st' repl. upsert_loop opt xs (st, fresh, b) =
      (st', fresh @ filter (\<lambda>x. \<not> list_ex (has_item (item_key opt) x) rs) xs, repl) \<and>
      feed_rep opt st' (fold (\<lambda>x. map (swap_item (item_key opt) x)) xs rs) \<and>
      paused st' = paused st"
proof (induction xs arbitrary: st rs fresh b)
  case (Cons x xs)
  show ?case
  proof (cases "list_ex (has_item (item_key opt) x) rs")
    case True
    obtain q where q: "existing_item opt x st = Some q"
      and "feed_rep opt (set_slot q (Some (Item x)) st) (map (swap_item (item_key opt) x) rs)"
      by (rule swap_rep [OF Cons.prems True])
    from Cons.IH [OF this(2), of fresh True] q True show ?thesis by (simp add: list_ex_swap)
  next
    case False
    with existing_None [OF Cons.prems assms False] Cons.IH [OF Cons.prems, of "fresh @ [x]" b]
    show ?thesis by (simp add: map_swap_absent)
  qed
qed simp

lemma upsert_rep:
  assumes "feed_rep opt st rs" and "plain_keys opt"
  shows "feed_rep opt (upsert opt xs st) (upsert_rows opt (paused st) xs rs)"
    and "paused (upsert opt xs st) = paused st"
proof -
  let ?fresh = "filter (\<lambda>x. \<not> list_ex (has_item (item_key opt) x) rs) xs"
  let ?rs = "fold (\<lambda>x. map (swap_item (item_key opt) x)) xs rs"
  from upsert_loop_rep [OF assms(2,1), of xs "[]" False]
  obtain st1 b where l: "upsert_loop opt xs (st, [], False) = (st1, ?fresh, b)"
    and r: "feed_rep opt st1 ?rs" and p: "paused st1 = paused st" by auto
  let ?st = "if b then changed st1 else st1"
  have rep: "feed_rep opt ?st ?rs" and psd: "paused ?st = paused st" using r p by simp_all
  show "feed_rep opt (upsert opt xs st) (upsert_rows opt (paused st) xs rs)"
    using push_rep(1) [OF rep assms(2), of ?fresh] psd
    by (simp add: upsert_def l upsert_rows_def)
  show "paused (upsert opt xs st) = paused st"
    using push_rep(2) [OF rep assms(2), of ?fresh] psd by (simp add: upsert_def l)
qed

lemma prepend_item_rep:
  assumes rep: "feed_rep opt st rs" and plain: "plain_keys opt"
  shows "feed_rep opt (prepend_item opt x st) (prepend_rows (item_key opt) x rs)"
    and "paused (prepend_item opt x st) = paused st"
proof -
  show "paused (prepend_item opt x st) = paused st"
    by (simp add: prepend_item_def Let_def)
  show "feed_rep opt (prepend_item opt x st) (prepend_rows (item_key opt) x rs)"
  proof (cases "list_ex (has_item (item_key opt) x) rs")
    case True
    obtain i y where "i < length rs" "rs ! i = Item y" "item_key opt y = item_key opt x"
      and "existing_item opt x st = Some (start st + int i)"
      and "index st (item_key opt x) = Some (start st + int i)"
      and "map (swap_item (item_key opt) x) rs = rs[i := Item x]"
      by (rule existing_Some [OF rep True])
    with True rep show ?thesis by (simp add: prepend_item_def prepend_rows_def)
  next
    case False
    have none: "index st (item_key opt x) = None" by (rule index_item_None [OF rep plain False])
    let ?st = "set_slot (start st - 1) (Some (Item x))
      ((room st)\<lparr>start := start st - 1, count := count st + 1\<rparr>)"
    have "ring_rep ?st (Item x # rs)"
      using ring_rep_unshift [of "room st" rs "Item x"] ring_rep_room [OF feed_rep_ring [OF rep]]
      by simp
    moreover have "ring_rep (prepend_item opt x st) (Item x # rs) = ring_rep ?st (Item x # rs)"
      by (rule ring_rep_cong) (simp_all add: prepend_item_def Let_def none)
    ultimately show ?thesis
      using rep False key_fresh [OF rep none]
      by (simp add: prepend_rows_def feed_rep_def prepend_item_def Let_def none index_of_None)
  qed
qed

lemma fold_prepend_rep:
  assumes "plain_keys opt"
  shows "feed_rep opt st rs \<Longrightarrow>
    feed_rep opt (fold (prepend_item opt) xs st) (fold (prepend_rows (item_key opt)) xs rs) \<and>
    paused (fold (prepend_item opt) xs st) = paused st"
proof (induction xs arbitrary: st rs)
  case (Cons x xs)
  from Cons.IH [OF prepend_item_rep(1) [OF Cons.prems assms, of x]]
    prepend_item_rep(2) [OF Cons.prems assms, of x]
  show ?case by simp
qed simp

lemma prepend_rep:
  assumes "plain_keys opt" and "feed_rep opt st rs"
  shows "feed_rep opt (prepend opt xs st) (fold (prepend_rows (item_key opt)) (rev xs) rs)"
    and "paused (prepend opt xs st) = paused st"
  using fold_prepend_rep [OF assms, of "rev xs"] assms(2) by (simp_all add: prepend_def)

lemma forget_last:
  assumes "distinct (row_keys key seq (rs @ [r]))"
  shows "forget (rowKey r key (seq + int (length rs))) (seq + int (length rs))
      (index_of key seq (rs @ [r])) = index_of key seq rs"
proof -
  let ?q = "seq + int (length rs)"
  have "rowKey r key ?q \<notin> set (row_keys key seq rs)"
    using assms by (auto simp: row_keys_append)
  then show ?thesis
    using assms by (auto simp: index_of_append forget_def fun_eq_iff index_of_None)
qed

text \<open>
  Swapping the newest row keeps the representation when the new item's key is not that of
  another row: the precondition of \<open>replaceLast\<close>.
\<close>

lemma replaceLast_rep:
  assumes rep: "feed_rep opt st rs" and plain: "plain_keys opt"
    and fresh: "\<not> list_ex (has_item (item_key opt) x) (butlast rs)"
  shows "feed_rep opt (replaceLast opt x st) (replaceLast_rows opt (paused st) x rs)"
    and "paused (replaceLast opt x st) = paused st"
proof -
  have cnt: "count st = length rs" using rep by (simp add: feed_rep_def ring_rep_def)
  show "paused (replaceLast opt x st) = paused st"
    using push_rep(2) [OF rep plain, of "[x]"]
    by (auto simp: replaceLast_def Let_def split: option.splits)
  show "feed_rep opt (replaceLast opt x st) (replaceLast_rows opt (paused st) x rs)"
  proof (cases rs rule: rev_cases)
    case Nil
    with push_rep(1) [OF rep plain, of "[x]"] cnt show ?thesis
      by (simp add: replaceLast_def replaceLast_rows_def)
  next
    case (snoc ss r)
    let ?q = "start st + int (length ss)"
    have rep': "feed_rep opt st (ss @ [r])" using rep snoc by simp
    have row: "rowAt st ?q = Some r"
      using feed_rep_rowAt [OF rep', of "length ss"] by simp
    have d: "distinct (row_keys (item_key opt) (start st) (ss @ [r]))"
      and ix: "index st = index_of (item_key opt) (start st) (ss @ [r])"
      using rep' by (simp_all add: feed_rep_def)
    have "item_key opt x \<notin> set (row_keys (item_key opt) (start st) ss)"
    proof
      assume "item_key opt x \<in> set (row_keys (item_key opt) (start st) ss)"
      then obtain i where i: "i < length ss"
        and "rowKey (ss ! i) (item_key opt) (start st + int i) = item_key opt x"
        by (auto simp: in_set_conv_nth row_keys_nth)
      from plain_rowKey_item [OF plain this(2)] i fresh snoc show False
        by (auto simp: list_ex_length)
    qed
    then have d': "distinct (row_keys (item_key opt) (start st) (ss @ [Item x]))"
      using d by (simp add: row_keys_append)
    have ring: "ring_rep (set_slot ?q (Some (Item x)) st) (ss @ [Item x])"
      using ring_rep_update [OF feed_rep_ring [OF rep'], of "length ss" "Item x"] by simp
    have "ring_rep (replaceLast opt x st) (ss @ [Item x])
        = ring_rep (set_slot ?q (Some (Item x)) st) (ss @ [Item x])"
      using cnt snoc row
      by (intro ring_rep_cong)
        (simp_all add: replaceLast_def Let_def changed_def schedule_def set_slot_def)
    with ring rep' d' cnt snoc row forget_last [OF d] index_of_append [OF d'] ix
    show ?thesis
      by (simp add: replaceLast_def replaceLast_rows_def Let_def feed_rep_def changed_def
          schedule_def)
  qed
qed

lemma marker_present:
  assumes rep: "feed_rep opt st rs" and plain: "plain_keys opt" and "list_ex (is_marker k) rs"
  obtains i where "i < length rs" and "is_marker k (rs ! i)"
    and "index st (marker_key k) = Some (start st + int i)"
    and "map (\<lambda>r. if is_marker k r then Marker k t a else r) rs = rs[i := Marker k t a]"
proof -
  from assms(3) obtain i where i: "i < length rs" and m: "is_marker k (rs ! i)"
    by (auto simp: list_ex_length)
  then have key: "rowKey (rs ! i) (item_key opt) (start st + int i) = marker_key k"
    by (auto elim: is_markerE)
  have "(if is_marker k (rs ! j) then Marker k t a else rs ! j) = rs[i := Marker k t a] ! j"
    if j: "j < length rs" for j
  proof (cases "j = i")
    case False
    have "\<not> is_marker k (rs ! j)"
    proof
      assume "is_marker k (rs ! j)"
      then have "rowKey (rs ! j) (item_key opt) (start st + int j)
          = rowKey (rs ! i) (item_key opt) (start st + int i)"
        unfolding key by (auto elim: is_markerE)
      from feed_rep_key_unique [OF rep j i this] False show False by simp
    qed
    then show ?thesis using False by simp
  qed (use i m in simp)
  then have "map (\<lambda>r. if is_marker k r then Marker k t a else r) rs = rs[i := Marker k t a]"
    by (intro nth_equalityI) auto
  moreover have "index st (marker_key k) = Some (start st + int i)"
    using feed_rep_index [OF rep i] key by simp
  ultimately show thesis using i m that by blast
qed

lemma marker_absent:
  assumes rep: "feed_rep opt st rs" and plain: "plain_keys opt" and "\<not> list_ex (is_marker k) rs"
  shows "index st (marker_key k) = None"
proof (rule ccontr)
  assume "index st (marker_key k) \<noteq> None"
  then obtain q where "index st (marker_key k) = Some q" by auto
  from feed_rep_indexD [OF rep this] obtain i where
    i: "i < length rs" and "rowKey (rs ! i) (item_key opt) q = marker_key k" by blast
  from plain_rowKey_marker [OF plain this(2)] i assms(3) show False
    by (auto simp: list_ex_length)
qed

lemma marker_rep:
  assumes rep: "feed_rep opt st rs" and plain: "plain_keys opt"
  shows "feed_rep opt (marker opt k t a st) (settle_rows opt (paused st) (marker_rows k t a rs))"
    and "paused (marker opt k t a st) = paused st"
proof -
  let ?st = "case index st (marker_key k) of
      Some q \<Rightarrow> set_slot q (Some (Marker k t a)) st | None \<Rightarrow> append_row opt (Marker k t a) st"
  have p: "paused ?st = paused st" by (simp split: option.splits)
  have r: "feed_rep opt ?st (marker_rows k t a rs)"
  proof (cases "list_ex (is_marker k) rs")
    case True
    obtain i where i: "i < length rs" and m: "is_marker k (rs ! i)"
      and ix: "index st (marker_key k) = Some (start st + int i)"
      and eq: "map (\<lambda>r. if is_marker k r then Marker k t a else r) rs = rs[i := Marker k t a]"
      by (rule marker_present [OF rep plain True])
    have "feed_rep opt (set_slot (start st + int i) (Some (Marker k t a)) st)
        (rs[i := Marker k t a])"
      by (rule feed_rep_update [OF rep i]) (use m in \<open>auto elim: is_markerE\<close>)
    with True ix eq show ?thesis by (simp add: marker_rows_def)
  next
    case False
    have none: "index st (marker_key k) = None" by (rule marker_absent [OF rep plain False])
    from feed_rep_append [OF rep, of "Marker k t a"] key_fresh [OF rep none] False none
    show ?thesis by (simp add: marker_rows_def)
  qed
  show "feed_rep opt (marker opt k t a st) (settle_rows opt (paused st) (marker_rows k t a rs))"
    using settle_rep(1) [OF r] p by (simp add: marker_def)
  show "paused (marker opt k t a st) = paused st"
    using settle_rep(2) [OF r] p by (simp add: marker_def)
qed

lemma gap_rep:
  assumes rep: "feed_rep opt st rs" and plain: "plain_keys opt"
  shows "feed_rep opt (gap opt missed kept st) (settle_rows opt (paused st) (rs @ [Gap missed kept]))"
    and "paused (gap opt missed kept st) = paused st"
proof -
  have fresh: "gap_key (start st + int (length rs)) \<notin> set (row_keys (item_key opt) (start st) rs)"
  proof
    assume "gap_key (start st + int (length rs)) \<in> set (row_keys (item_key opt) (start st) rs)"
    then obtain i where i: "i < length rs"
      and "rowKey (rs ! i) (item_key opt) (start st + int i) = gap_key (start st + int (length rs))"
      by (auto simp: in_set_conv_nth row_keys_nth)
    then show False by (cases "rs ! i") (auto simp: rowKey_plain [OF plain])
  qed
  have r: "feed_rep opt (append_row opt (Gap missed kept) st) (rs @ [Gap missed kept])"
    by (rule feed_rep_append [OF rep]) (use fresh in simp)
  show "feed_rep opt (gap opt missed kept st) (settle_rows opt (paused st) (rs @ [Gap missed kept]))"
    using settle_rep(1) [OF r] by (simp add: gap_def)
  show "paused (gap opt missed kept st) = paused st"
    using settle_rep(2) [OF r] by (simp add: gap_def)
qed

lemma create_rep: "feed_rep opt createFeedStore []"
  by (auto simp: feed_rep_def ring_rep_def createFeedStore_def intro: exI [of _ 4])

lemma clear_rep: "feed_rep opt (clear st) []"
  by (auto simp: feed_rep_def ring_rep_def clear_def changed_def schedule_def intro: exI [of _ 4])

lemma pause_rep: "feed_rep opt (pause st) rs = feed_rep opt st rs"
  using feed_rep_cong [of "st\<lparr>paused := True\<rparr>" st opt rs] by (simp add: pause_def)

lemma resume_rep:
  assumes "feed_rep opt st rs"
  shows "feed_rep opt (resume opt st) (if paused st then trim_rows (max_items opt) rs else rs)"
proof -
  have "feed_rep opt (st\<lparr>paused := False, counted := 0\<rparr>) rs"
    using assms feed_rep_cong [of "st\<lparr>paused := False, counted := 0\<rparr>" st opt rs] by simp
  from trim_rep(1) [OF this] assms show ?thesis by (simp add: resume_def)
qed

section \<open>Runs of operations\<close>

datatype ('a, 'c) feed_op =
    Push "'a list"
  | Upsert "'a list"
  | Prepend "'a list"
  | ReplaceLast 'a
  | AddMarker jstring jstring "(jstring \<times> 'c) option"
  | AddGap "nat option" nat
  | Pause
  | Resume
  | Clear
  | Frame

fun apply_op :: "'a feed_options \<Rightarrow> ('a, 'c) feed_op \<Rightarrow> ('a, 'c) feed \<Rightarrow> ('a, 'c) feed" where
  "apply_op opt (Push xs) st = push opt xs st"
| "apply_op opt (Upsert xs) st = upsert opt xs st"
| "apply_op opt (Prepend xs) st = prepend opt xs st"
| "apply_op opt (ReplaceLast x) st = replaceLast opt x st"
| "apply_op opt (AddMarker k t a) st = marker opt k t a st"
| "apply_op opt (AddGap missed kept) st = gap opt missed kept st"
| "apply_op opt Pause st = pause st"
| "apply_op opt Resume st = resume opt st"
| "apply_op opt Clear st = clear st"
| "apply_op opt Frame st = run_frame st"

text \<open>The same operations on the rows alone, with whether the reader is paused.\<close>

fun op_rows :: "'a feed_options \<Rightarrow> ('a, 'c) feed_op \<Rightarrow> bool \<times> ('a, 'c) feed_row list
    \<Rightarrow> bool \<times> ('a, 'c) feed_row list" where
  "op_rows opt (Push xs) (psd, rs) = (psd, push_rows opt psd xs rs)"
| "op_rows opt (Upsert xs) (psd, rs) = (psd, upsert_rows opt psd xs rs)"
| "op_rows opt (Prepend xs) (psd, rs) = (psd, fold (prepend_rows (item_key opt)) (rev xs) rs)"
| "op_rows opt (ReplaceLast x) (psd, rs) = (psd, replaceLast_rows opt psd x rs)"
| "op_rows opt (AddMarker k t a) (psd, rs) = (psd, settle_rows opt psd (marker_rows k t a rs))"
| "op_rows opt (AddGap missed kept) (psd, rs) = (psd, settle_rows opt psd (rs @ [Gap missed kept]))"
| "op_rows opt Pause (psd, rs) = (True, rs)"
| "op_rows opt Resume (psd, rs) = (False, if psd then trim_rows (max_items opt) rs else rs)"
| "op_rows opt Clear (psd, rs) = (psd, [])"
| "op_rows opt Frame (psd, rs) = (psd, rs)"

text \<open>Only \<open>replaceLast\<close> has a precondition: its item's key is not that of an older row.\<close>

fun op_allowed :: "'a feed_options \<Rightarrow> ('a, 'c) feed_op \<Rightarrow> ('a, 'c) feed_row list \<Rightarrow> bool" where
  "op_allowed opt (ReplaceLast x) rs \<longleftrightarrow> \<not> list_ex (has_item (item_key opt) x) (butlast rs)"
| "op_allowed opt oper rs \<longleftrightarrow> True"

fun run_allowed :: "'a feed_options \<Rightarrow> ('a, 'c) feed_op list \<Rightarrow> bool \<times> ('a, 'c) feed_row list \<Rightarrow> bool" where
  "run_allowed opt [] s \<longleftrightarrow> True"
| "run_allowed opt (oper # ops) s \<longleftrightarrow>
     op_allowed opt oper (snd s) \<and> run_allowed opt ops (op_rows opt oper s)"

text \<open>
  The contract of a feed store, as its clients use it: a store that is \<open>ok\<close> has rows, every
  allowed operation keeps it so and changes the rows as \<^const>\<open>op_rows\<close> says.
\<close>

locale feed_contract =
  fixes create :: 's
    and apply_to :: "'a feed_options \<Rightarrow> ('a, 'c) feed_op \<Rightarrow> 's \<Rightarrow> 's"
    and rows :: "'s \<Rightarrow> ('a, 'c) feed_row list"
    and halted :: "'s \<Rightarrow> bool"
    and ok :: "'a feed_options \<Rightarrow> 's \<Rightarrow> bool"
  assumes create_ok: "ok opt create"
    and create_rows: "rows create = []"
    and create_halted: "\<not> halted create"
    and apply_ok: "plain_keys opt \<Longrightarrow> ok opt st \<Longrightarrow> op_allowed opt oper (rows st) \<Longrightarrow>
      ok opt (apply_to opt oper st)"
    and apply_rows: "plain_keys opt \<Longrightarrow> ok opt st \<Longrightarrow> op_allowed opt oper (rows st) \<Longrightarrow>
      (halted (apply_to opt oper st), rows (apply_to opt oper st))
        = op_rows opt oper (halted st, rows st)"
begin

lemma run_ok_rows:
  assumes "plain_keys opt"
  shows "ok opt st \<Longrightarrow> run_allowed opt ops (halted st, rows st) \<Longrightarrow>
    ok opt (fold (apply_to opt) ops st) \<and>
    (halted (fold (apply_to opt) ops st), rows (fold (apply_to opt) ops st))
      = fold (op_rows opt) ops (halted st, rows st)"
proof (induction ops arbitrary: st)
  case (Cons oper ops)
  then have a: "op_allowed opt oper (rows st)" by simp
  have "ok opt (apply_to opt oper st)" by (rule apply_ok [OF assms Cons.prems(1) a])
  moreover note apply_rows [OF assms Cons.prems(1) a]
  ultimately show ?case using Cons.IH [of "apply_to opt oper st"] Cons.prems(2) by simp
qed simp

lemma run_from_create:
  assumes "plain_keys opt" and "run_allowed opt ops (False, [])"
  shows "ok opt (fold (apply_to opt) ops create)"
    and "rows (fold (apply_to opt) ops create) = snd (fold (op_rows opt) ops (False, []))"
    and "halted (fold (apply_to opt) ops create) = fst (fold (op_rows opt) ops (False, []))"
proof -
  have "ok opt (fold (apply_to opt) ops create) \<and>
      (halted (fold (apply_to opt) ops create), rows (fold (apply_to opt) ops create))
        = fold (op_rows opt) ops (False, [])"
    using run_ok_rows [OF assms(1) create_ok, of ops] create_rows create_halted assms(2) by simp
  then show "ok opt (fold (apply_to opt) ops create)"
    and "rows (fold (apply_to opt) ops create) = snd (fold (op_rows opt) ops (False, []))"
    and "halted (fold (apply_to opt) ops create) = fst (fold (op_rows opt) ops (False, []))"
    by (auto dest: sym)
qed

end

definition feed_ok :: "'a feed_options \<Rightarrow> ('a, 'c) feed \<Rightarrow> bool" where
  "feed_ok opt st \<longleftrightarrow> feed_rep opt st (feed_rows st)"

lemma feed_okI: "feed_rep opt st rs \<Longrightarrow> feed_ok opt st \<and> feed_rows st = rs"
  using feed_rows_rep [OF feed_rep_ring] by (fastforce simp: feed_ok_def)

lemma apply_op_rep:
  assumes "feed_rep opt st rs" and "plain_keys opt" and "op_allowed opt oper rs"
  shows "feed_rep opt (apply_op opt oper st) (snd (op_rows opt oper (paused st, rs)))
    \<and> paused (apply_op opt oper st) = fst (op_rows opt oper (paused st, rs))"
proof (cases oper)
  case Resume
  then show ?thesis
    using resume_rep [OF assms(1)] feed_rep_cong [of "st\<lparr>paused := False, counted := 0\<rparr>" st opt rs]
      trim_rep(2) [of opt "st\<lparr>paused := False, counted := 0\<rparr>" rs] assms(1)
    by (auto simp: resume_def)
next
  case Frame
  then show ?thesis
    using assms(1) feed_rep_cong [of "run_frame st" st opt rs] by (simp add: run_frame_def)
next
  case Clear
  then show ?thesis
    using clear_rep [of opt st] by (simp add: clear_def)
next
  case Pause
  then show ?thesis using assms(1) pause_rep [of opt st rs] by (simp add: pause_def)
qed (use assms push_rep [OF assms(1,2)] upsert_rep [OF assms(1,2)] prepend_rep [OF assms(2,1)]
    replaceLast_rep [OF assms(1,2)] marker_rep [OF assms(1,2)] gap_rep [OF assms(1,2)] in auto)

interpretation ring: feed_contract createFeedStore apply_op feed_rows paused feed_ok
proof
  show "feed_ok opt createFeedStore" for opt :: "'a feed_options"
    using create_rep feed_okI by blast
  show "feed_rows createFeedStore = []"
    by (simp add: feed_rows_def createFeedStore_def)
  show "\<not> paused createFeedStore"
    by (simp add: createFeedStore_def)
next
  fix opt :: "'a feed_options" and st :: "('a, 'b) feed" and oper :: "('a, 'b) feed_op"
  assume a: "plain_keys opt" "feed_ok opt st" "op_allowed opt oper (feed_rows st)"
  then have "feed_rep opt st (feed_rows st)" by (simp add: feed_ok_def)
  note step = apply_op_rep [OF this a(1,3)]
  then show "feed_ok opt (apply_op opt oper st)" using feed_okI by blast
  show "(paused (apply_op opt oper st), feed_rows (apply_op opt oper st))
      = op_rows opt oper (paused st, feed_rows st)"
    using step feed_okI [of opt "apply_op opt oper st"] by (auto simp: prod_eq_iff)
qed

section \<open>Bounds and reports\<close>

lemma trim_rows_bound:
  "n_items (trim_rows limit rs) \<le> limit \<and> int (n_others (trim_rows limit rs)) \<le> MAX_OTHER_ROWS"
  by (induction rs) (auto simp: MAX_OTHER_ROWS_def)

lemma trim_rows_id:
  "n_items rs \<le> limit \<Longrightarrow> int (n_others rs) \<le> MAX_OTHER_ROWS \<Longrightarrow> trim_rows limit rs = rs"
  by (cases rs) auto

text \<open>The calls made to listeners are only ever made by \<^const>\<open>trim\<close>.\<close>

lemma frame_calls_simps [simp]:
  "evict_calls (set_slot q r st) = evict_calls st"
  "evict_listeners (set_slot q r st) = evict_listeners st"
  "evict_calls (tally w b st) = evict_calls st"
  "evict_listeners (tally w b st) = evict_listeners st"
  "evict_calls (room st) = evict_calls st"
  "evict_listeners (room st) = evict_listeners st"
  "evict_calls (changed st) = evict_calls st"
  "evict_listeners (changed st) = evict_listeners st"
  by (simp_all add: set_slot_def tally_def room_def grow_def changed_def schedule_def)

lemma put_item_calls [simp]:
  "evict_calls (put_item opt x st) = evict_calls st"
  "evict_listeners (put_item opt x st) = evict_listeners st"
  by (simp_all add: put_item_def append_row_def Let_def split: option.splits)

lemma fold_put_calls [simp]:
  "evict_calls (fold (put_item opt) xs st) = evict_calls st"
  "evict_listeners (fold (put_item opt) xs st) = evict_listeners st"
  by (induction xs arbitrary: st) auto

lemma put_item_start [simp]: "start (put_item opt x st) = start st"
  by (simp add: put_item_def split: option.splits)

lemma fold_put_start [simp]: "start (fold (put_item opt) xs st) = start st"
  by (induction xs arbitrary: st) auto

lemma evictFront_calls [simp]:
  "evict_calls (fst (evictFront opt st)) = evict_calls st"
  "evict_listeners (fst (evictFront opt st)) = evict_listeners st"
  by (simp_all add: evictFront_def Let_def split: option.splits)

lemma trim_loop_calls:
  "evict_calls (fst (trim_loop opt limit st)) = evict_calls st \<and>
   evict_listeners (fst (trim_loop opt limit st)) = evict_listeners st"
proof (induction opt limit st rule: trim_loop.induct)
  case (1 opt limit st)
  obtain st1 name where e: "evictFront opt st = (st1, name)" by (cases "evictFront opt st")
  with evictFront_calls [of opt st] "1.IH" [OF _ e [symmetric]] show ?case
    by (cases "trim_loop opt limit st1") (auto simp: trim_loop.simps [of opt limit st])
qed

lemma trim_calls:
  assumes "feed_rep opt st rs"
  shows "evict_calls (trim opt limit report st) = evict_calls st @
    (let gone = take (length rs - length (trim_rows limit rs)) (row_keys (item_key opt) (start st) rs)
     in if report \<and> gone \<noteq> [] then map (\<lambda>l. (l, gone)) (evict_listeners st) else [])"
proof -
  obtain st1 gone where t: "trim_loop opt limit st = (st1, gone)" by (cases "trim_loop opt limit st")
  from trim_loop_rep [OF assms t] trim_loop_calls [of opt limit st] t
  show ?thesis by (auto simp: trim_def)
qed

lemma settle_calls:
  assumes "feed_rep opt st rs" and "paused st" and "\<not> freezes opt"
  shows "evict_calls (settle opt st) = evict_calls st @
    (let gone = take (length rs - length (settle_rows opt True rs))
       (row_keys (item_key opt) (start st) rs)
     in if gone \<noteq> [] then map (\<lambda>l. (l, gone)) (evict_listeners st) else [])"
  using assms trim_calls [OF assms(1)] by (simp add: settle_def settle_rows_def)

section \<open>Properties\<close>

text \<open>
  C1. The ring implements a list of rows: after any run of allowed operations from a new store
  (pushes, upserts, prepends, swaps of the newest row, markers, gaps, pauses, resumes, clears and
  frames), what a reader sees is what the operations do to a plain list, whatever growing,
  wrapping and evicting happened in the array.
\<close>

theorem feed_run_refines:
  assumes "plain_keys opt" and "run_allowed opt ops (False, [])"
  shows "feed_rows (fold (apply_op opt) ops createFeedStore)
    = snd (fold (op_rows opt) ops (False, []))"
  by (rule ring.run_from_create(2) [OF assms])

text \<open>A sample feed of numbers, at most three kept and five while paused.\<close>

definition sample_options :: "nat feed_options" where
  "sample_options = feed_options 3 (Some 5) show_nat None"

lemma sample_simps [simp]:
  "max_items sample_options = 3" "pause_max sample_options = 5"
  "item_key sample_options = show_nat" "freezes sample_options = False"
  by (simp_all add: sample_options_def feed_options_def)

lemma plain_sample: "plain_keys sample_options"
proof -
  have "hd (show_nat n) \<noteq> 0" for n
    using show_nat_digits [of "hd (show_nat n)" n] by fastforce
  then show ?thesis by (simp add: plain_keys_def)
qed

abbreviation sample_ops :: "(nat, unit) feed_op list" where
  "sample_ops \<equiv> [Push [1, 2], AddMarker (js ''m'') (js ''restarted'') None, Push [2, 7, 8],
     ReplaceLast 9, Prepend [5, 7]]"

lemmas sample_eval = push_rows_def settle_rows_def put_rows_def marker_rows_def
  replaceLast_rows_def prepend_rows_def upsert_rows_def MAX_OTHER_ROWS_def

theorem feed_run_refines_witness:
  "plain_keys sample_options \<and> run_allowed sample_options sample_ops (False, []) \<and>
   feed_rows (fold (apply_op sample_options) sample_ops createFeedStore)
     = [Item 5, Item 2, Marker (js ''m'') (js ''restarted'') None, Item 7, Item 9]"
proof -
  have a: "run_allowed sample_options sample_ops (False, [])"
    by (simp add: sample_eval)
  from feed_run_refines [OF plain_sample a]
  have "feed_rows (fold (apply_op sample_options) sample_ops createFeedStore)
     = [Item 5, Item 2, Marker (js ''m'') (js ''restarted'') None, Item 7, Item 9]"
    by (simp add: sample_eval)
  with plain_sample a show ?thesis by blast
qed

text \<open>
  C2. Reading by position and finding by key agree in every reachable store: the row at each
  position below the size is the list's, its key is found at that position, and a key that is
  not listed is found at -1. In particular no key is listed twice.
\<close>

theorem feed_index_exact:
  assumes "plain_keys opt" and "run_allowed opt ops (False, [])"
    and "st = fold (apply_op opt) ops createFeedStore"
  shows "size_of st = length (feed_rows st) \<and>
    (\<forall>i < size_of st. at_row (int i) st = Some (feed_rows st ! i) \<and>
      indexOf (rowKey (feed_rows st ! i) (item_key opt) (start st + int i)) st = int i) \<and>
    (\<forall>name. indexOf name st = - 1 \<longleftrightarrow>
      name \<notin> set (row_keys (item_key opt) (start st) (feed_rows st)))"
proof (intro conjI allI impI)
  have rep: "feed_rep opt st (feed_rows st)"
    using ring.run_from_create(1) [OF assms(1,2)] assms(3) by (simp add: feed_ok_def)
  then show len: "size_of st = length (feed_rows st)"
    by (simp add: size_of_def feed_rep_def ring_rep_def)
  then have cnt: "count st = length (feed_rows st)" by (simp add: size_of_def)
  fix i assume i: "i < size_of st"
  then show "at_row (int i) st = Some (feed_rows st ! i)"
    and "indexOf (rowKey (feed_rows st ! i) (item_key opt) (start st + int i)) st = int i"
    using len cnt feed_rep_rowAt [OF rep, of i] feed_rep_index [OF rep, of i]
    by (simp_all add: at_row_def indexOf_def)
next
  fix name
  have rep: "feed_rep opt st (feed_rows st)"
    using ring.run_from_create(1) [OF assms(1,2)] assms(3) by (simp add: feed_ok_def)
  have "index st name = None \<longleftrightarrow> name \<notin> set (row_keys (item_key opt) (start st) (feed_rows st))"
    using rep dom_index_of [of "item_key opt" "start st" "feed_rows st"]
    by (auto simp: feed_rep_def domIff [symmetric])
  moreover have "0 \<le> q - start st" if "index st name = Some q" for q
    using feed_rep_indexD [OF rep that] by auto
  ultimately show "indexOf name st = - 1 \<longleftrightarrow>
      name \<notin> set (row_keys (item_key opt) (start st) (feed_rows st))"
    by (fastforce simp: indexOf_def split: option.splits)
qed

lemma sample_allowed: "run_allowed sample_options sample_ops (False, [])"
  by (simp add: sample_eval)

lemma sample_rows:
  "feed_rows (fold (apply_op sample_options) sample_ops createFeedStore)
     = [Item 5, Item 2, Marker (js ''m'') (js ''restarted'') None, Item 7, Item 9]"
  using ring.run_from_create(2) [OF plain_sample sample_allowed] by (simp add: sample_eval)

theorem feed_index_exact_witness:
  "size_of (fold (apply_op sample_options) sample_ops createFeedStore) = 5 \<and>
   at_row 3 (fold (apply_op sample_options) sample_ops createFeedStore) = Some (Item 7) \<and>
   indexOf (show_nat 7) (fold (apply_op sample_options) sample_ops createFeedStore) = 3"
  using feed_index_exact [OF plain_sample sample_allowed refl] unfolding sample_rows
  by (force simp: numeral_eq_Suc)

text \<open>
  C3. A push to a feed that is not paused leaves at most \<open>max\<close> items and a thousand other rows,
  drops rows only from the front, oldest first, and counts exactly the items it dropped.
\<close>

theorem feed_push_bounded:
  assumes "plain_keys opt" and "feed_ok opt st" and "\<not> paused st" and "xs \<noteq> []"
  shows "n_items (feed_rows (push opt xs st)) \<le> max_items opt \<and>
    int (n_others (feed_rows (push opt xs st))) \<le> MAX_OTHER_ROWS \<and>
    (\<exists>n. feed_rows (push opt xs st) = drop n (fold (put_rows (item_key opt)) xs (feed_rows st)) \<and>
      dropped (push opt xs st) =
        dropped st + n_items (take n (fold (put_rows (item_key opt)) xs (feed_rows st))))"
proof -
  let ?rs = "fold (put_rows (item_key opt)) xs (feed_rows st)"
  let ?st = "fold (put_item opt) xs st"
  have rep: "feed_rep opt st (feed_rows st)" using assms(2) by (simp add: feed_ok_def)
  note put = fold_put_rep [OF assms(1) rep, of xs]
  have rows: "feed_rows (push opt xs st) = trim_rows (max_items opt) ?rs"
    using feed_okI [OF push_rep(1) [OF rep assms(1), of xs]] assms(3,4)
    by (simp add: push_rows_def settle_rows_def)
  obtain n where n: "trim_rows (max_items opt) ?rs = drop n ?rs" using trim_rows_suffix by blast
  have "n_items ?rs = n_items (take n ?rs) + n_items (drop n ?rs)"
    by (metis append_take_drop_id n_items_simps(3))
  moreover have "evicted (trim opt (max_items opt) False ?st) + n_items (drop n ?rs)
      = evicted st + n_items ?rs"
    using trim_rep(3) [of opt ?st ?rs "max_items opt" False] put n by simp
  ultimately have "dropped (push opt xs st) = dropped st + n_items (take n ?rs)"
    using put assms(3,4) by (simp add: dropped_def appendItems_def settle_def)
  with rows n trim_rows_bound [of "max_items opt" ?rs] show ?thesis by auto
qed

abbreviation sample_store :: "(nat, unit) feed" where
  "sample_store \<equiv> fold (apply_op sample_options) sample_ops createFeedStore"

lemma sample_store_facts:
  "feed_ok sample_options sample_store" "\<not> paused sample_store"
  using ring.run_from_create(1,3) [OF plain_sample sample_allowed] by simp_all

theorem feed_push_bounded_witness:
  "n_items (feed_rows (push sample_options [4] sample_store)) \<le> 3 \<and>
   int (n_others (feed_rows (push sample_options [4] sample_store))) \<le> MAX_OTHER_ROWS"
  using feed_push_bounded [OF plain_sample sample_store_facts, of "[4]"] by simp

text \<open>
  C4. While a buffering feed is paused, a push tells every eviction listener exactly the keys of
  the rows that left from the front, in order, and nothing when none left.
\<close>

theorem feed_push_reports:
  assumes "plain_keys opt" and "feed_ok opt st" and "paused st" and "\<not> freezes opt" and "xs \<noteq> []"
  shows "\<exists>n. feed_rows (push opt xs st) = drop n (fold (put_rows (item_key opt)) xs (feed_rows st)) \<and>
    evict_calls (push opt xs st) = evict_calls st @
      (let gone = take n (row_keys (item_key opt) (start st)
             (fold (put_rows (item_key opt)) xs (feed_rows st)))
       in if gone = [] then [] else map (\<lambda>l. (l, gone)) (evict_listeners st))"
proof -
  let ?rs = "fold (put_rows (item_key opt)) xs (feed_rows st)"
  let ?st = "fold (put_item opt) xs st"
  have rep: "feed_rep opt st (feed_rows st)" using assms(2) by (simp add: feed_ok_def)
  note put = fold_put_rep [OF assms(1) rep, of xs]
  have rows: "feed_rows (push opt xs st) = settle_rows opt True ?rs"
    using feed_okI [OF push_rep(1) [OF rep assms(1), of xs]] assms(3-5)
    by (simp add: push_rows_def)
  obtain m where "settle_rows opt True ?rs = drop m ?rs"
    using trim_rows_suffix [of "pause_max opt" ?rs] assms(4) by (auto simp: settle_rows_def)
  then have "settle_rows opt True ?rs = drop (length ?rs - length (settle_rows opt True ?rs)) ?rs"
    by (cases "m \<le> length ?rs") auto
  moreover have "evict_calls (push opt xs st) = evict_calls (settle opt ?st)"
    using assms(4,5) by (simp add: appendItems_def)
  ultimately show ?thesis
    using rows settle_calls [of opt ?st ?rs] put assms(3,4)
    by (intro exI [of _ "length ?rs - length (settle_rows opt True ?rs)"]) (auto simp: Let_def)
qed

abbreviation paused_sample :: "(nat, unit) feed" where
  "paused_sample \<equiv> pause (onEvict 7 createFeedStore)"

lemma paused_sample_facts:
  "feed_ok sample_options paused_sample" "paused paused_sample" "feed_rows paused_sample = []"
  "evict_calls paused_sample = []" "evict_listeners paused_sample = [7]" "start paused_sample = 0"
proof -
  have "feed_rep sample_options (onEvict 7 (createFeedStore :: (nat, unit) feed)) []"
    using create_rep feed_rep_cong [of "onEvict 7 (createFeedStore :: (nat, unit) feed)" createFeedStore]
    by (simp add: onEvict_def)
  then show "feed_ok sample_options paused_sample" "feed_rows paused_sample = []"
    using feed_okI pause_rep by blast+
  show "paused paused_sample" "evict_calls paused_sample = []" "evict_listeners paused_sample = [7]"
    "start paused_sample = 0"
    by (simp_all add: pause_def onEvict_def createFeedStore_def add_listener_def changed_def
        schedule_def)
qed

theorem feed_push_reports_witness:
  "\<exists>n. feed_rows (push sample_options [1, 2, 3, 4, 5, 6, 7] paused_sample)
      = drop n [Item 1, Item 2, Item 3, Item 4, Item 5, Item 6, Item 7] \<and>
    evict_calls (push sample_options [1, 2, 3, 4, 5, 6, 7] paused_sample) =
      (let gone = take n (map show_nat [1, 2, 3, 4, 5, 6, 7])
       in if gone = [] then [] else [(7, gone)])"
  using feed_push_reports [OF plain_sample paused_sample_facts(1,2), of "[1, 2, 3, 4, 5, 6, 7]"]
  by (simp add: paused_sample_facts put_rows_def cong: if_cong)

text \<open>
  C5. A frozen feed keeps its rows while paused: a push changes no row and adds exactly the number
  of its items to what the reader is told is pending, and resuming forgets that count.
\<close>

theorem feed_freeze:
  assumes "paused st" and "freezes opt"
  shows "feed_rows (push opt xs st) = feed_rows st \<and>
    pending (push opt xs st) = pending st + length xs \<and>
    pending (resume opt (push opt xs st)) = 0"
proof -
  have rows: "feed_rows (push opt xs st) = feed_rows st"
    using assms
    by (simp add: appendItems_def changed_def schedule_def feed_rows_def rowAt_def)
  have loop: "counted (fst (trim_loop opt limit s)) = counted s" for limit and s :: "('a, 'b) feed"
  proof (induction opt limit s rule: trim_loop.induct)
    case (1 opt limit s)
    obtain s1 name where e: "evictFront opt s = (s1, name)" by (cases "evictFront opt s")
    then have "counted s1 = counted s"
      by (auto simp: evictFront_def Let_def tally_def set_slot_def split: option.splits if_splits)
    with e "1.IH" [OF _ e [symmetric]] show ?case
      by (cases "trim_loop opt limit s1") (auto simp: trim_loop.simps [of opt limit s])
  qed
  have "counted (trim opt limit True s) = counted s" for limit and s :: "('a, 'b) feed"
    using loop [of limit s] by (auto simp: trim_def split: prod.splits)
  moreover have "paused (push opt xs st)"
    using assms by (simp add: appendItems_def)
  ultimately show ?thesis
    using rows assms by (simp add: pending_def resume_def appendItems_def)
qed

theorem feed_freeze_witness:
  "pending (push (sample_options\<lparr>freezes := True\<rparr>) [1, 2, 3] (pause (createFeedStore :: (nat, unit) feed)))
     = 3"
  using feed_freeze [of "pause (createFeedStore :: (nat, unit) feed)" "sample_options\<lparr>freezes := True\<rparr>"
    "[1, 2, 3]"]
  by (simp add: pause_def changed_def schedule_def createFeedStore_def pending_def)

end
