(* ===== verification/Filter_Parse.thy ===== *)
theory Filter_Parse
  imports JS_Base
begin

text \<open>
  The filter language's parser (\<open>class Parser\<close> and \<open>parseFilter\<close> of
  \<open>console/src/lib/filter.ts\<close>): one definition per method, over the list of the text's code
  points. A refusal the parser throws is the left of a sum.
\<close>

section \<open>The parsed query\<close>

datatype filter_op = OpEq | OpGt | OpGe | OpLt | OpLe

record filter_term =
  t_key :: jstring
  t_op :: filter_op
  t_value :: jstring
  t_negated :: bool
  t_from :: nat
  t_to :: nat

record filter_word =
  w_text :: jstring
  w_negated :: bool
  w_from :: nat
  w_to :: nat

record filter_regex =
  r_pattern :: jstring
  r_caseInsensitive :: bool
  r_negated :: bool
  r_from :: nat
  r_to :: nat

record filter_query =
  q_terms :: "filter_term list"
  q_words :: "filter_word list"
  q_regexes :: "filter_regex list"

record filter_error =
  e_message :: jstring
  e_from :: nat
  e_to :: nat

definition REGEX_MESSAGE :: jstring where
  \<open>REGEX_MESSAGE = js ''A "/" starts a regex in this filter; quote the text to search for a path, like "/api/users".''\<close>

definition QUOTE_NOT_CLOSED :: jstring where
  "QUOTE_NOT_CLOSED = js ''This quote is not closed.''"

definition SPACE_AFTER_QUOTE :: jstring where
  "SPACE_AFTER_QUOTE = js ''Put a space after the closing quote.''"

definition QUOTE_IN_WORD :: jstring where
  "QUOTE_IN_WORD = js ''Put a space before this quote, or quote the whole text.''"

section \<open>Characters\<close>

text \<open>Characters are code points (or, for text read by index, code units); the tests see ASCII only.\<close>

abbreviation QUOTE :: nat where "QUOTE \<equiv> 34"
abbreviation DASH :: nat where "DASH \<equiv> 45"
abbreviation SLASH :: nat where "SLASH \<equiv> 47"
abbreviation COLON :: nat where "COLON \<equiv> 58"
abbreviation LESS :: nat where "LESS \<equiv> 60"
abbreviation EQUALS :: nat where "EQUALS \<equiv> 61"
abbreviation GREATER :: nat where "GREATER \<equiv> 62"
abbreviation BACKSLASH :: nat where "BACKSLASH \<equiv> 92"

definition isFilterSpace :: "nat \<Rightarrow> bool" where
  "isFilterSpace c \<longleftrightarrow> c = 32 \<or> c = 9 \<or> c = 10 \<or> c = 13 \<or> c = 12 \<or> c = 11"

definition isAsciiAlpha :: "nat \<Rightarrow> bool" where
  "isAsciiAlpha c \<longleftrightarrow> (65 \<le> c \<and> c \<le> 90) \<or> (97 \<le> c \<and> c \<le> 122)"

definition isAsciiDigit :: "nat \<Rightarrow> bool" where
  "isAsciiDigit c \<longleftrightarrow> 48 \<le> c \<and> c \<le> 57"

definition isKeyChar :: "nat \<Rightarrow> bool" where
  "isKeyChar c \<longleftrightarrow> isAsciiAlpha c \<or> isAsciiDigit c \<or> c = 95 \<or> c = 46 \<or> c = DASH"

definition asciiLower :: "jstring \<Rightarrow> jstring" where
  "asciiLower s = map (\<lambda>c. if 65 \<le> c \<and> c \<le> 90 then c + 32 else c) s"

definition sameIgnoringAsciiCase :: "jstring \<Rightarrow> jstring \<Rightarrow> bool" where
  "sameIgnoringAsciiCase a b \<longleftrightarrow> asciiLower a = asciiLower b"

section \<open>The parser\<close>

text \<open>The constructor's \<open>utf16\<close> array, and reading it with \<open>?? 0\<close>.\<close>

fun utf16_from :: "nat \<Rightarrow> nat list \<Rightarrow> nat list" where
  "utf16_from n [] = [n]"
| "utf16_from n (c # cs) = n # utf16_from (n + length (units_of c)) cs"

definition offset :: "nat list \<Rightarrow> nat \<Rightarrow> nat" where
  "offset cs i = (case at_opt (utf16_from 0 cs) i of None \<Rightarrow> 0 | Some n \<Rightarrow> n)"

definition refuse :: "nat list \<Rightarrow> jstring \<Rightarrow> nat \<Rightarrow> nat \<Rightarrow> filter_error" where
  "refuse cs message from to = \<lparr>e_message = message, e_from = offset cs from, e_to = offset cs to\<rparr>"

definition runEnd :: "nat list \<Rightarrow> nat \<Rightarrow> nat" where
  "runEnd cs at = run_end (\<lambda>c. \<not> isFilterSpace c) cs at"

definition boundary :: "nat list \<Rightarrow> nat \<Rightarrow> nat \<Rightarrow> filter_error + unit" where
  "boundary cs start end =
     (if test_at (\<lambda>c. \<not> isFilterSpace c) cs end
      then Inl (refuse cs SPACE_AFTER_QUOTE start (runEnd cs end)) else Inr ())"

function phrase_loop :: "nat list \<Rightarrow> nat \<Rightarrow> jstring \<Rightarrow> (jstring \<times> nat) option" where
  "phrase_loop cs index text =
     (if index < length cs then
        if cs ! index = BACKSLASH \<and> test_at (\<lambda>n. n = QUOTE \<or> n = BACKSLASH) cs (index + 1)
        then phrase_loop cs (index + 2) (text @ units_of (cs ! (index + 1)))
        else if cs ! index = QUOTE then Some (text, index + 1)
        else phrase_loop cs (index + 1) (text @ units_of (cs ! index))
      else None)"
  by pat_completeness auto
termination by (relation "measure (\<lambda>(cs, index, text). length cs - index)") auto

declare phrase_loop.simps [simp del]

definition phrase :: "nat list \<Rightarrow> nat \<Rightarrow> filter_error + jstring \<times> nat" where
  "phrase cs at =
     (case phrase_loop cs (at + 1) [] of
        Some r \<Rightarrow> Inr r
      | None \<Rightarrow> Inl (refuse cs QUOTE_NOT_CLOSED at (length cs)))"

function regex_loop :: "nat list \<Rightarrow> nat \<Rightarrow> jstring \<Rightarrow> (jstring \<times> nat) option" where
  "regex_loop cs index pattern =
     (if index < length cs then
        if cs ! index = BACKSLASH \<and> index + 1 < length cs
        then regex_loop cs (index + 2) (pattern @ units_of (cs ! index) @ units_of (cs ! (index + 1)))
        else if cs ! index = SLASH then Some (pattern, index)
        else regex_loop cs (index + 1) (pattern @ units_of (cs ! index))
      else None)"
  by pat_completeness auto
termination by (relation "measure (\<lambda>(cs, index, pattern). length cs - index)") auto

declare regex_loop.simps [simp del]

definition regexItem :: "nat list \<Rightarrow> nat \<Rightarrow> nat \<Rightarrow> filter_error + jstring \<times> bool \<times> nat" where
  "regexItem cs start at =
     (let refused = Inl (refuse cs REGEX_MESSAGE start (runEnd cs at))
      in case regex_loop cs (at + 1) [] of
           None \<Rightarrow> refused
         | Some (pattern, index) \<Rightarrow>
             if pattern = [] then refused
             else let caseInsensitive = test_at (\<lambda>c. c = 105) cs (index + 1);
                      end = (if caseInsensitive then index + 2 else index + 1)
                  in if test_at (\<lambda>c. \<not> isFilterSpace c) cs end then refused
                     else Inr (pattern, caseInsensitive, end))"

definition keyEnd :: "nat list \<Rightarrow> nat \<Rightarrow> nat option" where
  "keyEnd cs at =
     (if \<not> test_at isAsciiAlpha cs at then None
      else let end = run_end isKeyChar cs (at + 1)
           in if test_at (\<lambda>c. c = COLON \<or> c = EQUALS) cs end then Some end else None)"

definition bare :: "nat list \<Rightarrow> nat \<Rightarrow> filter_error + jstring \<times> nat" where
  "bare cs at =
     (let end = runEnd cs at; index = run_end (\<lambda>c. c \<noteq> QUOTE) (take end cs) at
      in if index < end then Inl (refuse cs QUOTE_IN_WORD index (index + 1))
         else Inr (join_points (slice cs at end), end))"

text \<open>The operator after a separator, and where its value starts.\<close>

definition read_op :: "nat list \<Rightarrow> nat \<Rightarrow> filter_op \<times> nat" where
  "read_op cs index =
     (let first = at_opt cs index; second = at_opt cs (index + 1)
      in if first = Some GREATER \<and> second = Some EQUALS then (OpGe, index + 2)
         else if first = Some LESS \<and> second = Some EQUALS then (OpLe, index + 2)
         else if first = Some GREATER then (OpGt, index + 1)
         else if first = Some LESS then (OpLt, index + 1)
         else (OpEq, index))"

definition term_at :: "nat list \<Rightarrow> nat \<Rightarrow> nat \<Rightarrow> nat \<Rightarrow> bool \<Rightarrow> filter_error + filter_term \<times> nat" where
  "term_at cs start at separator negated =
     (let key = join_points (slice cs at separator);
          (op, index) = read_op cs (separator + 1);
          value_end =
            (if test_at (\<lambda>c. c = QUOTE) cs index
             then case phrase cs index of
                    Inl e \<Rightarrow> Inl e
                  | Inr (value, end) \<Rightarrow>
                      (case boundary cs start end of Inl e \<Rightarrow> Inl e | Inr _ \<Rightarrow> Inr (value, end))
             else bare cs index)
      in case value_end of
           Inl e \<Rightarrow> Inl e
         | Inr (value, end) \<Rightarrow>
             Inr (\<lparr>t_key = key, t_op = op, t_value = value, t_negated = negated,
                   t_from = offset cs start, t_to = offset cs end\<rparr>, end))"

text \<open>Whether the item at \<open>start\<close> is negated, and where its body starts.\<close>

definition minus_at :: "nat list \<Rightarrow> nat \<Rightarrow> bool" where
  "minus_at cs start \<longleftrightarrow> cs ! start = DASH \<and> test_at (\<lambda>c. \<not> isFilterSpace c) cs (start + 1)"

definition body_at :: "nat list \<Rightarrow> nat \<Rightarrow> nat" where
  "body_at cs start = (if minus_at cs start then start + 1 else start)"

text \<open>One turn of the loop after its leading whitespace: the item it pushes and where it ends.\<close>

datatype filter_item = TermItem filter_term | WordItem filter_word | RegexItem filter_regex

definition parse_item :: "nat list \<Rightarrow> bool \<Rightarrow> nat \<Rightarrow> filter_error + filter_item \<times> nat" where
  "parse_item cs regex start =
     (let negated = minus_at cs start; at = body_at cs start
      in if test_at (\<lambda>c. c = QUOTE) cs at then
           (case phrase cs at of
              Inl e \<Rightarrow> Inl e
            | Inr (text, end) \<Rightarrow>
                (case boundary cs start end of
                   Inl e \<Rightarrow> Inl e
                 | Inr _ \<Rightarrow>
                     Inr (WordItem \<lparr>w_text = text, w_negated = negated,
                            w_from = offset cs start, w_to = offset cs end\<rparr>, end)))
         else if test_at (\<lambda>c. c = SLASH) cs at \<and> regex then
           (case regexItem cs start at of
              Inl e \<Rightarrow> Inl e
            | Inr (pattern, caseInsensitive, end) \<Rightarrow>
                Inr (RegexItem \<lparr>r_pattern = pattern, r_caseInsensitive = caseInsensitive,
                       r_negated = negated, r_from = offset cs start, r_to = offset cs end\<rparr>, end))
         else
           (case keyEnd cs at of
              Some separator \<Rightarrow>
                (case term_at cs start at separator negated of
                   Inl e \<Rightarrow> Inl e
                 | Inr (t, end) \<Rightarrow> Inr (TermItem t, end))
            | None \<Rightarrow>
                (case bare cs at of
                   Inl e \<Rightarrow> Inl e
                 | Inr (text, end) \<Rightarrow>
                     Inr (WordItem \<lparr>w_text = text, w_negated = negated,
                            w_from = offset cs start, w_to = offset cs end\<rparr>, end))))"

fun push_item :: "filter_item \<Rightarrow> filter_query \<Rightarrow> filter_query" where
  "push_item (TermItem t) q = q\<lparr>q_terms := q_terms q @ [t]\<rparr>"
| "push_item (WordItem w) q = q\<lparr>q_words := q_words q @ [w]\<rparr>"
| "push_item (RegexItem r) q = q\<lparr>q_regexes := q_regexes q @ [r]\<rparr>"

subsection \<open>The loop moves forward\<close>

lemma phrase_loop_ge: "phrase_loop cs i acc = Some (v, e) \<Longrightarrow> i < e \<and> e \<le> length cs"
proof (induction cs i acc rule: phrase_loop.induct)
  case (1 cs i acc)
  show ?case
    using "1.prems" "1.IH"(1,2)
    by (fastforce simp: phrase_loop.simps [of cs i acc] test_at_def split: if_splits)
qed

lemma phrase_ge: "phrase cs i = Inr (v, e) \<Longrightarrow> i + 1 < e \<and> e \<le> length cs"
  by (auto simp: phrase_def dest: phrase_loop_ge split: option.splits)

lemma regex_loop_ge: "regex_loop cs i p = Some (v, e) \<Longrightarrow> i \<le> e \<and> e < length cs"
proof (induction cs i p rule: regex_loop.induct)
  case (1 cs i p)
  show ?case
    using "1.prems" "1.IH"(1,2)
    by (fastforce simp: regex_loop.simps [of cs i p] split: if_splits)
qed

lemma regexItem_ge: "regexItem cs start i = Inr (p, ci, e) \<Longrightarrow> i + 1 < e \<and> e \<le> length cs"
  by (auto simp: regexItem_def Let_def test_at_def dest!: regex_loop_ge
      split: option.splits prod.splits if_splits)

lemma bare_ge: "i \<le> length cs \<Longrightarrow> bare cs i = Inr (v, e) \<Longrightarrow> i \<le> e \<and> e \<le> length cs"
  by (auto simp: bare_def Let_def runEnd_def split: if_splits)

lemma bare_gt:
  "test_at (\<lambda>c. \<not> isFilterSpace c) cs i \<Longrightarrow> bare cs i = Inr (v, e) \<Longrightarrow> i < e \<and> e \<le> length cs"
  using run_end_gt [of i cs "\<lambda>c. \<not> isFilterSpace c"]
  by (auto simp: bare_def Let_def runEnd_def test_at_def split: if_splits)

lemma read_op_ge: "read_op cs i = (p, j) \<Longrightarrow> i \<le> length cs \<Longrightarrow> i \<le> j \<and> j \<le> length cs"
  by (auto simp: read_op_def Let_def at_opt_Some split: if_splits)

lemma keyEnd_gt: "keyEnd cs i = Some e \<Longrightarrow> i < e \<and> e < length cs"
  by (auto simp: keyEnd_def Let_def test_at_def split: if_splits)

text \<open>Where a term's value comes from, and the four ways an item is read.\<close>

lemma term_at_cases:
  assumes "term_at cs start i sep neg = Inr (t, e)" and "read_op cs (sep + 1) = (p, j)"
  obtains (phrase) v where "test_at (\<lambda>c. c = QUOTE) cs j" and "phrase cs j = Inr (v, e)"
      and "boundary cs start e = Inr ()"
      and "t = \<lparr>t_key = join_points (slice cs i sep), t_op = p, t_value = v, t_negated = neg,
            t_from = offset cs start, t_to = offset cs e\<rparr>"
    | (bare) v where "\<not> test_at (\<lambda>c. c = QUOTE) cs j" and "bare cs j = Inr (v, e)"
      and "t = \<lparr>t_key = join_points (slice cs i sep), t_op = p, t_value = v, t_negated = neg,
            t_from = offset cs start, t_to = offset cs e\<rparr>"
proof (cases "test_at (\<lambda>c. c = QUOTE) cs j")
  case True
  with assms show thesis
    by (cases "phrase cs j") (auto simp: term_at_def split: sum.splits intro: phrase)
next
  case False
  with assms show thesis
    by (cases "bare cs j") (auto simp: term_at_def split: sum.splits intro: bare)
qed

lemma term_ge:
  assumes "term_at cs start i sep neg = Inr (t, e)" and "sep < length cs"
  shows "sep < e \<and> e \<le> length cs"
proof -
  obtain p j where r: "read_op cs (sep + 1) = (p, j)" by (cases "read_op cs (sep + 1)")
  with assms(2) have j: "sep + 1 \<le> j" "j \<le> length cs" using read_op_ge [OF r] by auto
  from assms(1) r show ?thesis
  proof (cases rule: term_at_cases)
    case (phrase v)
    with phrase_ge [of cs j v e] j show ?thesis by simp
  next
    case (bare v)
    with bare_ge [of j cs v e] j show ?thesis by simp
  qed
qed

lemma parse_item_cases:
  assumes "parse_item cs regex start = Inr (it, e)"
  obtains (phrase) v where "test_at (\<lambda>c. c = QUOTE) cs (body_at cs start)"
      and "phrase cs (body_at cs start) = Inr (v, e)" and "boundary cs start e = Inr ()"
      and "it = WordItem \<lparr>w_text = v, w_negated = minus_at cs start,
             w_from = offset cs start, w_to = offset cs e\<rparr>"
    | (regex) v ci where "\<not> test_at (\<lambda>c. c = QUOTE) cs (body_at cs start)" and regex
      and "test_at (\<lambda>c. c = SLASH) cs (body_at cs start)"
      and "regexItem cs start (body_at cs start) = Inr (v, ci, e)"
      and "it = RegexItem \<lparr>r_pattern = v, r_caseInsensitive = ci, r_negated = minus_at cs start,
             r_from = offset cs start, r_to = offset cs e\<rparr>"
    | (keyed) t sep where "\<not> test_at (\<lambda>c. c = QUOTE) cs (body_at cs start)"
      and "\<not> (test_at (\<lambda>c. c = SLASH) cs (body_at cs start) \<and> regex)"
      and "keyEnd cs (body_at cs start) = Some sep"
      and "term_at cs start (body_at cs start) sep (minus_at cs start) = Inr (t, e)"
      and "it = TermItem t"
    | (bare) v where "\<not> test_at (\<lambda>c. c = QUOTE) cs (body_at cs start)"
      and "\<not> (test_at (\<lambda>c. c = SLASH) cs (body_at cs start) \<and> regex)"
      and "keyEnd cs (body_at cs start) = None"
      and "bare cs (body_at cs start) = Inr (v, e)"
      and "it = WordItem \<lparr>w_text = v, w_negated = minus_at cs start,
             w_from = offset cs start, w_to = offset cs e\<rparr>"
proof -
  let ?at = "body_at cs start"
  note def = parse_item_def Let_def
  consider "test_at (\<lambda>c. c = QUOTE) cs ?at"
    | "\<not> test_at (\<lambda>c. c = QUOTE) cs ?at" "test_at (\<lambda>c. c = SLASH) cs ?at \<and> regex"
    | sep where "\<not> test_at (\<lambda>c. c = QUOTE) cs ?at" "\<not> (test_at (\<lambda>c. c = SLASH) cs ?at \<and> regex)"
        "keyEnd cs ?at = Some sep"
    | "\<not> test_at (\<lambda>c. c = QUOTE) cs ?at" "\<not> (test_at (\<lambda>c. c = SLASH) cs ?at \<and> regex)"
        "keyEnd cs ?at = None"
    by (cases "keyEnd cs ?at") auto
  then show thesis
  proof cases
    case 1
    with assms show thesis
      by (cases "phrase cs ?at") (auto simp: def split: sum.splits intro: phrase)
  next
    case 2
    with assms show thesis
      by (cases "regexItem cs start ?at") (auto simp: def intro: regex)
  next
    case (3 sep)
    with assms show thesis
      by (cases "term_at cs start ?at sep (minus_at cs start)") (auto simp: def intro: keyed)
  next
    case 4
    with assms show thesis
      by (cases "bare cs ?at") (auto simp: def intro: bare)
  qed
qed

lemma parse_item_gt:
  assumes "parse_item cs regex i = Inr (it, e)" and "i < length cs" and "\<not> isFilterSpace (cs ! i)"
  shows "i < e \<and> e \<le> length cs"
proof -
  have at: "test_at (\<lambda>c. \<not> isFilterSpace c) cs (body_at cs i)" "i \<le> body_at cs i"
    using assms(2,3) by (auto simp: test_at_def body_at_def minus_at_def)
  from assms(1) show ?thesis
  proof (cases rule: parse_item_cases)
    case (phrase v)
    with phrase_ge [of cs "body_at cs i" v e] at show ?thesis by simp
  next
    case (regex v ci)
    with regexItem_ge [of cs i "body_at cs i" v ci e] at show ?thesis by simp
  next
    case (keyed t sep)
    with keyEnd_gt [of cs "body_at cs i" sep] term_ge [OF keyed(4)] at show ?thesis by simp
  next
    case (bare v)
    with bare_gt [OF at(1), of v e] at show ?thesis by simp
  qed
qed

function parse_loop :: "nat list \<Rightarrow> bool \<Rightarrow> nat \<Rightarrow> filter_query \<Rightarrow> filter_error + filter_query" where
  "parse_loop cs regex at0 query =
     (let start = run_end isFilterSpace cs at0
      in if start < length cs
         then case parse_item cs regex start of
                Inl e \<Rightarrow> Inl e
              | Inr (item, end) \<Rightarrow> parse_loop cs regex end (push_item item query)
         else Inr query)"
  by pat_completeness auto
termination
proof (relation "measure (\<lambda>(cs, regex, at0, query). length cs - at0)", goal_cases)
  case (2 cs regex at0 query start x item e)
  from 2 have "start < e \<and> e \<le> length cs"
    using parse_item_gt [of cs regex start item e] run_end_stop [of isFilterSpace cs at0] by auto
  moreover have "at0 \<le> start" using 2 by simp
  ultimately have "length cs - e < length cs - at0" by arith
  then show ?case by simp
qed simp

declare parse_loop.simps [simp del]

definition parse :: "nat list \<Rightarrow> bool \<Rightarrow> filter_error + filter_query" where
  "parse cs regex = parse_loop cs regex 0 \<lparr>q_terms = [], q_words = [], q_regexes = []\<rparr>"

definition parseFilter :: "jstring \<Rightarrow> bool \<Rightarrow> filter_error + filter_query" where
  "parseFilter text regex = parse (code_points text) regex"

end
