(* ===== verification/Scanners.thy ===== *)
theory Scanners
  imports JS_Base
begin

text \<open>
  What a scanner promises its readers: pieces of text found one after the other, none empty,
  none overlapping another, none past the end, and nothing but blanks left between them.
  \<open>forward_scanner\<close> states the laws of one step and proves the promise once; the filter field's
  \<open>filterTokens\<close> and the rules tokenizer's loop are interpreted in it.
\<close>

section \<open>Spans\<close>

fun spans_in :: "nat \<Rightarrow> nat \<Rightarrow> (nat \<times> nat) list \<Rightarrow> bool" where
  "spans_in lo hi [] \<longleftrightarrow> lo \<le> hi"
| "spans_in lo hi (p # ps) \<longleftrightarrow> lo \<le> fst p \<and> fst p < snd p \<and> spans_in (snd p) hi ps"

lemma spans_in_bound: "spans_in lo hi ps \<Longrightarrow> lo \<le> hi"
  by (induction ps arbitrary: lo) fastforce+

lemma spans_in_above: "spans_in lo hi ps \<Longrightarrow> p \<in> set ps \<Longrightarrow> lo \<le> fst p \<and> snd p \<le> hi"
proof (induction ps arbitrary: lo)
  case (Cons q ps)
  then show ?case using spans_in_bound [of "snd q" hi ps] by fastforce
qed simp

lemma spans_in_sorted: "spans_in lo hi ps \<Longrightarrow> sorted_wrt (<) (map fst ps)"
proof (induction ps arbitrary: lo)
  case (Cons p ps)
  then show ?case using spans_in_above [of "snd p" hi ps] by fastforce
qed simp

lemma spans_in_weaken: "spans_in lo hi ps \<Longrightarrow> lo' \<le> lo \<Longrightarrow> hi \<le> hi' \<Longrightarrow> spans_in lo' hi' ps"
proof (induction ps arbitrary: lo lo')
  case (Cons p ps)
  then have "spans_in (snd p) hi' ps" using Cons.IH [of "snd p" "snd p"] by simp
  with Cons.prems show ?case by simp
qed simp

lemma spans_in_append: "spans_in lo mid ps \<Longrightarrow> spans_in mid hi qs \<Longrightarrow> spans_in lo hi (ps @ qs)"
proof (induction ps arbitrary: lo)
  case Nil
  then show ?case using spans_in_weaken [of mid hi qs lo hi] by simp
qed simp

lemma spans_in_shift:
  "spans_in lo hi ps \<Longrightarrow> spans_in (n + lo) (n + hi) (map (\<lambda>p. (n + fst p, n + snd p)) ps)"
  by (induction ps arbitrary: lo) auto

text \<open>Two different pieces never share a place.\<close>

lemma spans_in_disjoint:
  "spans_in lo hi ps \<Longrightarrow> i < j \<Longrightarrow> j < length ps \<Longrightarrow> snd (ps ! i) \<le> fst (ps ! j)"
proof (induction ps arbitrary: lo i j)
  case (Cons p ps)
  then obtain j' where j: "j = Suc j'" by (cases j) auto
  with Cons.prems have ps: "spans_in (snd p) hi ps" "ps ! j' \<in> set ps" by auto
  show ?case
  proof (cases i)
    case 0
    with j spans_in_above [OF ps] show ?thesis by simp
  next
    case (Suc i')
    with Cons j ps show ?thesis by simp
  qed
qed simp

section \<open>The contract\<close>

text \<open>
  A configuration is what the scanner's loop carries: the text, the place reached, the state.
  A step answers the piece it read, or nothing when it only passed over blanks, and the next
  configuration; no step is left at the end.
\<close>

locale forward_scanner =
  fixes scan :: "'c \<Rightarrow> ('t option \<times> 'c) option"
    and pieces :: "'c \<Rightarrow> 't list"
    and valid :: "'c \<Rightarrow> bool"
    and place :: "'c \<Rightarrow> nat"
    and limit :: "'c \<Rightarrow> nat"
    and blank :: "'c \<Rightarrow> nat \<Rightarrow> bool"
    and span :: "'t \<Rightarrow> nat \<times> nat"
  assumes pieces_step: "pieces c =
      (case scan c of None \<Rightarrow> [] | Some (t, c') \<Rightarrow> (case t of None \<Rightarrow> [] | Some p \<Rightarrow> [p]) @ pieces c')"
    and place_limit: "valid c \<Longrightarrow> place c \<le> limit c"
    and keeps: "valid c \<Longrightarrow> scan c = Some (t, c') \<Longrightarrow> valid c' \<and> limit c' = limit c \<and> blank c' = blank c"
    and forward: "valid c \<Longrightarrow> scan c = Some (t, c') \<Longrightarrow> place c < place c'"
    and within: "valid c \<Longrightarrow> scan c = Some (Some p, c') \<Longrightarrow>
      place c \<le> fst (span p) \<and> fst (span p) < snd (span p) \<and> snd (span p) \<le> place c'"
    and passed: "valid c \<Longrightarrow> scan c = Some (t, c') \<Longrightarrow> place c \<le> i \<Longrightarrow> i < place c' \<Longrightarrow>
      (\<forall>p. t = Some p \<longrightarrow> \<not> (fst (span p) \<le> i \<and> i < snd (span p))) \<Longrightarrow> blank c i"
    and ended: "valid c \<Longrightarrow> scan c = None \<Longrightarrow> place c \<le> i \<Longrightarrow> i < limit c \<Longrightarrow> blank c i"
begin

lemma scan_induct [consumes 1, case_names stop step]:
  assumes "valid c"
    and stop: "\<And>c. valid c \<Longrightarrow> scan c = None \<Longrightarrow> P c"
    and step: "\<And>c t c'. valid c \<Longrightarrow> scan c = Some (t, c') \<Longrightarrow> P c' \<Longrightarrow> P c"
  shows "P c"
  using assms(1)
proof (induction "limit c - place c" arbitrary: c rule: less_induct)
  case less
  show ?case
  proof (cases "scan c")
    case None
    then show ?thesis using stop less.prems by blast
  next
    case (Some r)
    then obtain t c' where s: "scan c = Some (t, c')" by (cases r) auto
    have "limit c' - place c' < limit c - place c"
      using keeps [OF less.prems s] forward [OF less.prems s] place_limit [of c'] by auto
    then show ?thesis using step [OF less.prems s] less.hyps keeps [OF less.prems s] by blast
  qed
qed

lemma pieces_in_order: "valid c \<Longrightarrow> spans_in (place c) (limit c) (map span (pieces c))"
proof (induction c rule: scan_induct)
  case (stop c)
  then show ?case using place_limit by (simp add: pieces_step [of c])
next
  case (step c t c')
  note k = keeps [OF step(1,2)] and f = forward [OF step(1,2)]
  show ?case
  proof (cases t)
    case None
    with step k f spans_in_weaken [OF step.IH, of "place c" "limit c"] show ?thesis
      by (simp add: pieces_step [of c])
  next
    case (Some p)
    have w: "place c \<le> fst (span p)" "fst (span p) < snd (span p)" "snd (span p) \<le> place c'"
      using within [of c p c'] step(1,2) Some by auto
    with step k Some spans_in_weaken [OF step.IH w(3), of "limit c"] show ?thesis
      by (simp add: pieces_step [of c])
  qed
qed

lemma pieces_cover:
  "valid c \<Longrightarrow> place c \<le> i \<Longrightarrow> i < limit c \<Longrightarrow> \<not> blank c i \<Longrightarrow>
   \<exists>p\<in>set (pieces c). fst (span p) \<le> i \<and> i < snd (span p)"
proof (induction c rule: scan_induct)
  case (stop c)
  then show ?case using ended by blast
next
  case (step c t c')
  note k = keeps [OF step(1,2)]
  show ?case
  proof (cases "i < place c'")
    case True
    with step passed [of c t c' i] obtain p where "t = Some p" "fst (span p) \<le> i" "i < snd (span p)"
      by blast
    then show ?thesis using step(2) by (auto simp: pieces_step [of c])
  next
    case False
    with step k have "\<exists>p\<in>set (pieces c'). fst (span p) \<le> i \<and> i < snd (span p)" by simp
    then show ?thesis using step(2) by (auto simp: pieces_step [of c])
  qed
qed

end

end
