(* ===== verification/Filter_Print.thy ===== *)
theory Filter_Print
  imports Filter_Parse Scanners "HOL-Library.Multiset"
begin

text \<open>
  Writing a query back as filter text (\<open>printFilter\<close> and what it uses, in
  \<open>console/src/lib/filter.ts\<close>), and the proof that what it writes parses back to the query.
\<close>

section \<open>The printer\<close>

fun spelling :: "filter_op \<Rightarrow> jstring" where
  "spelling OpEq = [COLON]"
| "spelling OpGt = [GREATER]"
| "spelling OpGe = [GREATER, EQUALS]"
| "spelling OpLt = [LESS]"
| "spelling OpLe = [LESS, EQUALS]"

definition starts_with :: "nat \<Rightarrow> jstring \<Rightarrow> bool" where
  "starts_with c s \<longleftrightarrow> s \<noteq> [] \<and> hd s = c"

definition needsQuotes :: "jstring \<Rightarrow> bool \<Rightarrow> bool" where
  "needsQuotes value asValue \<longleftrightarrow>
     value = [] \<or> QUOTE \<in> set value \<or> list_ex isFilterSpace (code_points value) \<or>
     (asValue \<and> (starts_with LESS value \<or> starts_with GREATER value \<or> starts_with EQUALS value))"

definition quoteFilterText :: "jstring \<Rightarrow> jstring" where
  "quoteFilterText value =
     [QUOTE] @ concat (map (\<lambda>c. if c = BACKSLASH \<or> c = QUOTE then [BACKSLASH, c] else [c]) value) @ [QUOTE]"

definition filterValueText :: "jstring \<Rightarrow> jstring" where
  "filterValueText value = (if needsQuotes value True then quoteFilterText value else value)"

definition wordText :: "filter_word \<Rightarrow> bool \<Rightarrow> jstring" where
  "wordText word regex =
     (let text = w_text word;
          parsesAsSomethingElse =
            needsQuotes text False \<or> (if w_negated word then False else starts_with DASH text) \<or>
            (regex \<and> starts_with SLASH text) \<or> keyEnd (code_points text) 0 \<noteq> None
      in if parsesAsSomethingElse then quoteFilterText text else text)"

definition minus_text :: "bool \<Rightarrow> jstring" where
  "minus_text negated = (if negated then [DASH] else [])"

fun item_from :: "filter_item \<Rightarrow> nat" where
  "item_from (TermItem t) = t_from t"
| "item_from (WordItem w) = w_from w"
| "item_from (RegexItem r) = r_from r"

fun item_text :: "bool \<Rightarrow> filter_item \<Rightarrow> jstring" where
  "item_text regex (TermItem t) =
     minus_text (t_negated t) @ t_key t @ [COLON] @ (if t_op t = OpEq then [] else spelling (t_op t)) @
     filterValueText (t_value t)"
| "item_text regex (WordItem w) = minus_text (w_negated w) @ wordText w regex"
| "item_text regex (RegexItem r) =
     minus_text (r_negated r) @ [SLASH] @ r_pattern r @ [SLASH] @ (if r_caseInsensitive r then [105] else [])"

text \<open>\<open>parts.join(' ')\<close>\<close>

fun join_spaced :: "jstring list \<Rightarrow> jstring" where
  "join_spaced [] = []"
| "join_spaced [s] = s"
| "join_spaced (s # t # r) = s @ 32 # join_spaced (t # r)"

definition query_items :: "filter_query \<Rightarrow> filter_item list" where
  "query_items q = map TermItem (q_terms q) @ map WordItem (q_words q) @ map RegexItem (q_regexes q)"

definition printFilter :: "filter_query \<Rightarrow> bool \<Rightarrow> jstring" where
  "printFilter query regex =
     join_spaced (map (item_text regex) (sort_key item_from (query_items query)))"

section \<open>The parser by suffixes\<close>

text \<open>Each method reads only what is left of the text from its position on.\<close>

lemma test_at_drop: "test_at p cs i = (case drop i cs of [] \<Rightarrow> False | c # _ \<Rightarrow> p c)"
  using at_opt_drop [of cs i]
  by (auto simp: test_at_def at_opt_def split: list.splits if_splits)

fun phrase_chars :: "nat list \<Rightarrow> (nat list \<times> nat) option" where
  "phrase_chars [] = None"
| "phrase_chars (c # r) =
     (case r of
        d # r' \<Rightarrow>
          if c = BACKSLASH \<and> (d = QUOTE \<or> d = BACKSLASH)
          then map_option (\<lambda>(t, n). (d # t, n + 2)) (phrase_chars r')
          else if c = QUOTE then Some ([], 1)
          else map_option (\<lambda>(t, n). (c # t, n + 1)) (phrase_chars r)
      | [] \<Rightarrow> if c = QUOTE then Some ([], 1) else None)"

declare phrase_chars.simps(2) [simp del]

lemma phrase_chars_quote: "phrase_chars (QUOTE # r) = Some ([], 1)"
  by (subst phrase_chars.simps) (auto split: list.splits)

lemma phrase_chars_escaped:
  "d = QUOTE \<or> d = BACKSLASH \<Longrightarrow>
   phrase_chars (BACKSLASH # d # r) = map_option (\<lambda>(t, n). (d # t, n + 2)) (phrase_chars r)"
  by (subst phrase_chars.simps) auto

lemma phrase_chars_plain:
  assumes "c \<noteq> QUOTE" and "c = BACKSLASH \<Longrightarrow> r \<noteq> [] \<Longrightarrow> hd r \<noteq> QUOTE \<and> hd r \<noteq> BACKSLASH"
  shows "phrase_chars (c # r) = map_option (\<lambda>(t, n). (c # t, n + 1)) (phrase_chars r)"
  by (subst phrase_chars.simps) (use assms in \<open>auto split: list.splits\<close>)

lemmas phrase_chars_simps = phrase_chars_quote phrase_chars_escaped phrase_chars_plain

fun regex_chars :: "nat list \<Rightarrow> (nat list \<times> nat) option" where
  "regex_chars [] = None"
| "regex_chars (c # r) =
     (case r of
        d # r' \<Rightarrow>
          if c = BACKSLASH then map_option (\<lambda>(t, n). (c # d # t, n + 2)) (regex_chars r')
          else if c = SLASH then Some ([], 0)
          else map_option (\<lambda>(t, n). (c # t, n + 1)) (regex_chars r)
      | [] \<Rightarrow> if c = SLASH then Some ([], 0) else None)"

declare regex_chars.simps(2) [simp del]

lemma regex_chars_slash: "regex_chars (SLASH # r) = Some ([], 0)"
  by (subst regex_chars.simps) (auto split: list.splits)

lemma regex_chars_escaped:
  "regex_chars (BACKSLASH # d # r) = map_option (\<lambda>(t, n). (BACKSLASH # d # t, n + 2)) (regex_chars r)"
  by (subst regex_chars.simps) auto

lemma regex_chars_plain:
  assumes "c \<noteq> SLASH" and "c \<noteq> BACKSLASH \<or> r = []"
  shows "regex_chars (c # r) = map_option (\<lambda>(t, n). (c # t, n + 1)) (regex_chars r)"
  by (subst regex_chars.simps) (use assms in \<open>auto split: list.splits\<close>)

lemmas regex_chars_simps = regex_chars_slash regex_chars_escaped regex_chars_plain

lemma join_points_Cons: "join_points (c # cs) = units_of c @ join_points cs"
  by (simp add: join_points_def)

lemmas read_chars = option.map_comp comp_def case_prod_unfold join_points_Cons

lemma phrase_loop_chars:
  "phrase_loop cs i acc =
     map_option (\<lambda>(t, n). (acc @ join_points t, i + n)) (phrase_chars (drop i cs))"
proof (induction cs i acc rule: phrase_loop.induct)
  case (1 cs i acc)
  consider (over) "length cs \<le> i"
    | (escaped) d where "i < length cs" "cs ! i = BACKSLASH" "Suc i < length cs" "cs ! Suc i = d"
        "d = QUOTE \<or> d = BACKSLASH"
    | (quote) "i < length cs" "cs ! i = QUOTE"
    | (plain) "i < length cs" "cs ! i \<noteq> QUOTE"
        "\<not> (cs ! i = BACKSLASH \<and> test_at (\<lambda>n. n = QUOTE \<or> n = BACKSLASH) cs (i + 1))"
    by (auto simp: test_at_def) (meson not_less)
  then show ?case
  proof cases
    case over
    then show ?thesis by (simp add: phrase_loop.simps [of cs i])
  next
    case escaped
    then have "drop i cs = BACKSLASH # d # drop (Suc (Suc i)) cs"
      by (metis Cons_nth_drop_Suc)
    with escaped "1.IH"(1) show ?thesis
      by (simp add: phrase_loop.simps [of cs i] test_at_def phrase_chars_escaped read_chars)
  next
    case quote
    then have "drop i cs = QUOTE # drop (Suc i) cs"
      by (metis Cons_nth_drop_Suc)
    with quote show ?thesis
      by (simp add: phrase_loop.simps [of cs i] phrase_chars_quote)
  next
    case plain
    then have "drop i cs = cs ! i # drop (Suc i) cs"
      by (simp add: Cons_nth_drop_Suc)
    moreover have "cs ! i = BACKSLASH \<Longrightarrow> drop (Suc i) cs \<noteq> [] \<Longrightarrow>
        hd (drop (Suc i) cs) \<noteq> QUOTE \<and> hd (drop (Suc i) cs) \<noteq> BACKSLASH"
      using plain(3) by (auto simp: test_at_def hd_drop_conv_nth)
    ultimately have "phrase_chars (drop i cs) =
        map_option (\<lambda>(t, n). (cs ! i # t, n + 1)) (phrase_chars (drop (Suc i) cs))"
      using plain(2) by (metis phrase_chars_plain)
    moreover have "phrase_loop cs i acc = phrase_loop cs (i + 1) (acc @ units_of (cs ! i))"
      using plain by (auto simp: phrase_loop.simps [of cs i])
    ultimately show ?thesis
      using "1.IH"(2) plain by (simp add: read_chars)
  qed
qed

lemma regex_loop_chars:
  "regex_loop cs i acc =
     map_option (\<lambda>(t, n). (acc @ join_points t, i + n)) (regex_chars (drop i cs))"
proof (induction cs i acc rule: regex_loop.induct)
  case (1 cs i acc)
  consider (over) "length cs \<le> i"
    | (escaped) d where "i < length cs" "cs ! i = BACKSLASH" "Suc i < length cs" "cs ! Suc i = d"
    | (slash) "i < length cs" "cs ! i = SLASH"
    | (plain) "i < length cs" "cs ! i \<noteq> SLASH" "\<not> (cs ! i = BACKSLASH \<and> i + 1 < length cs)"
    by (metis Suc_eq_plus1 not_less)
  then show ?case
  proof cases
    case over
    then show ?thesis by (simp add: regex_loop.simps [of cs i])
  next
    case escaped
    then have "drop i cs = BACKSLASH # d # drop (Suc (Suc i)) cs"
      by (metis Cons_nth_drop_Suc)
    with escaped "1.IH"(1) show ?thesis
      by (simp add: regex_loop.simps [of cs i] regex_chars_escaped read_chars)
  next
    case slash
    then have "drop i cs = SLASH # drop (Suc i) cs"
      by (metis Cons_nth_drop_Suc)
    with slash show ?thesis
      by (simp add: regex_loop.simps [of cs i] regex_chars_slash)
  next
    case plain
    then have "drop i cs = cs ! i # drop (Suc i) cs"
      by (simp add: Cons_nth_drop_Suc)
    moreover have "cs ! i \<noteq> BACKSLASH \<or> drop (Suc i) cs = []" using plain(3) by auto
    ultimately have "regex_chars (drop i cs) =
        map_option (\<lambda>(t, n). (cs ! i # t, n + 1)) (regex_chars (drop (Suc i) cs))"
      using plain(2) by (metis regex_chars_plain)
    moreover have "regex_loop cs i acc = regex_loop cs (i + 1) (acc @ units_of (cs ! i))"
      using plain by (auto simp: regex_loop.simps [of cs i])
    ultimately show ?thesis
      using "1.IH"(2) plain by (simp add: read_chars)
  qed
qed

section \<open>Reading printed text\<close>

subsection \<open>Quoted text\<close>

definition quote_chars :: "nat list \<Rightarrow> nat list" where
  "quote_chars cs = concat (map (\<lambda>c. if c = BACKSLASH \<or> c = QUOTE then [BACKSLASH, c] else [c]) cs)"

lemma quote_chars_simps [simp]:
  "quote_chars [] = []"
  "quote_chars (c # cs) = (if c = BACKSLASH \<or> c = QUOTE then [BACKSLASH, c] else [c]) @ quote_chars cs"
  by (auto simp: quote_chars_def)

lemma phrase_quote_chars:
  "phrase_chars (quote_chars cs @ QUOTE # r) = Some (cs, length (quote_chars cs) + 1)"
  by (induction cs) (auto simp: phrase_chars_simps)

lemma high_surrogate_ascii [simp]: "c < 0xD800 \<Longrightarrow> \<not> high_surrogate c"
  and low_surrogate_ascii [simp]: "c < 0xDC00 \<Longrightarrow> \<not> low_surrogate c"
  by (auto simp: high_surrogate_def low_surrogate_def)

lemma code_points_Cons:
  "s = [] \<or> \<not> (high_surrogate u \<and> low_surrogate (hd s)) \<Longrightarrow> code_points (u # s) = u # code_points s"
  by (cases s) auto

lemma code_points_Cons_ascii: "c < 0xD800 \<Longrightarrow> code_points (c # s) = c # code_points s"
  by (cases s) auto

lemma code_points_snoc_ascii: "c < 0xD800 \<Longrightarrow> code_points (s @ c # t) = code_points s @ c # code_points t"
  by (subst code_points_append) (auto simp: code_points_Cons_ascii)

lemma code_points_quote_chars: "code_points (quote_chars s) = quote_chars (code_points s)"
proof (induction s rule: code_points.induct)
  case (3 u v r)
  show ?case
  proof (cases "high_surrogate u \<and> low_surrogate v")
    case True
    then have "u \<noteq> BACKSLASH \<and> u \<noteq> QUOTE \<and> v \<noteq> BACKSLASH \<and> v \<noteq> QUOTE"
      by (auto simp: high_surrogate_def low_surrogate_def)
    with True 3 pair_point_range [of u v] show ?thesis by auto
  next
    case False
    have v: "\<not> low_surrogate v \<Longrightarrow> \<not> low_surrogate (hd (quote_chars (v # r)))" by auto
    define x where "x = quote_chars (v # r)"
    have "code_points (u # x) = u # code_points x"
      using False v unfolding x_def by (intro code_points_Cons) blast
    moreover have "quote_chars (u # v # r) = (if u = BACKSLASH \<or> u = QUOTE then [BACKSLASH] else []) @ u # x"
      by (simp add: x_def)
    moreover have "code_points (BACKSLASH # u # x) = BACKSLASH # code_points (u # x)"
      by (rule code_points_Cons_ascii) simp
    moreover have "code_points x = quote_chars (code_points (v # r))"
      unfolding x_def using 3(2) [OF False] .
    moreover have "code_points (u # v # r) = u # code_points (v # r)"
      using False by auto
    ultimately show ?thesis by simp
  qed
qed auto

lemma code_points_quoteFilterText:
  "code_points (quoteFilterText v) = QUOTE # quote_chars (code_points v) @ [QUOTE]"
proof -
  have "quoteFilterText v = QUOTE # quote_chars v @ QUOTE # []"
    by (simp add: quoteFilterText_def quote_chars_def)
  then show ?thesis
    by (simp only: code_points_Cons_ascii code_points_snoc_ascii code_points_quote_chars) simp
qed

subsection \<open>One printed item\<close>

text \<open>What follows an item: nothing, or a space.\<close>

definition clear_after :: "nat list \<Rightarrow> bool" where
  "clear_after r \<longleftrightarrow> r = [] \<or> isFilterSpace (hd r)"

lemma test_at_append:
  assumes "drop i cs = r"
  shows "test_at p cs i \<longleftrightarrow> r \<noteq> [] \<and> p (hd r)"
  using assms by (auto simp: test_at_drop split: list.splits)

lemma drop_shift: "drop i cs = xs @ r \<Longrightarrow> drop (i + length xs) cs = r"
  by (metis add.commute append_eq_conv_conj drop_drop)

lemma boundary_clear: "drop e cs = r \<Longrightarrow> clear_after r \<Longrightarrow> boundary cs s e = Inr ()"
  by (auto simp: boundary_def test_at_append clear_after_def)

lemma phrase_quoted:
  assumes "drop i cs = code_points (quoteFilterText v) @ r" and "units_ok v"
  shows "phrase cs i = Inr (v, i + length (code_points (quoteFilterText v)))"
proof -
  have "drop (Suc i) cs = quote_chars (code_points v) @ QUOTE # r"
    using drop_shift [of i cs "[QUOTE]"] assms(1) by (simp add: code_points_quoteFilterText)
  then have "phrase_loop cs (Suc i) [] = Some (v, Suc i + (length (quote_chars (code_points v)) + 1))"
    by (simp add: phrase_loop_chars phrase_quote_chars join_code_points assms(2))
  then show ?thesis by (simp add: phrase_def code_points_quoteFilterText)
qed

lemma run_end_append:
  assumes "drop i cs = w @ r" and "\<forall>c\<in>set w. p c" and "r = [] \<or> \<not> p (hd r)"
  shows "run_end p cs i = i + length w"
proof -
  have "takeWhile p (w @ r) = w"
    using assms(2,3) by (cases r) auto
  with assms(1) show ?thesis by (simp add: run_end_def)
qed

lemma bare_plain:
  assumes "drop i cs = w @ r" and "\<forall>c\<in>set w. \<not> isFilterSpace c \<and> c \<noteq> QUOTE" and "clear_after r"
  shows "bare cs i = Inr (join_points w, i + length w)"
proof -
  have e: "runEnd cs i = i + length w"
    unfolding runEnd_def using assms by (intro run_end_append) (auto simp: clear_after_def)
  have s: "slice cs i (i + length w) = w" by (simp add: slice_def assms(1))
  have "drop i (take (i + length w) cs) = w @ []" by (simp add: drop_take assms(1))
  then have "run_end (\<lambda>c. c \<noteq> QUOTE) (take (i + length w) cs) i = i + length w"
    using assms(2) by (intro run_end_append) auto
  with e s show ?thesis by (simp add: bare_def)
qed

text \<open>A key as the language has it: a letter, then key characters.\<close>

definition key_shaped :: "jstring \<Rightarrow> bool" where
  "key_shaped k \<longleftrightarrow> k \<noteq> [] \<and> isAsciiAlpha (hd k) \<and> list_all isKeyChar k"

lemma key_char_ascii: "isKeyChar c \<Longrightarrow> c < 0x80"
  by (auto simp: isKeyChar_def isAsciiAlpha_def isAsciiDigit_def)

lemma key_shaped_points: "key_shaped k \<Longrightarrow> code_points k = k" "key_shaped k \<Longrightarrow> join_points k = k"
proof -
  assume "key_shaped k"
  then have c: "c < 0x80" if "c \<in> set k" for c
    using that key_char_ascii by (auto simp: key_shaped_def list_all_iff)
  then show "code_points k = k" by (intro code_points_ascii) force
  moreover have "units_ok k" using c unfolding units_ok_def by force
  ultimately show "join_points k = k" using join_code_points [of k] by simp
qed

lemma keyEnd_drop:
  assumes "drop i cs = c # w"
  shows "keyEnd cs i =
    (if isAsciiAlpha c
     then case dropWhile isKeyChar w of
            d # _ \<Rightarrow> if d = COLON \<or> d = EQUALS then Some (i + 1 + length (takeWhile isKeyChar w)) else None
          | [] \<Rightarrow> None
     else None)"
proof -
  have d: "drop (Suc i) cs = w" using drop_shift [of i cs "[c]" w] assms by simp
  have t: "test_at p cs (run_end isKeyChar cs (i + 1)) =
      (case dropWhile isKeyChar w of [] \<Rightarrow> False | d # _ \<Rightarrow> p d)" for p
    by (simp add: test_at_drop drop_run_end d)
  have e: "run_end isKeyChar cs (i + 1) = i + 1 + length (takeWhile isKeyChar w)"
    by (simp add: run_end_def d)
  have "test_at isAsciiAlpha cs i = isAsciiAlpha c"
    using assms by (simp add: test_at_drop)
  then show ?thesis
    unfolding keyEnd_def Let_def t unfolding e
    by (cases "dropWhile isKeyChar w") (simp_all del: dropWhile_eq_Nil_conv)
qed

lemma keyEnd_key:
  assumes "drop i cs = k @ COLON # r" and "key_shaped k"
  shows "keyEnd cs i = Some (i + length k)"
proof -
  from assms(2) obtain c w where k: "k = c # w" "isAsciiAlpha c" "\<forall>x\<in>set w. isKeyChar x"
    by (cases k) (auto simp: key_shaped_def list_all_iff)
  have "takeWhile isKeyChar (w @ COLON # r) = w" "dropWhile isKeyChar (w @ COLON # r) = COLON # r"
    using k(3) by (auto simp: takeWhile_tail isKeyChar_def isAsciiAlpha_def isAsciiDigit_def)
  then show ?thesis
    using k assms(1) keyEnd_drop [of i cs c "w @ COLON # r"] by simp
qed

lemma space_not_key: "isFilterSpace c \<Longrightarrow> \<not> isKeyChar c"
  by (auto simp: isKeyChar_def isAsciiAlpha_def isAsciiDigit_def isFilterSpace_def)

lemma keyEnd_word:
  assumes "drop i cs = w @ r" and "keyEnd w 0 = None" and "w \<noteq> []" and "clear_after r"
  shows "keyEnd cs i = None"
proof -
  obtain c v where w: "w = c # v" using assms(3) by (cases w) auto
  have i: "drop i cs = c # v @ r" and z: "drop 0 w = c # v" using assms(1) w by simp_all
  show ?thesis
  proof (cases "dropWhile isKeyChar v")
    case Nil
    then have "dropWhile isKeyChar (v @ r) = dropWhile isKeyChar r" by (simp add: dropWhile_append)
    moreover have "dropWhile isKeyChar r = r"
      using assms(4) space_not_key by (cases r) (auto simp: clear_after_def)
    ultimately show ?thesis
      using assms(4) by (auto simp: keyEnd_drop [OF i] clear_after_def isFilterSpace_def split: list.split)
  next
    case (Cons d x)
    then have "\<not> (\<forall>c\<in>set v. isKeyChar c)" by (metis dropWhile_eq_Nil_conv list.distinct(1))
    with Cons have "dropWhile isKeyChar (v @ r) = d # x @ r" by (auto simp: dropWhile_append)
    then show ?thesis
      using assms(2) Cons by (auto simp: keyEnd_drop [OF i] keyEnd_drop [OF z] split: if_splits)
  qed
qed

definition op_text :: "filter_op \<Rightarrow> jstring" where
  "op_text op = (if op = OpEq then [] else spelling op)"

lemma drop_Suc_Cons: "drop i cs = c # r \<Longrightarrow> drop (Suc i) cs = r"
  by (metis drop_Suc list.sel(3) tl_drop)

lemma read_op_spelled:
  assumes "drop j cs = op_text op @ v" and "v \<noteq> []" and "hd v \<noteq> LESS" "hd v \<noteq> GREATER" "hd v \<noteq> EQUALS"
  shows "read_op cs j = (op, j + length (op_text op))"
proof -
  obtain c w where v: "v = c # w" using assms(2) by (cases v) auto
  show ?thesis
    using assms unfolding v
    by (cases op) (auto simp: read_op_def op_text_def at_opt_drop dest: drop_Suc_Cons)
qed

lemma minus_printed:
  assumes "drop i cs = minus_text neg @ b" and "b \<noteq> []" and "\<not> isFilterSpace (hd b)"
    and "neg \<or> hd b \<noteq> DASH"
  shows "minus_at cs i = neg" and "body_at cs i = i + length (minus_text neg)"
    and "drop (i + length (minus_text neg)) cs = b"
proof -
  obtain c w where b: "b = c # w" using assms(2) by (cases b) auto
  have i: "cs ! i = hd (minus_text neg @ b)"
    using assms(1,2) by (metis append_is_Nil_conv drop_eq_Nil hd_drop_conv_nth not_le)
  show "minus_at cs i = neg"
  proof (cases neg)
    case True
    then have "drop (Suc i) cs = b" using assms(1) by (auto simp: minus_text_def dest: drop_Suc_Cons)
    with True i assms(2,3) show ?thesis
      by (simp add: minus_at_def minus_text_def test_at_append)
  next
    case False
    with i assms(4) show ?thesis by (simp add: minus_at_def minus_text_def)
  qed
  then show "body_at cs i = i + length (minus_text neg)"
    by (simp add: body_at_def minus_text_def)
  show "drop (i + length (minus_text neg)) cs = b" using assms(1) by (rule drop_shift)
qed

lemma hd_code_points_ascii: "c < 0xD800 \<Longrightarrow> s \<noteq> [] \<Longrightarrow> hd (code_points s) = c \<longleftrightarrow> hd s = c"
  by (cases s rule: code_points.cases) (auto simp: high_surrogate_def)

lemma quote_in_points: "QUOTE \<in> set (code_points s) \<longleftrightarrow> QUOTE \<in> set s"
  by (induction s rule: code_points.induct)
    (auto simp: high_surrogate_def low_surrogate_def)

text \<open>A text that needs no quotes is read as it stands.\<close>

lemma unquoted_plain:
  assumes "\<not> needsQuotes v b"
  shows "\<forall>c\<in>set (code_points v). \<not> isFilterSpace c \<and> c \<noteq> QUOTE" and "v \<noteq> []"
  using assms quote_in_points [of v] by (auto simp: needsQuotes_def list_ex_iff)

lemma value_head:
  fixes r v :: "nat list"
  defines "x \<equiv> code_points (filterValueText v) @ r"
  shows "x \<noteq> []" and "hd x \<noteq> LESS" and "hd x \<noteq> GREATER" and "hd x \<noteq> EQUALS"
proof -
  have "code_points (filterValueText v) \<noteq> [] \<and> hd (code_points (filterValueText v)) \<notin> {LESS, GREATER, EQUALS}"
  proof (cases "needsQuotes v True")
    case True
    then show ?thesis by (simp add: filterValueText_def code_points_quoteFilterText)
  next
    case False
    then show ?thesis
      by (auto simp: filterValueText_def needsQuotes_def starts_with_def hd_code_points_ascii)
  qed
  then show "x \<noteq> []" "hd x \<noteq> LESS" "hd x \<noteq> GREATER" "hd x \<noteq> EQUALS" by (auto simp: x_def)
qed

lemma value_printed:
  assumes "drop j cs = code_points (filterValueText v) @ r" and "clear_after r" and "units_ok v"
  shows "(if test_at (\<lambda>c. c = QUOTE) cs j
          then case phrase cs j of
                 Inl e \<Rightarrow> Inl e
               | Inr (value, e) \<Rightarrow> (case boundary cs start e of Inl e \<Rightarrow> Inl e | Inr _ \<Rightarrow> Inr (value, e))
          else bare cs j) = Inr (v, j + length (code_points (filterValueText v)))"
proof (cases "needsQuotes v True")
  case True
  then have t: "filterValueText v = quoteFilterText v" by (simp add: filterValueText_def)
  have "test_at (\<lambda>c. c = QUOTE) cs j"
    using assms(1) by (simp add: t test_at_append code_points_quoteFilterText)
  moreover have "boundary cs start (j + length (code_points (quoteFilterText v))) = Inr ()"
    using assms(1,2) by (intro boundary_clear [of _ _ r] drop_shift) (simp_all add: t)
  ultimately show ?thesis using phrase_quoted [of j cs v r] assms(1,3) by (simp add: t)
next
  case False
  then have t: "filterValueText v = v" by (simp add: filterValueText_def)
  note plain = unquoted_plain [OF False]
  have "hd (code_points v @ r) \<noteq> QUOTE" using plain by (cases "code_points v") auto
  then have "\<not> test_at (\<lambda>c. c = QUOTE) cs j"
    using assms(1) by (simp add: t test_at_append)
  then show ?thesis
    using bare_plain [of j cs "code_points v" r] assms plain by (simp add: t join_code_points)
qed

text \<open>The items the parser can produce.\<close>

fun item_ok :: "bool \<Rightarrow> filter_item \<Rightarrow> bool" where
  "item_ok regex (TermItem t) \<longleftrightarrow> key_shaped (t_key t) \<and> units_ok (t_value t)"
| "item_ok regex (WordItem w) \<longleftrightarrow> units_ok (w_text w)"
| "item_ok regex (RegexItem r) \<longleftrightarrow>
     regex \<and> units_ok (r_pattern r) \<and> r_pattern r \<noteq> [] \<and>
     regex_chars (code_points (r_pattern r) @ [SLASH]) =
       Some (code_points (r_pattern r), length (code_points (r_pattern r)))"

text \<open>An item without the place it was read at.\<close>

fun unspan :: "filter_item \<Rightarrow> filter_item" where
  "unspan (TermItem t) = TermItem (t\<lparr>t_from := 0, t_to := 0\<rparr>)"
| "unspan (WordItem w) = WordItem (w\<lparr>w_from := 0, w_to := 0\<rparr>)"
| "unspan (RegexItem r) = RegexItem (r\<lparr>r_from := 0, r_to := 0\<rparr>)"

definition item_chars :: "bool \<Rightarrow> filter_item \<Rightarrow> nat list" where
  "item_chars regex it = code_points (item_text regex it)"

lemma code_points_ascii_append:
  "\<forall>u\<in>set a. u < 0xD800 \<Longrightarrow> code_points (a @ s) = a @ code_points s"
  by (induction a) (auto simp: code_points_Cons_ascii)

lemma minus_text_ascii: "u \<in> set (minus_text neg) \<Longrightarrow> u < 0xD800"
  by (auto simp: minus_text_def split: if_splits)

lemma op_text_ascii: "u \<in> set (op_text op) \<Longrightarrow> u < 0xD800"
  by (cases op) (auto simp: op_text_def)

lemma key_text_ascii: "key_shaped k \<Longrightarrow> u \<in> set k \<Longrightarrow> u < 0xD800"
  using key_char_ascii [of u] by (auto simp: key_shaped_def list_all_iff)

lemma code_points_minus: "code_points (minus_text neg @ s) = minus_text neg @ code_points s"
  by (rule code_points_ascii_append) (auto dest: minus_text_ascii)

lemma term_chars:
  assumes "key_shaped (t_key t)"
  shows "item_chars regex (TermItem t) =
    minus_text (t_negated t) @ t_key t @ COLON # op_text (t_op t) @ code_points (filterValueText (t_value t))"
proof -
  have "code_points (t_key t @ [COLON] @ op_text (t_op t) @ filterValueText (t_value t)) =
      (t_key t @ [COLON] @ op_text (t_op t)) @ code_points (filterValueText (t_value t))"
    using assms
    by (subst code_points_ascii_append [symmetric]) (auto dest: op_text_ascii key_text_ascii)
  then show ?thesis by (simp add: item_chars_def code_points_minus op_text_def)
qed

lemma key_not_sign: "key_shaped (c # k) \<Longrightarrow> \<not> isFilterSpace c \<and> c \<noteq> DASH \<and> c \<noteq> QUOTE \<and> c \<noteq> SLASH"
  by (auto simp: key_shaped_def isAsciiAlpha_def isFilterSpace_def)

lemma parse_term_printed:
  assumes "drop i cs = item_chars regex (TermItem t) @ r" and "clear_after r" and "item_ok regex (TermItem t)"
  shows "parse_item cs regex i =
    Inr (TermItem (t\<lparr>t_from := offset cs i, t_to := offset cs (i + length (item_chars regex (TermItem t)))\<rparr>),
         i + length (item_chars regex (TermItem t)))"
proof -
  let ?n = "t_negated t" and ?k = "t_key t" and ?v = "code_points (filterValueText (t_value t))"
  let ?b = "?k @ COLON # op_text (t_op t) @ ?v @ r" and ?at = "i + length (minus_text (t_negated t))"
  have k: "key_shaped ?k" and v: "units_ok (t_value t)" using assms(3) by auto
  then obtain c k' where ck: "?k = c # k'" by (cases ?k) (auto simp: key_shaped_def)
  have c: "\<not> isFilterSpace c" "c \<noteq> DASH" "c \<noteq> QUOTE" "c \<noteq> SLASH"
    using k key_not_sign [of c k'] ck by auto
  have "drop i cs = minus_text ?n @ ?b" using assms(1) k by (simp add: term_chars)
  note m = minus_printed [OF this]
  have body: "minus_at cs i = ?n" "body_at cs i = ?at" and b: "drop ?at cs = ?b"
    using m c ck by auto
  have sep: "keyEnd cs ?at = Some (?at + length ?k)" using keyEnd_key [OF b k] .
  have j: "drop (?at + length ?k + 1) cs = op_text (t_op t) @ ?v @ r"
    using drop_shift [OF b] by (auto dest: drop_Suc_Cons)
  note op = read_op_spelled [OF j value_head]
  have "drop (?at + length ?k + 1 + length (op_text (t_op t))) cs = ?v @ r"
    using drop_shift [OF j] .
  note val = value_printed [OF this assms(2) v]
  have key: "join_points (slice cs ?at (?at + length ?k)) = ?k"
    using b key_shaped_points(2) [OF k] by (simp add: slice_def)
  have "term_at cs i ?at (?at + length ?k) ?n =
      Inr (t\<lparr>t_from := offset cs i, t_to := offset cs (i + length (item_chars regex (TermItem t)))\<rparr>,
        i + length (item_chars regex (TermItem t)))"
    unfolding term_at_def Let_def op using val key k
    by (simp add: term_chars add.assoc cong: if_cong)
  then show ?thesis
    unfolding parse_item_def Let_def body using b sep ck c by (simp add: test_at_append)
qed

lemma parse_word_printed:
  assumes "drop i cs = item_chars regex (WordItem w) @ r" and "clear_after r" and "item_ok regex (WordItem w)"
  shows "parse_item cs regex i =
    Inr (WordItem (w\<lparr>w_from := offset cs i, w_to := offset cs (i + length (item_chars regex (WordItem w)))\<rparr>),
         i + length (item_chars regex (WordItem w)))"
proof -
  let ?n = "w_negated w" and ?t = "w_text w" and ?at = "i + length (minus_text (w_negated w))"
  have t: "units_ok ?t" using assms(3) by simp
  show ?thesis
  proof (cases "wordText w regex = quoteFilterText ?t")
    case True
    let ?q = "code_points (quoteFilterText ?t)"
    have chars: "item_chars regex (WordItem w) = minus_text ?n @ ?q"
      by (simp add: item_chars_def True code_points_minus)
    with assms(1) have "drop i cs = minus_text ?n @ ?q @ r" by simp
    note m = minus_printed [OF this]
    have body: "minus_at cs i = ?n" "body_at cs i = ?at" and b: "drop ?at cs = ?q @ r"
      using m by (auto simp: code_points_quoteFilterText isFilterSpace_def)
    have "boundary cs i (?at + length ?q) = Inr ()"
      using boundary_clear [OF drop_shift [OF b] assms(2)] .
    then show ?thesis
      unfolding parse_item_def Let_def body chars using phrase_quoted [OF b t] b
      by (simp add: test_at_append code_points_quoteFilterText add.assoc)
  next
    case False
    then have w: "wordText w regex = ?t" "\<not> needsQuotes ?t False" "?n \<or> \<not> starts_with DASH ?t"
        "\<not> (regex \<and> starts_with SLASH ?t)" "keyEnd (code_points ?t) 0 = None"
      by (auto simp: wordText_def Let_def split: if_splits)
    note plain = unquoted_plain [OF w(2)]
    then have hd: "hd (code_points ?t @ r) = hd (code_points ?t)" by (cases "code_points ?t") auto
    have first: "\<not> isFilterSpace (hd (code_points ?t))" "hd (code_points ?t) \<noteq> QUOTE"
      using plain by (metis code_points_nonempty hd_in_set)+
    have chars: "item_chars regex (WordItem w) = minus_text ?n @ code_points ?t"
      by (simp add: item_chars_def w(1) code_points_minus)
    with assms(1) have "drop i cs = minus_text ?n @ code_points ?t @ r" by simp
    note m = minus_printed [OF this]
    have body: "minus_at cs i = ?n" "body_at cs i = ?at" and b: "drop ?at cs = code_points ?t @ r"
      using m plain first w(3) by (auto simp: hd starts_with_def hd_code_points_ascii)
    have "\<not> (test_at (\<lambda>c. c = SLASH) cs ?at \<and> regex)" "\<not> test_at (\<lambda>c. c = QUOTE) cs ?at"
      using w(4) first plain by (auto simp: test_at_append [OF b] hd starts_with_def hd_code_points_ascii)
    then show ?thesis
      unfolding parse_item_def Let_def body chars
      using bare_plain [OF b plain(1) assms(2)] keyEnd_word [OF b w(5) _ assms(2)] plain(2) t
      by (auto simp: join_code_points add.assoc)
  qed
qed

lemma regex_chars_append: "regex_chars xs = Some (t, n) \<Longrightarrow> regex_chars (xs @ ys) = Some (t, n)"
proof (induction xs arbitrary: t n rule: regex_chars.induct)
  case (2 c r)
  consider "c = SLASH" | d r' where "c = BACKSLASH" "r = d # r'" | "c \<noteq> SLASH" "c \<noteq> BACKSLASH \<or> r = []"
    by (cases r) auto
  then show ?case
  proof cases
    case 2
    with "2.prems" "2.IH"(1) show ?thesis by (auto simp: regex_chars_escaped)
  next
    case 3
    with "2.prems" have r: "r \<noteq> []" by (auto simp: regex_chars_plain)
    with 3 have c: "c \<noteq> BACKSLASH" by simp
    with 3 r have "regex_chars r = Some (t', n') \<Longrightarrow> regex_chars (r @ ys) = Some (t', n')" for t' n'
      using "2.IH"(2) by (cases r) auto
    with "2.prems" 3 c show ?thesis by (auto simp: regex_chars_plain)
  qed (use "2.prems" in \<open>simp add: regex_chars_slash\<close>)
qed simp

lemma parse_regex_printed:
  assumes "drop i cs = item_chars regex (RegexItem x) @ r" and "clear_after r" and "item_ok regex (RegexItem x)"
  shows "parse_item cs regex i =
    Inr (RegexItem (x\<lparr>r_from := offset cs i, r_to := offset cs (i + length (item_chars regex (RegexItem x)))\<rparr>),
         i + length (item_chars regex (RegexItem x)))"
proof -
  let ?n = "r_negated x" and ?p = "code_points (r_pattern x)" and ?at = "i + length (minus_text (r_negated x))"
  let ?f = "if r_caseInsensitive x then [105 :: nat] else []"
  have x: regex "units_ok (r_pattern x)" "r_pattern x \<noteq> []" "regex_chars (?p @ [SLASH]) = Some (?p, length ?p)"
    using assms(3) by auto
  have chars: "item_chars regex (RegexItem x) = minus_text ?n @ SLASH # ?p @ SLASH # ?f"
    by (simp add: item_chars_def code_points_minus code_points_Cons_ascii code_points_snoc_ascii)
  with assms(1) have "drop i cs = minus_text ?n @ SLASH # ?p @ SLASH # ?f @ r" by simp
  note m = minus_printed [OF this]
  have body: "minus_at cs i = ?n" "body_at cs i = ?at" and b: "drop ?at cs = SLASH # ?p @ SLASH # ?f @ r"
    using m by (auto simp: isFilterSpace_def)
  have d: "drop (Suc ?at) cs = ?p @ SLASH # ?f @ r" using drop_Suc_Cons [OF b] .
  have "regex_loop cs (Suc ?at) [] = Some (r_pattern x, Suc ?at + length ?p)"
    using regex_chars_append [OF x(4), of "?f @ r"]
    by (simp add: regex_loop_chars d join_code_points x(2))
  moreover have e: "drop (Suc ?at + length ?p + 1) cs = ?f @ r"
    using drop_shift [OF d] by (auto dest: drop_Suc_Cons)
  have "test_at (\<lambda>c. c = 105) cs (Suc ?at + length ?p + 1) \<longleftrightarrow> r_caseInsensitive x"
    unfolding test_at_append [OF e] using assms(2) by (auto simp: clear_after_def isFilterSpace_def)
  moreover have "\<not> test_at (\<lambda>c. \<not> isFilterSpace c) cs (Suc ?at + length ?p + 1 + length ?f)"
    unfolding test_at_append [OF drop_shift [OF e]] using assms(2) by (auto simp: clear_after_def)
  ultimately have "regexItem cs i ?at =
      Inr (r_pattern x, r_caseInsensitive x, i + length (item_chars regex (RegexItem x)))"
    using x(3) unfolding regexItem_def chars Let_def
    by (cases "r_caseInsensitive x") (simp_all add: add.assoc)
  then show ?thesis
    unfolding parse_item_def Let_def body using b x(1) by (simp add: test_at_append)
qed

lemma parse_item_printed:
  assumes "drop i cs = item_chars regex it @ r" and "clear_after r" and "item_ok regex it"
  obtains it' where "parse_item cs regex i = Inr (it', i + length (item_chars regex it))"
    and "unspan it' = unspan it"
proof (cases it)
  case (TermItem t)
  with parse_term_printed [of i cs regex t r] assms that show thesis by force
next
  case (WordItem w)
  with parse_word_printed [of i cs regex w r] assms that show thesis by force
next
  case (RegexItem x)
  with parse_regex_printed [of i cs regex x r] assms that show thesis by force
qed

subsection \<open>Places\<close>

lemma utf16_from_nth:
  "i \<le> length cs \<Longrightarrow> utf16_from n cs ! i = n + length (join_points (take i cs))"
proof (induction cs arbitrary: n i)
  case (Cons c cs)
  then show ?case by (cases i) (auto simp: join_points_Cons)
qed simp

lemma length_utf16_from [simp]: "length (utf16_from n cs) = Suc (length cs)"
  by (induction cs arbitrary: n) auto

lemma offset_points: "i \<le> length cs \<Longrightarrow> offset cs i = length (join_points (take i cs))"
  by (simp add: offset_def at_opt_def utf16_from_nth)

lemma offset_less:
  assumes "i < j" and "j \<le> length cs"
  shows "offset cs i < offset cs j"
proof -
  have "take j cs = take i cs @ slice cs i j"
    using assms by (metis slice_def le_add_diff_inverse less_imp_le take_add)
  moreover have "0 < length (join_points (slice cs i j))"
    using assms by (cases "slice cs i j") (auto simp: join_points_Cons units_of_def slice_def)
  ultimately show ?thesis using assms by (simp add: offset_points)
qed

lemma offset_mono: "i \<le> j \<Longrightarrow> j \<le> length cs \<Longrightarrow> offset cs i \<le> offset cs j"
  using offset_less [of i j cs] by (cases "i = j") auto

lemma offset_end: "units_ok text \<Longrightarrow> offset (code_points text) (length (code_points text)) = length text"
  by (simp add: offset_points join_code_points)

lemma offset_0 [simp]: "offset cs 0 = 0"
  by (simp add: offset_points)

fun item_to :: "filter_item \<Rightarrow> nat" where
  "item_to (TermItem t) = t_to t"
| "item_to (WordItem w) = w_to w"
| "item_to (RegexItem r) = r_to r"

definition item_span :: "filter_item \<Rightarrow> nat \<times> nat" where
  "item_span it = (item_from it, item_to it)"

lemma item_span_simps [simp]: "fst (item_span it) = item_from it" "snd (item_span it) = item_to it"
  by (simp_all add: item_span_def)

lemma term_at_span:
  "term_at cs start i sep neg = Inr (t, e) \<Longrightarrow> t_from t = offset cs start \<and> t_to t = offset cs e"
  by (cases "read_op cs (sep + 1)") (auto elim!: term_at_cases)

lemma parse_item_span:
  "parse_item cs regex i = Inr (it, e) \<Longrightarrow> item_from it = offset cs i \<and> item_to it = offset cs e"
  by (erule parse_item_cases) (auto dest: term_at_span)

subsection \<open>The whole text\<close>

lemma item_chars_head:
  assumes "item_ok regex it"
  shows "item_chars regex it \<noteq> []" and "\<not> isFilterSpace (hd (item_chars regex it))"
proof -
  have "\<exists>c r. item_chars regex it = c # r \<and> \<not> isFilterSpace c"
  proof (cases it)
    case (TermItem t)
    with assms obtain c k where "t_key t = c # k" "key_shaped (c # k)"
      by (cases "t_key t") (auto simp: key_shaped_def)
    with TermItem assms show ?thesis
      using key_not_sign [of c k] by (auto simp: term_chars minus_text_def isFilterSpace_def)
  next
    case (WordItem w)
    have "wordText w regex = quoteFilterText (w_text w) \<or>
        wordText w regex = w_text w \<and> \<not> needsQuotes (w_text w) False"
      by (auto simp: wordText_def Let_def)
    then have "\<exists>c r. code_points (wordText w regex) = c # r \<and> \<not> isFilterSpace c"
    proof
      assume "wordText w regex = w_text w \<and> \<not> needsQuotes (w_text w) False"
      with unquoted_plain [of "w_text w" False] show ?thesis
        by (cases "code_points (w_text w)") auto
    qed (simp add: code_points_quoteFilterText isFilterSpace_def)
    with WordItem show ?thesis
      by (auto simp: item_chars_def code_points_Cons_ascii minus_text_def isFilterSpace_def)
  next
    case (RegexItem x)
    then show ?thesis
      by (auto simp: item_chars_def code_points_minus code_points_Cons_ascii minus_text_def
          isFilterSpace_def)
  qed
  then show "item_chars regex it \<noteq> []" "\<not> isFilterSpace (hd (item_chars regex it))" by auto
qed

lemma code_points_join_spaced: "code_points (join_spaced ss) = join_spaced (map code_points ss)"
  by (induction ss rule: join_spaced.induct) (auto simp: code_points_snoc_ascii)

lemma join_spaced_Cons:
  "join_spaced (s # ss) = s @ (if ss = [] then [] else 32 # join_spaced ss)"
  by (cases ss) auto

lemma parse_loop_printed:
  assumes "drop i cs = sp @ join_spaced (map (item_chars regex) its)" and "sp = [] \<or> sp = [32]"
    and "list_all (item_ok regex) its" and "its = [] \<Longrightarrow> sp = []"
    and "i \<le> length cs"
  shows "\<exists>its'. parse_loop cs regex i q = Inr (fold push_item its' q) \<and> map unspan its' = map unspan its \<and>
    spans_in (offset cs i) (offset cs (length cs)) (map item_span its')"
  using assms
proof (induction its arbitrary: i sp q)
  case Nil
  then have "run_end isFilterSpace cs i = i" "\<not> i < length cs" by (auto simp: run_end_def)
  then have "parse_loop cs regex i q = Inr q" by (simp add: parse_loop.simps [of cs regex i])
  with Nil show ?case by (intro exI [of _ "[]"]) simp
next
  case (Cons it its)
  let ?s = "i + length sp" and ?x = "item_chars regex it"
  let ?r = "if its = [] then [] else 32 # join_spaced (map (item_chars regex) its)"
  have ok: "item_ok regex it" "list_all (item_ok regex) its" using Cons.prems(3) by auto
  have i: "drop i cs = sp @ ?x @ ?r"
    using Cons.prems(1) by (simp add: join_spaced_Cons)
  have s: "drop ?s cs = ?x @ ?r" using drop_shift [OF i] .
  have "run_end isFilterSpace cs i = ?s"
    using run_end_append [OF i, of isFilterSpace] Cons.prems(2) item_chars_head [OF ok(1)]
    by (auto simp: isFilterSpace_def)
  moreover have "?s < length cs" "\<not> isFilterSpace (cs ! ?s)"
    using s item_chars_head [OF ok(1)]
      test_at_append [OF s, of "\<lambda>c. \<not> isFilterSpace c"] by (auto simp: test_at_def)
  moreover have "clear_after ?r" by (simp add: clear_after_def isFilterSpace_def)
  then obtain it' where it': "parse_item cs regex ?s = Inr (it', ?s + length ?x)" "unspan it' = unspan it"
    using parse_item_printed [OF s _ ok(1)] by blast
  ultimately have step: "parse_loop cs regex i q = parse_loop cs regex (?s + length ?x) (push_item it' q)"
    by (simp add: parse_loop.simps [of cs regex i] del: append_is_Nil_conv)
  have "drop (?s + length ?x) cs = (if its = [] then [] else [32]) @ join_spaced (map (item_chars regex) its)"
    using drop_shift [OF s] by auto
  moreover have e: "?s < ?s + length ?x" "?s + length ?x \<le> length cs"
    using parse_item_gt [OF it'(1)] \<open>?s < length cs\<close> \<open>\<not> isFilterSpace (cs ! ?s)\<close> by auto
  ultimately obtain its' where its':
    "parse_loop cs regex (?s + length ?x) (push_item it' q) = Inr (fold push_item its' (push_item it' q))"
    "map unspan its' = map unspan its" "spans_in (offset cs (?s + length ?x)) (offset cs (length cs)) (map item_span its')"
    using Cons.IH [of "?s + length ?x" "if its = [] then [] else [32]" "push_item it' q"] ok(2)
    by (cases "its = []") auto
  have "offset cs i \<le> offset cs ?s" using e by (intro offset_mono) auto
  with step it'(2) its' parse_item_span [OF it'(1)] offset_less [OF e] show ?case
    by (intro exI [of _ "it' # its'"]) simp
qed

text \<open>A query as the list of its items, and back.\<close>

fun terms_of :: "filter_item list \<Rightarrow> filter_term list" where
  "terms_of [] = []"
| "terms_of (TermItem t # its) = t # terms_of its"
| "terms_of (_ # its) = terms_of its"

fun words_of :: "filter_item list \<Rightarrow> filter_word list" where
  "words_of [] = []"
| "words_of (WordItem w # its) = w # words_of its"
| "words_of (_ # its) = words_of its"

fun regexes_of :: "filter_item list \<Rightarrow> filter_regex list" where
  "regexes_of [] = []"
| "regexes_of (RegexItem r # its) = r # regexes_of its"
| "regexes_of (_ # its) = regexes_of its"

definition of_items :: "filter_item list \<Rightarrow> filter_query" where
  "of_items its = \<lparr>q_terms = terms_of its, q_words = words_of its, q_regexes = regexes_of its\<rparr>"

lemma fold_push_item:
  "fold push_item its q = \<lparr>q_terms = q_terms q @ terms_of its, q_words = q_words q @ words_of its,
     q_regexes = q_regexes q @ regexes_of its\<rparr>"
proof (induction its arbitrary: q)
  case (Cons it its)
  then show ?case by (cases it) auto
qed simp

lemma parse_loop_items: "fold push_item its \<lparr>q_terms = [], q_words = [], q_regexes = []\<rparr> = of_items its"
  by (simp add: fold_push_item of_items_def)

definition unspan_query :: "filter_query \<Rightarrow> filter_query" where
  "unspan_query q =
     \<lparr>q_terms = map (\<lambda>t. t\<lparr>t_from := 0, t_to := 0\<rparr>) (q_terms q),
      q_words = map (\<lambda>w. w\<lparr>w_from := 0, w_to := 0\<rparr>) (q_words q),
      q_regexes = map (\<lambda>r. r\<lparr>r_from := 0, r_to := 0\<rparr>) (q_regexes q)\<rparr>"

lemma unspan_of_items: "unspan_query (of_items its) = of_items (map unspan its)"
proof (induction its)
  case (Cons it its)
  then show ?case by (cases it) (auto simp: unspan_query_def of_items_def)
qed (simp add: unspan_query_def of_items_def)

lemma mset_of_items: "mset (query_items (of_items its)) = mset its"
proof (induction its)
  case (Cons it its)
  then show ?case by (cases it) (auto simp: query_items_def of_items_def)
qed (simp add: query_items_def of_items_def)

text \<open>The items in the order their texts start, which is the order they are printed in.\<close>

definition in_order :: "filter_query \<Rightarrow> filter_item list" where
  "in_order q = sort_key item_from (query_items q)"

definition query_ok :: "bool \<Rightarrow> filter_query \<Rightarrow> bool" where
  "query_ok regex q \<longleftrightarrow> list_all (item_ok regex) (query_items q)"

lemma in_order_of_items:
  assumes "spans_in lo hi (map item_span its)"
  shows "in_order (of_items its) = its"
proof -
  have "sorted_wrt (<) (map item_from its)"
    using spans_in_sorted [OF assms] by (simp add: comp_def)
  then have "sorted (map item_from its)" "distinct (map item_from its)"
    by (simp_all add: strict_sorted_iff)
  then show ?thesis
    unfolding in_order_def using mset_of_items [of its]
    by (intro sort_key_inj_key_eq) (auto simp: distinct_map dest: mset_eq_setD)
qed

lemma parse_printed:
  assumes "query_ok regex q"
  obtains its' where "parseFilter (printFilter q regex) regex = Inr (of_items its')"
    and "map unspan its' = map unspan (in_order q)" and "in_order (of_items its') = its'"
proof -
  have "list_all (item_ok regex) (in_order q)"
    using assms by (simp add: query_ok_def in_order_def list_all_iff)
  moreover have "drop 0 (code_points (printFilter q regex)) =
      [] @ join_spaced (map (item_chars regex) (in_order q))"
    by (simp add: printFilter_def code_points_join_spaced in_order_def item_chars_def [abs_def] comp_def)
  ultimately show thesis
    using parse_loop_printed [of 0 "code_points (printFilter q regex)" "[]" regex "in_order q"
        "\<lparr>q_terms = [], q_words = [], q_regexes = []\<rparr>"] that
    by (auto simp: parseFilter_def parse_def parse_loop_items dest: in_order_of_items)
qed

section \<open>What the parser answers\<close>

subsection \<open>Every item the parser produces can be printed\<close>

lemma phrase_chars_subset: "phrase_chars xs = Some (t, n) \<Longrightarrow> set t \<subseteq> set xs"
proof (induction xs arbitrary: t n rule: phrase_chars.induct)
  case (2 c r)
  consider "c = QUOTE" | d r' where "c = BACKSLASH" "r = d # r'" "d = QUOTE \<or> d = BACKSLASH"
    | "c \<noteq> QUOTE" "c = BACKSLASH \<Longrightarrow> r \<noteq> [] \<Longrightarrow> hd r \<noteq> QUOTE \<and> hd r \<noteq> BACKSLASH"
    by (cases r) auto
  then show ?case
  proof cases
    case 2
    with "2.prems" "2.IH"(1) show ?thesis by (fastforce simp: phrase_chars_escaped)
  next
    case 3
    with "2.prems" obtain t' n' where t': "phrase_chars r = Some (t', n')" "t = c # t'"
      by (auto simp: phrase_chars_plain)
    then obtain d r' where "r = d # r'" by (cases r) auto
    with "2.IH"(2) 3 t' have "set t' \<subseteq> set r" by auto
    with t'(2) show ?thesis by auto
  qed (use "2.prems" in \<open>simp add: phrase_chars_quote\<close>)
qed simp

lemma regex_chars_answer:
  "regex_chars xs = Some (t, n) \<Longrightarrow> n = length t \<and> take n xs = t \<and> regex_chars (t @ [SLASH]) = Some (t, n)"
proof (induction xs arbitrary: t n rule: regex_chars.induct)
  case (2 c r)
  consider "c = SLASH" | d r' where "c = BACKSLASH" "r = d # r'" | "c \<noteq> SLASH" "c \<noteq> BACKSLASH \<or> r = []"
    by (cases r) auto
  then show ?case
  proof cases
    case 2
    with "2.prems" "2.IH"(1) show ?thesis by (fastforce simp: regex_chars_escaped)
  next
    case 3
    with "2.prems" obtain t' n' where t': "regex_chars r = Some (t', n')" "t = c # t'" "n = Suc n'"
      by (auto simp: regex_chars_plain)
    then obtain d r' where r: "r = d # r'" by (cases r) auto
    with 3 have c: "c \<noteq> BACKSLASH" by simp
    with "2.IH"(2) 3 t'(1) r have "n' = length t' \<and> take n' r = t' \<and> regex_chars (t' @ [SLASH]) = Some (t', n')"
      by auto
    with t' 3 c show ?thesis by (auto simp: regex_chars_plain)
  qed (use "2.prems" in \<open>auto simp: regex_chars_slash\<close>)
qed simp

lemma phrase_units: "no_pairs cs \<Longrightarrow> phrase cs i = Inr (v, e) \<Longrightarrow> units_ok v"
proof -
  assume cs: "no_pairs cs" and "phrase cs i = Inr (v, e)"
  then obtain t n where "phrase_chars (drop (i + 1) cs) = Some (t, n)" "v = join_points t"
    by (auto simp: phrase_def phrase_loop_chars split: option.splits)
  then show ?thesis
    using phrase_chars_subset [of _ t n] no_pairs_range [OF cs] in_set_dropD
    by (metis subsetD units_ok_join)
qed

lemma bare_units: "no_pairs cs \<Longrightarrow> bare cs i = Inr (v, e) \<Longrightarrow> units_ok v"
  using no_pairs_range [OF no_pairs_slice]
  by (auto simp: bare_def Let_def intro!: units_ok_join split: if_splits)

lemma key_of_keyEnd: "keyEnd cs i = Some e \<Longrightarrow> key_shaped (slice cs i e)"
proof -
  assume k: "keyEnd cs i = Some e"
  then have i: "i < length cs" using keyEnd_gt [OF k] by simp
  let ?w = "drop (Suc i) cs"
  have d: "drop i cs = cs ! i # ?w" using i by (simp add: Cons_nth_drop_Suc)
  have e: "e = i + 1 + length (takeWhile isKeyChar ?w)" and a: "isAsciiAlpha (cs ! i)"
    using k by (auto simp: keyEnd_drop [OF d] split: if_splits list.splits)
  have "slice cs i e = cs ! i # takeWhile isKeyChar ?w"
    by (simp add: slice_def d e takeWhile_eq_take [symmetric])
  with a show ?thesis
    by (auto simp: key_shaped_def list_all_iff isKeyChar_def dest: set_takeWhileD)
qed

lemma term_at_ok:
  assumes "term_at cs start i sep neg = Inr (t, e)" and "keyEnd cs i = Some sep" and "no_pairs cs"
  shows "item_ok regex (TermItem t)"
proof -
  obtain p j where r: "read_op cs (sep + 1) = (p, j)" by (cases "read_op cs (sep + 1)")
  note key = key_of_keyEnd [OF assms(2)]
  with assms(1) r show ?thesis
    by (cases rule: term_at_cases)
      (auto simp: key_shaped_points dest: phrase_units [OF assms(3)] bare_units [OF assms(3)])
qed

lemma regexItem_ok:
  assumes "regexItem cs start i = Inr (v, ci, e)" and "no_pairs cs"
  shows "v \<noteq> [] \<and> units_ok v \<and> regex_chars (code_points v @ [SLASH]) = Some (code_points v, length (code_points v))"
proof -
  from assms(1) obtain t n where t: "regex_chars (drop (i + 1) cs) = Some (t, n)" "v = join_points t" "v \<noteq> []"
    by (auto simp: regexItem_def Let_def regex_loop_chars split: option.splits if_splits)
  note ans = regex_chars_answer [OF t(1)]
  then have "t = slice cs (i + 1) (i + 1 + n)" by (auto simp: slice_def)
  then have "no_pairs t" using no_pairs_slice [OF assms(2)] by simp
  then show ?thesis
    using t ans by (simp add: code_points_join units_ok_join no_pairs_range)
qed

lemma parse_item_ok:
  assumes "parse_item cs regex i = Inr (it, e)" and "no_pairs cs"
  shows "item_ok regex it"
  using assms(1)
proof (cases rule: parse_item_cases)
  case (keyed t sep)
  with term_at_ok [OF keyed(4,3) assms(2)] show ?thesis by simp
next
  case (regex v ci)
  with regexItem_ok [OF regex(4) assms(2)] show ?thesis by simp
qed (use phrase_units [OF assms(2)] bare_units [OF assms(2)] in auto)

text \<open>The items in the order the parser pushed them.\<close>

lemma parse_loop_answer:
  assumes "parse_loop cs regex i q = Inr q'" and "no_pairs cs" and "i \<le> length cs"
  obtains its where "q' = fold push_item its q" and "list_all (item_ok regex) its"
    and "spans_in (offset cs i) (offset cs (length cs)) (map item_span its)"
  using assms
proof (induction cs regex i q arbitrary: q' thesis rule: parse_loop.induct)
  case (1 cs regex i q)
  let ?s = "run_end isFilterSpace cs i"
  have s: "i \<le> ?s" "?s \<le> length cs" using "1.prems"(4) by simp_all
  show ?case
  proof (cases "?s < length cs")
    case False
    with "1.prems"(2) have "q' = q" by (simp add: parse_loop.simps [of cs regex i])
    moreover have "offset cs i \<le> offset cs (length cs)" using "1.prems"(4) by (rule offset_mono) simp
    ultimately show ?thesis by (intro "1.prems"(1) [of "[]"]) simp_all
  next
    case True
    with "1.prems"(2) obtain it e where it: "parse_item cs regex ?s = Inr (it, e)"
        "parse_loop cs regex e (push_item it q) = Inr q'"
      by (auto simp: parse_loop.simps [of cs regex i] Let_def split: sum.splits)
    have e: "?s < e" "e \<le> length cs"
      using parse_item_gt [OF it(1) True run_end_stop [OF True]] by auto
    obtain its where its: "q' = fold push_item its (push_item it q)" "list_all (item_ok regex) its"
        "spans_in (offset cs e) (offset cs (length cs)) (map item_span its)"
      using "1.IH" [OF refl True it(1) refl _ it(2) "1.prems"(3) e(2)] by blast
    show ?thesis
    proof (rule "1.prems"(1) [of "it # its"])
      show "list_all (item_ok regex) (it # its)"
        using its(2) parse_item_ok [OF it(1) "1.prems"(3)] by simp
      show "spans_in (offset cs i) (offset cs (length cs)) (map item_span (it # its))"
        using its(3) parse_item_span [OF it(1)] offset_less [OF e] offset_mono [OF s] by simp
    qed (simp add: its(1))
  qed
qed

lemma parse_answer:
  assumes "parseFilter text regex = Inr q" and "units_ok text"
  obtains its where "q = of_items its" and "list_all (item_ok regex) its"
    and "spans_in 0 (length text) (map item_span its)" and "in_order q = its"
proof -
  let ?cs = "code_points text"
  have "parse_loop ?cs regex 0 \<lparr>q_terms = [], q_words = [], q_regexes = []\<rparr> = Inr q"
    using assms(1) by (simp add: parseFilter_def parse_def)
  from parse_loop_answer [OF this no_pairs_code_points [OF assms(2)] le0] obtain its where
    its: "q = of_items its" "list_all (item_ok regex) its" "spans_in 0 (length text) (map item_span its)"
    using offset_end [OF assms(2)] by (metis offset_0 parse_loop_items)
  have "in_order q = its" unfolding its(1) by (rule in_order_of_items [OF its(3)])
  with its that show thesis by blast
qed

lemma parse_query_ok: "parseFilter text regex = Inr q \<Longrightarrow> units_ok text \<Longrightarrow> query_ok regex q"
proof -
  assume "parseFilter text regex = Inr q" "units_ok text"
  then obtain its where "q = of_items its" "list_all (item_ok regex) its" by (rule parse_answer)
  then show ?thesis
    using mset_eq_setD [OF mset_of_items [of its]] by (simp add: query_ok_def list_all_iff)
qed

lemma item_text_unspan: "item_text regex (unspan it) = item_text regex it"
  by (cases it) (simp_all add: wordText_def)

subsection \<open>Refusals\<close>

definition error_in :: "nat list \<Rightarrow> filter_error \<Rightarrow> bool" where
  "error_in cs e \<longleftrightarrow> e_from e < e_to e \<and> e_to e \<le> offset cs (length cs)"

lemma refuse_in: "i < j \<Longrightarrow> j \<le> length cs \<Longrightarrow> error_in cs (refuse cs m i j)"
  by (simp add: error_in_def refuse_def offset_less offset_mono)

lemma runEnd_bounds:
  "test_at (\<lambda>c. \<not> isFilterSpace c) cs i \<Longrightarrow> i < runEnd cs i \<and> runEnd cs i \<le> length cs"
  by (auto simp: test_at_def runEnd_def intro: run_end_gt)

lemma runEnd_le: "i \<le> length cs \<Longrightarrow> runEnd cs i \<le> length cs"
  by (simp add: runEnd_def)

lemma boundary_error: "boundary cs s e = Inl x \<Longrightarrow> s \<le> e \<Longrightarrow> error_in cs x"
  using runEnd_bounds [of cs e] by (auto simp: boundary_def intro!: refuse_in split: if_splits)

lemma phrase_error: "phrase cs i = Inl x \<Longrightarrow> i < length cs \<Longrightarrow> error_in cs x"
  by (auto simp: phrase_def intro!: refuse_in split: option.splits)

lemma bare_error: "bare cs i = Inl x \<Longrightarrow> i \<le> length cs \<Longrightarrow> error_in cs x"
  using runEnd_le [of i cs] by (auto simp: bare_def Let_def intro!: refuse_in split: if_splits)

lemma regexItem_error:
  "regexItem cs s i = Inl x \<Longrightarrow> s \<le> i \<Longrightarrow> test_at (\<lambda>c. \<not> isFilterSpace c) cs i \<Longrightarrow> error_in cs x"
  using runEnd_bounds [of cs i]
  by (auto simp: regexItem_def Let_def intro!: refuse_in split: option.splits if_splits)

lemma quoted_error:
  assumes "(case phrase cs i of
      Inl e \<Rightarrow> Inl e
    | Inr (v, e) \<Rightarrow> (case boundary cs s e of Inl e \<Rightarrow> Inl e | Inr _ \<Rightarrow> Inr (f v e))) = Inl x"
    and "s \<le> i" and "i < length cs"
  shows "error_in cs x"
proof (cases "phrase cs i")
  case (Inl y)
  with assms phrase_error [of cs i y] show ?thesis by simp
next
  case (Inr p)
  obtain v e where p: "p = (v, e)" by (cases p)
  with Inr have "s \<le> e" using phrase_ge [of cs i v e] assms(2) by simp
  with Inr p assms(1) boundary_error [of cs s e] show ?thesis by (auto split: sum.splits)
qed

lemma term_at_error:
  assumes "term_at cs s i sep neg = Inl x" and "s \<le> sep" and "sep < length cs"
  shows "error_in cs x"
proof -
  obtain p j where r: "read_op cs (sep + 1) = (p, j)" by (cases "read_op cs (sep + 1)")
  then have j: "s \<le> j" "j \<le> length cs" using read_op_ge [OF r] assms(2,3) by auto
  show ?thesis
  proof (cases "test_at (\<lambda>c. c = QUOTE) cs j")
    case True
    then have "j < length cs" by (simp add: test_at_def)
    with True r assms(1) j show ?thesis
      by (intro quoted_error [where cs = cs and i = j and s = s and f = "\<lambda>v e. (v, e)"])
        (auto simp: term_at_def split: sum.splits prod.splits)
  next
    case False
    with r assms(1) bare_error [of cs j x] j show ?thesis
      by (auto simp: term_at_def split: sum.splits)
  qed
qed

lemma parse_item_error:
  assumes "parse_item cs regex i = Inl x" and "i < length cs" and "\<not> isFilterSpace (cs ! i)"
  shows "error_in cs x"
proof -
  let ?at = "body_at cs i" and ?n = "minus_at cs i"
  have at: "test_at (\<lambda>c. \<not> isFilterSpace c) cs ?at" "i \<le> ?at" "?at < length cs"
    using assms(2,3) by (auto simp: test_at_def body_at_def minus_at_def)
  note def = parse_item_def Let_def
  consider (quote) "test_at (\<lambda>c. c = QUOTE) cs ?at"
    | (regex) "\<not> test_at (\<lambda>c. c = QUOTE) cs ?at" "test_at (\<lambda>c. c = SLASH) cs ?at \<and> regex"
    | (other) "\<not> test_at (\<lambda>c. c = QUOTE) cs ?at" "\<not> (test_at (\<lambda>c. c = SLASH) cs ?at \<and> regex)"
    by blast
  then show ?thesis
  proof cases
    case quote
    with assms(1) at show ?thesis
      by (intro quoted_error [where cs = cs and i = ?at and s = i and f = "\<lambda>v e. (WordItem \<lparr>w_text = v, w_negated = ?n,
            w_from = offset cs i, w_to = offset cs e\<rparr>, e)"]) (simp_all add: def)
  next
    case regex
    with assms(1) regexItem_error [OF _ at(2,1), of x] show ?thesis
      by (auto simp: def split: sum.splits)
  next
    case other
    show ?thesis
    proof (cases "keyEnd cs ?at")
      case None
      with other assms(1) bare_error [of cs ?at x] at show ?thesis
        by (auto simp: def split: sum.splits)
    next
      case (Some sep)
      with other assms(1) term_at_error [of cs i ?at sep ?n x] keyEnd_gt [OF Some] at show ?thesis
        by (auto simp: def split: sum.splits)
    qed
  qed
qed

lemma parse_loop_error:
  assumes "parse_loop cs regex i q = Inl x"
  shows "error_in cs x"
  using assms
proof (induction cs regex i q rule: parse_loop.induct)
  case (1 cs regex i q)
  let ?s = "run_end isFilterSpace cs i"
  have s: "?s < length cs" using "1.prems" by (auto simp: parse_loop.simps [of cs regex i] Let_def split: if_splits)
  note stop = run_end_stop [OF s]
  show ?case
  proof (cases "parse_item cs regex ?s")
    case (Inl y)
    with "1.prems" s parse_item_error [OF _ s stop] show ?thesis
      by (simp add: parse_loop.simps [of cs regex i])
  next
    case (Inr p)
    obtain it e where p: "p = (it, e)" by (cases p)
    with Inr s "1.prems" have "parse_loop cs regex e (push_item it q) = Inl x"
      by (simp add: parse_loop.simps [of cs regex i])
    with "1.IH" [OF refl s Inr p [symmetric]] show ?thesis by simp
  qed
qed

section \<open>Properties\<close>

text \<open>
  C6. Printing a query the parser read and parsing it again gives the same query: the same
  terms, words and regexes in the same order, with their keys, operators, values, negations
  and flags; only the places in the text may differ.
\<close>

theorem print_reparse:
  assumes "units_ok text" and "parseFilter text regex = Inr q"
  shows "\<exists>q'. parseFilter (printFilter q regex) regex = Inr q' \<and> unspan_query q' = unspan_query q"
proof -
  obtain its where its: "q = of_items its" "in_order q = its" using assms(2,1) by (rule parse_answer)
  obtain its' where "parseFilter (printFilter q regex) regex = Inr (of_items its')"
      "map unspan its' = map unspan (in_order q)"
    using parse_query_ok [OF assms(2,1)] by (rule parse_printed)
  with its show ?thesis by (auto simp: unspan_of_items)
qed

theorem print_reparse_witness:
  "units_ok (js ''-user:<=5  /a b/i -\"x y\" z'') \<and>
   parseFilter (js ''-user:<=5  /a b/i -\"x y\" z'') True =
     Inr \<lparr>q_terms = [\<lparr>t_key = js ''user'', t_op = OpLe, t_value = js ''5'', t_negated = True, t_from = 0, t_to = 9\<rparr>],
          q_words = [\<lparr>w_text = js ''x y'', w_negated = True, w_from = 18, w_to = 24\<rparr>,
                     \<lparr>w_text = js ''z'', w_negated = False, w_from = 25, w_to = 26\<rparr>],
          q_regexes = [\<lparr>r_pattern = js ''a b'', r_caseInsensitive = True, r_negated = False, r_from = 11, r_to = 17\<rparr>]\<rparr> \<and>
   (\<exists>q q'. parseFilter (js ''-user:<=5  /a b/i -\"x y\" z'') True = Inr q \<and>
     parseFilter (printFilter q True) True = Inr q' \<and> unspan_query q' = unspan_query q)"
proof -
  let ?t = "js ''-user:<=5  /a b/i -\"x y\" z''"
  let ?q = "\<lparr>q_terms = [\<lparr>t_key = js ''user'', t_op = OpLe, t_value = js ''5'', t_negated = True, t_from = 0, t_to = 9\<rparr>],
          q_words = [\<lparr>w_text = js ''x y'', w_negated = True, w_from = 18, w_to = 24\<rparr>,
                     \<lparr>w_text = js ''z'', w_negated = False, w_from = 25, w_to = 26\<rparr>],
          q_regexes = [\<lparr>r_pattern = js ''a b'', r_caseInsensitive = True, r_negated = False, r_from = 11, r_to = 17\<rparr>]\<rparr>"
  have u: "units_ok ?t" by code_simp
  moreover have p: "parseFilter ?t True = Inr ?q" by code_simp
  ultimately show ?thesis using print_reparse [OF u p] by blast
qed

text \<open>
  C7. A query built by hand -- its keys key-shaped, its patterns readable between slashes --
  prints as text that parses to its items in the order of their places, whatever its texts and
  values hold: whitespace, quotes, backslashes, a leading operator, minus or slash.
\<close>

theorem print_parses:
  assumes "query_ok regex q"
  shows "\<exists>q'. parseFilter (printFilter q regex) regex = Inr q' \<and>
    unspan_query q' = unspan_query (of_items (in_order q))"
proof -
  obtain its' where "parseFilter (printFilter q regex) regex = Inr (of_items its')"
      "map unspan its' = map unspan (in_order q)"
    using assms by (rule parse_printed)
  then show ?thesis by (auto simp: unspan_of_items)
qed

definition sample_query :: filter_query where
  "sample_query =
     \<lparr>q_terms = [\<lparr>t_key = js ''size'', t_op = OpGt, t_value = js ''=1 kB'', t_negated = True, t_from = 9, t_to = 9\<rparr>],
      q_words = [\<lparr>w_text = js ''a:b'', w_negated = False, w_from = 12, w_to = 12\<rparr>,
                 \<lparr>w_text = js ''-\"'', w_negated = True, w_from = 3, w_to = 3\<rparr>],
      q_regexes = [\<lparr>r_pattern = [120, 92, 47, 121], r_caseInsensitive = False, r_negated = False, r_from = 5, r_to = 5\<rparr>]\<rparr>"

theorem print_parses_witness:
  "query_ok True sample_query \<and>
   (\<exists>q'. parseFilter (printFilter sample_query True) True = Inr q' \<and>
     unspan_query q' = unspan_query (of_items (in_order sample_query)))"
proof -
  have "query_ok True sample_query" by code_simp
  with print_parses show ?thesis by blast
qed

text \<open>
  C8. The items of a query stand in the text one after the other: none is empty, none overlaps
  another, and none reaches past the text's end, all in UTF-16 units.
\<close>

theorem parse_spans:
  assumes "units_ok text" and "parseFilter text regex = Inr q"
  shows "spans_in 0 (length text) (map item_span (in_order q))"
  using assms(2,1) by (rule parse_answer) simp

theorem parse_spans_witness:
  "units_ok (0xD83D # 0xDE00 # js '' k:v'') \<and>
   parseFilter (0xD83D # 0xDE00 # js '' k:v'') False =
     Inr \<lparr>q_terms = [\<lparr>t_key = js ''k'', t_op = OpEq, t_value = js ''v'', t_negated = False, t_from = 3, t_to = 6\<rparr>],
          q_words = [\<lparr>w_text = [0xD83D, 0xDE00], w_negated = False, w_from = 0, w_to = 2\<rparr>], q_regexes = []\<rparr> \<and>
   (\<exists>q. parseFilter (0xD83D # 0xDE00 # js '' k:v'') False = Inr q \<and> spans_in 0 6 (map item_span (in_order q)))"
proof -
  let ?t = "0xD83D # 0xDE00 # js '' k:v''"
  let ?q = "\<lparr>q_terms = [\<lparr>t_key = js ''k'', t_op = OpEq, t_value = js ''v'', t_negated = False, t_from = 3, t_to = 6\<rparr>],
          q_words = [\<lparr>w_text = [0xD83D, 0xDE00], w_negated = False, w_from = 0, w_to = 2\<rparr>], q_regexes = []\<rparr>"
  have u: "units_ok ?t" by code_simp
  have p: "parseFilter ?t False = Inr ?q" by code_simp
  have l: "length ?t = 6" by code_simp
  from parse_spans [OF u p] have "spans_in 0 6 (map item_span (in_order ?q))" unfolding l .
  with u p show ?thesis by blast
qed

text \<open>
  A refusal always points at some of the text: the span of the error is never empty and ends
  within the text.
\<close>

theorem parse_refusal_span:
  assumes "units_ok text" and "parseFilter text regex = Inl e"
  shows "e_from e < e_to e \<and> e_to e \<le> length text"
  using parse_loop_error [of "code_points text" regex 0 _ e] assms
  by (simp add: parseFilter_def parse_def error_in_def offset_end)

theorem parse_refusal_span_witness:
  "units_ok (js ''a b\"c'') \<and>
   (\<exists>e. parseFilter (js ''a b\"c'') True = Inl e \<and> e_from e < e_to e \<and> e_to e \<le> 5)"
proof -
  have u: "units_ok (js ''a b\"c'')" by code_simp
  have p: "parseFilter (js ''a b\"c'') True = Inl \<lparr>e_message = QUOTE_IN_WORD, e_from = 3, e_to = 4\<rparr>"
    by code_simp
  show ?thesis using u p parse_refusal_span [OF u p] by simp
qed

text \<open>
  Printing is canonical: a query read back from printed text prints as that same text.
\<close>

theorem print_canonical:
  assumes "units_ok text" and "parseFilter text regex = Inr q"
    and "parseFilter (printFilter q regex) regex = Inr q'"
  shows "printFilter q' regex = printFilter q regex"
proof -
  obtain its' where its': "parseFilter (printFilter q regex) regex = Inr (of_items its')"
      "map unspan its' = map unspan (in_order q)" "in_order (of_items its') = its'"
    using parse_query_ok [OF assms(2,1)] by (rule parse_printed)
  have "map (item_text regex \<circ> unspan) its' = map (item_text regex \<circ> unspan) (in_order q)"
    using its'(2) by (metis map_map)
  then have "map (item_text regex) its' = map (item_text regex) (in_order q)"
    by (simp add: item_text_unspan comp_def)
  moreover have "q' = of_items its'" using its'(1) assms(3) by simp
  ultimately show ?thesis using its'(3) unfolding printFilter_def by (simp add: in_order_def)
qed

theorem print_canonical_witness:
  "\<exists>q q'. parseFilter (js ''  b  a:\"1\"'') False = Inr q \<and> printFilter q False = js ''b a:1'' \<and>
     parseFilter (printFilter q False) False = Inr q' \<and> printFilter q' False = printFilter q False"
proof -
  let ?t = "js ''  b  a:\"1\"''"
  let ?q = "\<lparr>q_terms = [\<lparr>t_key = js ''a'', t_op = OpEq, t_value = js ''1'', t_negated = False, t_from = 5, t_to = 10\<rparr>],
          q_words = [\<lparr>w_text = js ''b'', w_negated = False, w_from = 2, w_to = 3\<rparr>], q_regexes = []\<rparr>"
  let ?q' = "\<lparr>q_terms = [\<lparr>t_key = js ''a'', t_op = OpEq, t_value = js ''1'', t_negated = False, t_from = 2, t_to = 5\<rparr>],
          q_words = [\<lparr>w_text = js ''b'', w_negated = False, w_from = 0, w_to = 1\<rparr>], q_regexes = []\<rparr>"
  have u: "units_ok ?t" by code_simp
  have p: "parseFilter ?t False = Inr ?q" by code_simp
  have t: "printFilter ?q False = js ''b a:1''" by code_simp
  have p': "parseFilter (printFilter ?q False) False = Inr ?q'" unfolding t by code_simp
  show ?thesis using p t p' print_canonical [OF u p p'] by blast
qed

end
