(* ===== verification/Filter_Tokens.thy ===== *)
theory Filter_Tokens
  imports Filter_Print
begin

text \<open>
  Reading a filter while it is typed (\<open>filterTokens\<close>, \<open>contextAt\<close> and \<open>fieldFor\<close> of
  \<open>console/src/lib/filter.ts\<close>): the forgiving scanner the field paints with and the completion
  list asks. It reads UTF-16 units, where the parser reads code points; the two are proved to
  agree on every text the parser accepts.
\<close>

section \<open>The forgiving scanner\<close>

datatype token_kind = KindTerm | KindPhrase | KindRegex | KindWord

record filter_token =
  k_from :: nat
  k_body :: nat
  k_to :: nat
  k_negated :: bool
  k_kind :: token_kind
  k_separator :: "nat option"

text \<open>The inner loop: where the item whose body is being read ends.\<close>

function token_end :: "nat list \<Rightarrow> nat \<Rightarrow> bool \<Rightarrow> nat" where
  "token_end text end quoted =
     (if end < length text then
        if quoted then
          if text ! end = BACKSLASH \<and> end + 1 < length text then token_end text (end + 2) True
          else token_end text (end + 1) (text ! end \<noteq> QUOTE)
        else if isFilterSpace (text ! end) then end
        else token_end text (end + 1) (text ! end = QUOTE)
      else end)"
  by pat_completeness auto
termination by (relation "measure (\<lambda>(text, end, quoted). length text - end)") auto

declare token_end.simps [simp del]

text \<open>What the item is, and where its separator stands.\<close>

definition token_shape :: "nat list \<Rightarrow> bool \<Rightarrow> nat \<Rightarrow> nat \<Rightarrow> token_kind \<times> nat option" where
  "token_shape text regex body end =
     (if test_at (\<lambda>c. c = QUOTE) text body then (KindPhrase, None)
      else if regex \<and> test_at (\<lambda>c. c = SLASH) text body then (KindRegex, None)
      else if test_at isAsciiAlpha text body then
        let key = run_end isKeyChar (take end text) (body + 1)
        in if test_at (\<lambda>c. c = COLON \<or> c = EQUALS) text key then (KindTerm, Some key) else (KindWord, None)
      else (KindWord, None))"

text \<open>One turn of the outer loop, after its leading whitespace.\<close>

definition token_at :: "nat list \<Rightarrow> bool \<Rightarrow> nat \<Rightarrow> filter_token" where
  "token_at text regex from =
     (let body = body_at text from; end = token_end text body False;
          shape = token_shape text regex body end
      in \<lparr>k_from = from, k_body = body, k_to = end, k_negated = body > from,
          k_kind = fst shape, k_separator = snd shape\<rparr>)"

lemma token_end_ge: "i \<le> token_end s i q"
proof (induction s i q rule: token_end.induct)
  case (1 s i q)
  then show ?case by (subst token_end.simps) (auto intro: order_trans [rotated] Suc_leD)
qed

lemma token_end_le: "i \<le> length s \<Longrightarrow> token_end s i q \<le> length s"
proof (induction s i q rule: token_end.induct)
  case (1 s i q)
  then show ?case by (subst token_end.simps) auto
qed

lemma token_end_gt:
  "i < length s \<Longrightarrow> \<not> isFilterSpace (s ! i) \<Longrightarrow> i < token_end s i False"
  using token_end_ge [of "Suc i" s] by (subst token_end.simps) (simp add: Suc_le_eq)

lemma body_at_bounds:
  assumes "i < length s" and "\<not> isFilterSpace (s ! i)"
  shows "i \<le> body_at s i" and "body_at s i < length s" and "\<not> isFilterSpace (s ! body_at s i)"
  using assms by (auto simp: body_at_def minus_at_def test_at_def)

lemma token_at_gt:
  assumes "i < length s" and "\<not> isFilterSpace (s ! i)"
  shows "i < k_to (token_at s regex i)" and "k_to (token_at s regex i) \<le> length s"
  using body_at_bounds [OF assms] token_end_gt [of "body_at s i" s]
    token_end_le [of "body_at s i" s False]
  by (auto simp: token_at_def Let_def)

function filterTokens_loop :: "nat list \<Rightarrow> bool \<Rightarrow> nat \<Rightarrow> filter_token list" where
  "filterTokens_loop text regex at0 =
     (let from = run_end isFilterSpace text at0
      in if from < length text
         then let token = token_at text regex from
              in token # filterTokens_loop text regex (k_to token)
         else [])"
  by pat_completeness auto
termination
proof (relation "measure (\<lambda>(s, regex, at0). length s - at0)", goal_cases)
  case (2 s regex at0 fr token)
  then have "fr < k_to token" "k_to token \<le> length s" "at0 \<le> fr"
    using token_at_gt [of "fr" s regex] run_end_stop [of isFilterSpace s at0] by auto
  then show ?case by auto
qed simp

declare filterTokens_loop.simps [simp del]

definition filterTokens :: "jstring \<Rightarrow> bool \<Rightarrow> filter_token list" where
  "filterTokens text regex = filterTokens_loop text regex 0"

subsection \<open>The scanner's contract\<close>

fun filter_scan :: "nat list \<times> bool \<times> nat \<Rightarrow> (filter_token option \<times> (nat list \<times> bool \<times> nat)) option" where
  "filter_scan (text, regex, at0) =
     (let from = run_end isFilterSpace text at0
      in if from < length text
         then let token = token_at text regex from in Some (Some token, (text, regex, k_to token))
         else None)"

definition token_span :: "filter_token \<Rightarrow> nat \<times> nat" where
  "token_span t = (k_from t, k_to t)"

lemma token_at_from [simp]: "k_from (token_at s regex i) = i"
  by (simp add: token_at_def Let_def)

lemma filter_scan_Some:
  assumes "filter_scan (s, regex, i) = Some (t, c')"
  obtains fr where "fr = run_end isFilterSpace s i" and "fr < length s" and "t = Some (token_at s regex fr)"
    and "c' = (s, regex, k_to (token_at s regex fr))" and "i \<le> fr"
    and "fr < k_to (token_at s regex fr)" and "k_to (token_at s regex fr) \<le> length s"
proof -
  let ?fr = "run_end isFilterSpace s i"
  have fr: "?fr < length s" "t = Some (token_at s regex ?fr)" "c' = (s, regex, k_to (token_at s regex ?fr))"
    using assms by (auto simp: Let_def split: if_splits)
  then show thesis using that [of ?fr] token_at_gt [OF fr(1) run_end_stop [OF fr(1)]] by simp
qed

interpretation typed: forward_scanner filter_scan "\<lambda>(s, regex, i). filterTokens_loop s regex i"
  "\<lambda>(s, regex, i). i \<le> length s" "\<lambda>(s, regex, i). i" "\<lambda>(s, regex, i). length s"
  "\<lambda>(s, regex, _) i. isFilterSpace (s ! i)" token_span
proof (unfold_locales, goal_cases)
  case (1 c)
  obtain s regex i where c: "c = (s, regex, i)" by (cases c)
  show ?case unfolding c by (simp add: filterTokens_loop.simps [of s regex i] Let_def)
next
  case (7 c i)
  obtain s regex n where c: "c = (s, regex, n)" by (cases c)
  then have "length s \<le> run_end isFilterSpace s n" using 7(2) by (auto simp: Let_def split: if_splits)
  with 7 c run_end_inside [of n i isFilterSpace s] show ?case by simp
next
  case (6 c t c' i)
  obtain s regex n where c: "c = (s, regex, n)" by (cases c)
  from 6(2) [unfolded c] show ?case
  proof (rule filter_scan_Some)
    fix fr assume fr: "fr = run_end isFilterSpace s n" "t = Some (token_at s regex fr)"
      "c' = (s, regex, k_to (token_at s regex fr))"
    then have "i < fr" using 6(4,5) c by (auto simp: token_span_def)
    then show ?thesis using run_end_inside [of n i isFilterSpace s] 6(3) c fr(1) by simp
  qed
qed (auto simp: token_span_def elim!: filter_scan_Some intro: le_less_trans [OF run_end_ge]
    simp del: filter_scan.simps)

section \<open>Agreement with the parser\<close>

subsection \<open>Over code points\<close>

lemma token_end_skip:
  "\<forall>k. i \<le> k \<and> k < j \<longrightarrow> \<not> isFilterSpace (cs ! k) \<and> cs ! k \<noteq> QUOTE \<Longrightarrow> i \<le> j \<Longrightarrow> j \<le> length cs \<Longrightarrow>
   token_end cs i False = token_end cs j False"
proof (induction "j - i" arbitrary: i)
  case (Suc n)
  then have "i < length cs" "\<not> isFilterSpace (cs ! i)" "cs ! i \<noteq> QUOTE" by auto
  then have "token_end cs i False = token_end cs (Suc i) False" by (simp add: token_end.simps [of cs i])
  with Suc show ?case by simp
qed simp

lemma token_end_stop: "\<not> test_at (\<lambda>c. \<not> isFilterSpace c) cs i \<Longrightarrow> token_end cs i False = i"
  by (subst token_end.simps) (auto simp: test_at_def)

lemma token_end_phrase: "phrase_loop cs i acc = Some (v, e) \<Longrightarrow> token_end cs i True = token_end cs e False"
proof (induction "length cs - i" arbitrary: i acc rule: less_induct)
  case less
  then have i: "i < length cs" by (auto simp: phrase_loop.simps [of cs i] split: if_splits)
  note ps = phrase_loop.simps [of cs i acc] and ts = token_end.simps [of cs i True]
  consider (pair) "cs ! i = BACKSLASH" "Suc i < length cs" | (last) "cs ! i = BACKSLASH" "\<not> Suc i < length cs"
    | (quote) "cs ! i = QUOTE" | (plain) "cs ! i \<noteq> QUOTE" "cs ! i \<noteq> BACKSLASH" by blast
  then show ?case
  proof cases
    case pair
    have "\<exists>acc'. phrase_loop cs (i + 2) acc' = Some (v, e)"
    proof (cases "cs ! Suc i = QUOTE \<or> cs ! Suc i = BACKSLASH")
      case True
      with pair less.prems i ps show ?thesis by (auto simp: test_at_def)
    next
      case False
      with pair less.prems i have "phrase_loop cs (Suc i) (acc @ units_of (cs ! i)) = Some (v, e)"
        by (simp add: ps test_at_def)
      with False pair show ?thesis by (auto simp: phrase_loop.simps [of cs "Suc i"])
    qed
    then obtain acc' where "phrase_loop cs (i + 2) acc' = Some (v, e)" ..
    with less.hyps [of "i + 2" acc'] i pair show ?thesis by (simp add: ts)
  next
    case last
    with less.prems i show ?thesis by (auto simp: ps test_at_def phrase_loop.simps [of cs "Suc i"])
  next
    case quote
    with less.prems i show ?thesis by (simp add: ps ts)
  next
    case plain
    with less.prems i less.hyps [of "Suc i" "acc @ units_of (cs ! i)"] show ?thesis by (simp add: ps ts)
  qed
qed

lemma token_end_quoted:
  assumes "test_at (\<lambda>c. c = QUOTE) cs i" and "phrase cs i = Inr (v, e)" and "boundary cs s e = Inr ()"
  shows "token_end cs i False = e"
proof -
  have "token_end cs i False = token_end cs (Suc i) True"
    using assms(1) by (simp add: token_end.simps [of cs i] test_at_def isFilterSpace_def)
  also have "\<dots> = token_end cs e False"
    using assms(2) by (intro token_end_phrase) (auto simp: phrase_def split: option.splits)
  also have "\<dots> = e"
    using assms(3) by (intro token_end_stop) (auto simp: boundary_def split: if_splits)
  finally show ?thesis .
qed

lemma token_end_bare:
  assumes "bare cs i = Inr (v, e)" and "i \<le> length cs"
  shows "token_end cs i False = e"
proof -
  have e: "e = runEnd cs i" "\<not> run_end (\<lambda>c. c \<noteq> QUOTE) (take e cs) i < e"
    using assms(1) by (auto simp: bare_def Let_def split: if_splits)
  have b: "i \<le> e" "e \<le> length cs" using bare_ge [OF assms(2,1)] by auto
  have "\<not> isFilterSpace (cs ! k) \<and> cs ! k \<noteq> QUOTE" if "i \<le> k" "k < e" for k
    using run_end_inside [of i k "\<lambda>c. \<not> isFilterSpace c" cs] that e
      run_end_inside [of i k "\<lambda>c. c \<noteq> QUOTE" "take e cs"] by (simp add: runEnd_def)
  then have "token_end cs i False = token_end cs e False" using token_end_skip [of i e cs] b by blast
  also have "\<dots> = e"
    using run_end_stop [of "\<lambda>c. \<not> isFilterSpace c" cs i] e(1)
    by (intro token_end_stop) (auto simp: runEnd_def test_at_def)
  finally show ?thesis .
qed

lemma keyEnd_inside:
  assumes "keyEnd cs i = Some e" and "i \<le> k" and "k \<le> e"
  shows "\<not> isFilterSpace (cs ! k) \<and> cs ! k \<noteq> QUOTE"
proof -
  have k: "isAsciiAlpha (cs ! i)" "e = run_end isKeyChar cs (i + 1)" "cs ! e = COLON \<or> cs ! e = EQUALS"
    using assms(1) by (auto simp: keyEnd_def Let_def test_at_def split: if_splits)
  consider "k = i" | "k = e" | "i + 1 \<le> k" "k < e" using assms(2,3) by linarith
  then have "isKeyChar (cs ! k) \<or> cs ! k = COLON \<or> cs ! k = EQUALS"
    using k run_end_inside [of "i + 1" k isKeyChar cs] by cases (auto simp: isKeyChar_def)
  then show ?thesis
    by (auto simp: isKeyChar_def isAsciiAlpha_def isAsciiDigit_def isFilterSpace_def)
qed

lemma read_op_inside:
  "read_op cs i = (p, j) \<Longrightarrow> i \<le> k \<Longrightarrow> k < j \<Longrightarrow> \<not> isFilterSpace (cs ! k) \<and> cs ! k \<noteq> QUOTE"
proof -
  assume r: "read_op cs i = (p, j)" and k: "i \<le> k" "k < j"
  have "(k = i \<and> (cs ! k = LESS \<or> cs ! k = GREATER)) \<or> (k = i + 1 \<and> cs ! k = EQUALS)"
  proof (cases "k = i")
    case True
    with r k show ?thesis by (auto simp: read_op_def Let_def at_opt_Some split: if_splits)
  next
    case False
    with r k have "k = i + 1" by (auto simp: read_op_def Let_def split: if_splits)
    with r k show ?thesis by (auto simp: read_op_def Let_def at_opt_Some split: if_splits)
  qed
  then show ?thesis by (auto simp: isFilterSpace_def)
qed

lemma token_end_term:
  assumes "keyEnd cs i = Some sep" and "term_at cs s i sep neg = Inr (t, e)"
  shows "token_end cs i False = e"
proof -
  have sep: "i < sep" "sep < length cs" using keyEnd_gt [OF assms(1)] by auto
  obtain p j where r: "read_op cs (sep + 1) = (p, j)" by (cases "read_op cs (sep + 1)")
  then have j: "sep + 1 \<le> j" "j \<le> length cs" using read_op_ge [OF r] sep by auto
  have "\<not> isFilterSpace (cs ! k) \<and> cs ! k \<noteq> QUOTE" if "i \<le> k" "k < j" for k
    using keyEnd_inside [OF assms(1) that(1)] read_op_inside [OF r _ that(2)] by (cases "k \<le> sep") auto
  then have "token_end cs i False = token_end cs j False" using token_end_skip [of i j cs] j sep by simp
  also from assms(2) r have "\<dots> = e"
  proof (cases rule: term_at_cases)
    case (phrase v)
    then show ?thesis by (intro token_end_quoted)
  next
    case (bare v)
    then show ?thesis using token_end_bare j(2) by blast
  qed
  finally show ?thesis .
qed

lemma token_end_item:
  assumes "parse_item cs False i = Inr (it, e)" and "i < length cs" and "\<not> isFilterSpace (cs ! i)"
  shows "token_end cs (body_at cs i) False = e"
  using assms(1)
proof (cases rule: parse_item_cases)
  case (keyed t sep)
  then show ?thesis by (intro token_end_term)
next
  case (bare v)
  then show ?thesis using token_end_bare body_at_bounds(2) [OF assms(2,3)] by simp
qed (auto intro: token_end_quoted)

fun is_term_item :: "filter_item \<Rightarrow> bool" where
  "is_term_item (TermItem t) = True"
| "is_term_item _ = False"

fun item_negated :: "filter_item \<Rightarrow> bool" where
  "item_negated (TermItem t) = t_negated t"
| "item_negated (WordItem w) = w_negated w"
| "item_negated (RegexItem r) = r_negated r"

lemma takeWhile_take: "takeWhile p (take n ys) = take n (takeWhile p ys)"
  by (induction ys arbitrary: n) (auto simp: take_Cons' split: if_splits)

lemma run_end_take: "i \<le> e \<Longrightarrow> run_end p (take e xs) i = min (run_end p xs i) e"
proof -
  assume "i \<le> e"
  then show ?thesis by (auto simp: run_end_def drop_take min_def takeWhile_take)
qed

lemma token_shape_item:
  assumes "parse_item cs False i = Inr (it, e)" and "i < length cs" and "\<not> isFilterSpace (cs ! i)"
  shows "fst (token_shape cs False (body_at cs i) e) = KindTerm \<longleftrightarrow> is_term_item it"
  using assms(1)
proof (cases rule: parse_item_cases)
  case (keyed t sep)
  have sep: "sep = run_end isKeyChar cs (body_at cs i + 1)" "test_at isAsciiAlpha cs (body_at cs i)"
      "test_at (\<lambda>c. c = COLON \<or> c = EQUALS) cs sep"
    using keyed(3) by (auto simp: keyEnd_def Let_def split: if_splits)
  have b: "sep < e" "body_at cs i + 1 \<le> e" using term_ge [OF keyed(4)] keyEnd_gt [OF keyed(3)] by auto
  have "run_end isKeyChar (take e cs) (body_at cs i + 1) = sep"
    using run_end_take [OF b(2), of isKeyChar cs] sep(1) b(1) by simp
  with sep keyed show ?thesis by (simp add: token_shape_def Let_def)
next
  case (bare v)
  let ?b = "body_at cs i"
  have e: "?b < e" "e \<le> length cs" "e = runEnd cs ?b"
    using bare_gt [OF _ bare(4)] body_at_bounds [OF assms(2,3)] bare(4)
    by (auto simp: test_at_def bare_def Let_def split: if_splits)
  have "\<not> test_at (\<lambda>c. c = COLON \<or> c = EQUALS) cs e"
    using run_end_stop [of "\<lambda>c. \<not> isFilterSpace c" cs ?b] e
    by (auto simp: test_at_def runEnd_def isFilterSpace_def)
  with bare e show ?thesis
    by (auto simp: token_shape_def keyEnd_def Let_def run_end_take min_def split: if_splits)
qed (auto simp: token_shape_def)

subsection \<open>From code points to units\<close>

text \<open>The tests hold of ASCII characters only, so a surrogate pair passes none of them.\<close>

definition ascii_test :: "(nat \<Rightarrow> bool) \<Rightarrow> bool" where
  "ascii_test p \<longleftrightarrow> (\<forall>c. p c \<longrightarrow> c < 0x80)"

lemma ascii_tests:
  "ascii_test isFilterSpace" "ascii_test isKeyChar" "ascii_test isAsciiAlpha"
  "c < 0x80 \<Longrightarrow> ascii_test (\<lambda>x. x = c)" "c < 0x80 \<Longrightarrow> d < 0x80 \<Longrightarrow> ascii_test (\<lambda>x. x = c \<or> x = d)"
  by (auto simp: ascii_test_def isFilterSpace_def isKeyChar_def isAsciiAlpha_def isAsciiDigit_def)

lemma hd_units_test: "ascii_test p \<Longrightarrow> p (hd (units_of c)) = p c"
  by (auto simp: ascii_test_def units_of_def dest: spec [of _ c] spec [of _ "0xD800 + (c - 0x10000) div 0x400"])

lemma drop_offset: "i \<le> length cs \<Longrightarrow> drop (offset cs i) (join_points cs) = join_points (drop i cs)"
  by (simp add: offset_points)
    (metis append_eq_conv_conj append_take_drop_id join_points_append)

lemma offset_Suc: "i < length cs \<Longrightarrow> offset cs (Suc i) = offset cs i + length (units_of (cs ! i))"
  by (simp add: offset_points take_Suc_conv_app_nth join_points_Cons)

lemma offset_last: "offset cs (length cs) = length (join_points cs)"
  by (simp add: offset_points)

lemma offset_less_length: "i < length cs \<Longrightarrow> offset cs i < length (join_points cs)"
  using offset_less [of i "length cs" cs] by (simp add: offset_last)

lemma offset_le_length: "i \<le> length cs \<Longrightarrow> offset cs i \<le> length (join_points cs)"
  using offset_mono [of i "length cs" cs] by (simp add: offset_last)

lemma unit_at:
  assumes "i < length cs" and "k < length (units_of (cs ! i))"
  shows "join_points cs ! (offset cs i + k) = units_of (cs ! i) ! k"
proof -
  have "drop (offset cs i) (join_points cs) = units_of (cs ! i) @ join_points (drop (Suc i) cs)"
    using assms(1) by (simp add: drop_offset Cons_nth_drop_Suc [symmetric] join_points_Cons)
  then have "drop (offset cs i) (join_points cs) ! k = units_of (cs ! i) ! k"
    using assms(2) by (simp add: nth_append)
  moreover have "offset cs i \<le> length (join_points cs)" using assms(1) by (simp add: offset_le_length)
  ultimately show ?thesis by simp
qed

lemma units_of_small: "c < 0x10000 \<Longrightarrow> units_of c = [c]"
  by (simp add: units_of_def)

lemma units_of_pair_points:
  assumes "0x10000 \<le> c"
  shows "length (units_of c) = 2" and "0x80 \<le> units_of c ! 0" and "0x80 \<le> units_of c ! 1"
  using assms by (simp_all add: units_of_def)

lemma test_at_units:
  assumes "ascii_test p" and "i \<le> length cs"
  shows "test_at p (join_points cs) (offset cs i) \<longleftrightarrow> test_at p cs i"
proof (cases "i < length cs")
  case True
  have "units_of (cs ! i) \<noteq> []" by (simp add: units_of_def)
  then have "join_points cs ! offset cs i = hd (units_of (cs ! i))"
    using unit_at [OF True, of 0] by (simp add: hd_conv_nth)
  with True assms(1) show ?thesis
    by (simp add: test_at_def offset_less_length hd_units_test)
next
  case False
  with assms(2) show ?thesis by (simp add: test_at_def offset_last)
qed

lemma takeWhile_units: "ascii_test p \<Longrightarrow> takeWhile p (join_points cs) = join_points (takeWhile p cs)"
proof (induction cs)
  case (Cons c cs)
  show ?case
  proof (cases "p c")
    case True
    with Cons.prems have "c < 0x80" by (simp add: ascii_test_def)
    with True Cons show ?thesis by (simp add: join_points_Cons units_of_small)
  next
    case False
    with Cons.prems have "\<not> p (hd (units_of c))" by (simp add: hd_units_test)
    then have "takeWhile p (units_of c @ x) = []" for x
      by (cases "units_of c") (auto simp: units_of_def split: if_splits)
    with False show ?thesis by (simp add: join_points_Cons)
  qed
qed simp

lemma run_end_units:
  assumes "ascii_test p" and "i \<le> length cs"
  shows "run_end p (join_points cs) (offset cs i) = offset cs (run_end p cs i)"
proof -
  let ?n = "run_end p cs i"
  have "take ?n cs = take i cs @ takeWhile p (drop i cs)"
    using slice_run_end [of cs i p] by (metis le_add_diff_inverse run_end_ge slice_def take_add)
  then have "offset cs ?n = offset cs i + length (join_points (takeWhile p (drop i cs)))"
    using assms(2) by (simp add: offset_points)
  with assms show ?thesis
    by (simp add: run_end_def [of p "join_points cs"] drop_offset takeWhile_units)
qed

lemma token_end_plain_unit:
  "n < length s \<Longrightarrow> 0x80 \<le> s ! n \<Longrightarrow> token_end s n q = token_end s (Suc n) q"
  by (subst token_end.simps) (auto simp: isFilterSpace_def)

lemma token_end_units:
  "i \<le> length cs \<Longrightarrow> token_end (join_points cs) (offset cs i) q = offset cs (token_end cs i q)"
proof (induction cs i q rule: token_end.induct)
  case (1 cs i q)
  let ?s = "join_points cs" and ?n = "offset cs i" and ?c = "cs ! i"
  show ?case
  proof (cases "i < length cs")
    case False
    with "1.prems" have "i = length cs" by simp
    then show ?thesis by (simp add: token_end.simps [of cs] token_end.simps [of ?s] offset_last)
  next
    case True
    note n = offset_less_length [OF True] and suc = offset_Suc [OF True]
    show ?thesis
    proof (cases "?c < 0x10000")
      case small: True
      then have c: "?s ! ?n = ?c" "offset cs (Suc i) = Suc ?n"
        using unit_at [OF True, of 0] suc by (simp_all add: units_of_small)
      show ?thesis
      proof (cases "q \<and> ?c = BACKSLASH \<and> Suc i < length cs")
        case esc: True
        then have m: "Suc ?n < length ?s" using offset_less_length [of "Suc i" cs] c by simp
        have IH: "token_end ?s (offset cs (Suc (Suc i))) True = offset cs (token_end cs (Suc (Suc i)) True)"
          using "1.IH"(1) True esc by simp
        have "token_end ?s (Suc (Suc ?n)) True = token_end ?s (offset cs (Suc (Suc i))) True"
        proof (cases "cs ! Suc i < 0x10000")
          case True
          then show ?thesis using offset_Suc [of "Suc i" cs] esc c by (simp add: units_of_small)
        next
          case False
          then have p: "length (units_of (cs ! Suc i)) = 2" "0x80 \<le> units_of (cs ! Suc i) ! 1"
            using units_of_pair_points [of "cs ! Suc i"] by auto
          then have o: "offset cs (Suc (Suc i)) = Suc (Suc (Suc ?n))"
            using offset_Suc [of "Suc i" cs] esc c by simp
          have "Suc (Suc ?n) < length ?s"
            using offset_le_length [of "Suc (Suc i)" cs] esc o by simp
          moreover have "0x80 \<le> ?s ! Suc (Suc ?n)"
            using unit_at [of "Suc i" cs 1] esc c p by simp
          ultimately show ?thesis using token_end_plain_unit [of "Suc (Suc ?n)" ?s True] o by simp
        qed
        with esc IH n m c True show ?thesis
          by (simp add: token_end.simps [of cs i] token_end.simps [of ?s ?n])
      next
        case False
        have "\<not> (q \<and> ?c = BACKSLASH \<and> Suc ?n < length ?s)"
          using False c True offset_last [of cs] by (metis Suc_lessI less_irrefl)
        with False True n c small "1.IH"(2,3) show ?thesis
          by (auto simp: token_end.simps [of cs i] token_end.simps [of ?s ?n])
      qed
    next
      case False
      then have p: "length (units_of ?c) = 2" "0x80 \<le> units_of ?c ! 0" "0x80 \<le> units_of ?c ! 1"
        using units_of_pair_points [of ?c] by auto
      then have u: "0x80 \<le> ?s ! ?n" "0x80 \<le> ?s ! Suc ?n" "offset cs (Suc i) = Suc (Suc ?n)"
        using unit_at [OF True, of 0] unit_at [OF True, of 1] suc by auto
      moreover have "Suc ?n < length ?s" using offset_le_length [of "Suc i" cs] True u(3) by simp
      ultimately have "token_end ?s ?n q = token_end ?s (offset cs (Suc i)) q"
        using token_end_plain_unit [OF n, of q] token_end_plain_unit [of "Suc ?n" ?s q] by simp
      moreover have "token_end cs i q = token_end cs (Suc i) q"
        using token_end_plain_unit [OF True, of q] False by simp
      moreover have "token_end ?s (offset cs (Suc i)) q = offset cs (token_end cs (Suc i) q)"
        using "1.IH"(2,3) True False by (cases q) (auto simp: isFilterSpace_def)
      ultimately show ?thesis by simp
    qed
  qed
qed

lemma offset_less_iff: "i \<le> length cs \<Longrightarrow> offset cs i < length (join_points cs) \<longleftrightarrow> i < length cs"
  using offset_less_length [of i cs] offset_last [of cs] by (cases "i = length cs") auto

lemma test_at_not: "test_at (\<lambda>c. \<not> p c) xs i \<longleftrightarrow> i < length xs \<and> \<not> test_at p xs i"
  by (auto simp: test_at_def)

lemma minus_at_units:
  assumes "i < length cs"
  shows "minus_at (join_points cs) (offset cs i) = minus_at cs i"
proof -
  have d: "join_points cs ! offset cs i = DASH \<longleftrightarrow> cs ! i = DASH"
    using test_at_units [of "\<lambda>c. c = DASH" i cs] assms
    by (simp add: ascii_tests test_at_def offset_less_length)
  show ?thesis
  proof (cases "cs ! i = DASH")
    case True
    then have o: "offset cs i + 1 = offset cs (i + 1)"
      using offset_Suc [OF assms] by (simp add: units_of_small)
    show ?thesis
      unfolding minus_at_def d test_at_not o
      using assms by (simp add: offset_less_iff test_at_units ascii_tests)
  qed (simp add: minus_at_def d)
qed

lemma body_at_units:
  assumes "i < length cs"
  shows "body_at (join_points cs) (offset cs i) = offset cs (body_at cs i)"
proof (cases "minus_at cs i")
  case True
  then have "cs ! i = DASH" by (simp add: minus_at_def)
  then have "offset cs (Suc i) = Suc (offset cs i)"
    using offset_Suc [OF assms] by (simp add: units_of_small)
  with True assms show ?thesis by (simp add: body_at_def minus_at_units)
qed (use assms in \<open>simp add: body_at_def minus_at_units\<close>)

lemma take_offset: "i \<le> length cs \<Longrightarrow> take (offset cs i) (join_points cs) = join_points (take i cs)"
  by (simp add: offset_points) (metis append_eq_conv_conj append_take_drop_id join_points_append)

lemma offset_take: "i \<le> e \<Longrightarrow> e \<le> length cs \<Longrightarrow> offset (take e cs) i = offset cs i"
  by (simp add: offset_points min_def)

lemma token_shape_units:
  assumes "b < e" and "e \<le> length cs"
  shows "fst (token_shape (join_points cs) False (offset cs b) (offset cs e)) = fst (token_shape cs False b e)"
proof (cases "test_at isAsciiAlpha cs b")
  case True
  then have "cs ! b < 0x80" by (auto simp: test_at_def isAsciiAlpha_def)
  then have o: "offset cs b + 1 = offset cs (b + 1)"
    using offset_Suc [of b cs] assms by (simp add: units_of_small)
  have "offset cs (b + 1) = offset (take e cs) (b + 1)" using offset_take [OF _ assms(2)] assms(1) by simp
  then have "run_end isKeyChar (take (offset cs e) (join_points cs)) (offset cs b + 1) =
      offset (take e cs) (run_end isKeyChar (take e cs) (b + 1))"
    unfolding o take_offset [OF assms(2)] using assms by (simp add: run_end_units ascii_tests)
  moreover have le: "run_end isKeyChar (take e cs) (b + 1) \<le> e"
    using run_end_le [of "b + 1" "take e cs" isKeyChar] assms by simp
  then have "offset (take e cs) (run_end isKeyChar (take e cs) (b + 1)) =
      offset cs (run_end isKeyChar (take e cs) (b + 1))"
    using offset_take [OF _ assms(2)] by simp
  ultimately show ?thesis
    using assms le by (simp add: token_shape_def Let_def test_at_units ascii_tests)
next
  case False
  with assms show ?thesis by (simp add: token_shape_def test_at_units ascii_tests)
qed

lemma parse_item_negated: "parse_item cs regex i = Inr (it, e) \<Longrightarrow> item_negated it = minus_at cs i"
proof (erule parse_item_cases)
  fix t sep assume "term_at cs i (body_at cs i) sep (minus_at cs i) = Inr (t, e)" "it = TermItem t"
  then show ?thesis by (cases "read_op cs (sep + 1)") (auto elim!: term_at_cases)
qed auto

definition token_view :: "filter_token \<Rightarrow> (nat \<times> nat) \<times> bool \<times> bool" where
  "token_view t = ((k_from t, k_to t), k_negated t, k_kind t = KindTerm)"

definition item_view :: "filter_item \<Rightarrow> (nat \<times> nat) \<times> bool \<times> bool" where
  "item_view it = (item_span it, item_negated it, is_term_item it)"

lemma token_at_view:
  assumes "parse_item cs False i = Inr (it, e)" and "i < length cs" and "\<not> isFilterSpace (cs ! i)"
  shows "token_view (token_at (join_points cs) False (offset cs i)) = item_view it"
    and "k_to (token_at (join_points cs) False (offset cs i)) = offset cs e"
proof -
  note b = body_at_bounds [OF assms(2,3)]
  have e: "token_end cs (body_at cs i) False = e" using token_end_item [OF assms] .
  have "body_at cs i < e" "e \<le> length cs"
    using token_end_gt [OF b(2,3)] token_end_le [of "body_at cs i" cs False] b(2) e by auto
  moreover have "offset cs (body_at cs i) > offset cs i \<longleftrightarrow> minus_at cs i"
    using offset_less [of i "body_at cs i" cs] b by (auto simp: body_at_def split: if_splits)
  ultimately show "token_view (token_at (join_points cs) False (offset cs i)) = item_view it"
      "k_to (token_at (join_points cs) False (offset cs i)) = offset cs e"
    using parse_item_span [OF assms(1)] parse_item_negated [OF assms(1)] token_shape_item [OF assms] b e
    by (simp_all add: token_at_def Let_def token_view_def item_view_def item_span_def body_at_units
        token_end_units token_shape_units assms(2))
qed

lemma parse_loop_tokens:
  assumes "parse_loop cs False i q = Inr q'" and "i \<le> length cs"
  obtains its where "q' = fold push_item its q"
    and "spans_in (offset cs i) (offset cs (length cs)) (map item_span its)"
    and "map token_view (filterTokens_loop (join_points cs) False (offset cs i)) = map item_view its"
  using assms
proof (induction "length cs - i" arbitrary: i q thesis rule: less_induct)
  case less
  let ?s = "run_end isFilterSpace cs i"
  have s: "i \<le> ?s" "?s \<le> length cs" using less.prems(3) by simp_all
  have u: "run_end isFilterSpace (join_points cs) (offset cs i) = offset cs ?s"
    using less.prems(3) by (simp add: run_end_units ascii_tests)
  show ?case
  proof (cases "?s < length cs")
    case False
    with less.prems(2) have "q' = q" by (simp add: parse_loop.simps [of cs False i])
    moreover have "filterTokens_loop (join_points cs) False (offset cs i) = []"
      using False s by (simp add: filterTokens_loop.simps [of _ _ "offset cs i"] u offset_less_iff)
    moreover have "offset cs i \<le> offset cs (length cs)" using less.prems(3) by (rule offset_mono) simp
    ultimately show ?thesis by (intro less.prems(1) [of "[]"]) simp_all
  next
    case True
    note stop = run_end_stop [OF True]
    from True less.prems(2) obtain it e where it: "parse_item cs False ?s = Inr (it, e)"
        "parse_loop cs False e (push_item it q) = Inr q'"
      by (auto simp: parse_loop.simps [of cs False i] Let_def split: sum.splits)
    have e: "?s < e" "e \<le> length cs" using parse_item_gt [OF it(1) True stop] by auto
    have "length cs - e < length cs - i" using e s by linarith
    then obtain its where its: "q' = fold push_item its (push_item it q)"
        "spans_in (offset cs e) (offset cs (length cs)) (map item_span its)"
        "map token_view (filterTokens_loop (join_points cs) False (offset cs e)) = map item_view its"
      using less.hyps [OF _ _ it(2) e(2)] by blast
    show ?thesis
    proof (rule less.prems(1) [of "it # its"])
      show "spans_in (offset cs i) (offset cs (length cs)) (map item_span (it # its))"
        using its(2) parse_item_span [OF it(1)] offset_less [OF e] offset_mono [OF s] by simp
      show "map token_view (filterTokens_loop (join_points cs) False (offset cs i)) = map item_view (it # its)"
        using token_at_view [OF it(1) True stop] its(3) True s
        by (simp add: filterTokens_loop.simps [of _ _ "offset cs i"] u offset_less_iff Let_def)
    qed (simp add: its(1))
  qed
qed

section \<open>What the caret is in\<close>

datatype filter_kind =
  KText | KExact | KEnum | KPath | KBool | KTime | KNumber | KBytes | KDuration

text \<open>A field; an optional list the code reads with \<open>?? []\<close> is a list.\<close>

record filter_field =
  f_key :: jstring
  f_aliases :: "jstring list"
  f_kind :: filter_kind
  f_help :: "jstring option"
  f_values :: "jstring list"
  f_valueAliases :: "(jstring \<times> jstring) list"
  f_prefixes :: "jstring list"

datatype filter_context =
    CtxKey nat nat jstring bool bool
  | CtxPath nat nat jstring bool bool filter_field
  | CtxValue jstring filter_op nat nat jstring bool bool
  | CtxWord nat nat jstring
  | CtxNone

definition prefix_match :: "jstring \<Rightarrow> filter_field \<Rightarrow> bool" where
  "prefix_match lower field \<longleftrightarrow>
     f_kind field = KPath \<and>
     list_ex (\<lambda>p. take (length p) lower = asciiLower p) (f_prefixes field)"

definition keyShaped :: "jstring \<Rightarrow> bool" where
  "keyShaped typed \<longleftrightarrow>
     typed = [] \<or> (isAsciiAlpha (hd typed) \<and> list_all isKeyChar (code_points typed))"

definition value_context :: "jstring \<Rightarrow> nat \<Rightarrow> filter_token \<Rightarrow> nat \<Rightarrow> filter_context" where
  "value_context text caret token separator =
     (let (op, start) = read_op text (separator + 1);
          quoted = test_at (\<lambda>c. c = QUOTE) text start;
          valueFrom = (if quoted then start + 1 else start)
      in CtxValue (slice text (k_body token) separator) op start (k_to token)
           (if caret > valueFrom then slice text valueFrom caret else []) quoted (k_negated token))"

definition key_context :: "jstring \<Rightarrow> nat \<Rightarrow> filter_field list \<Rightarrow> filter_token \<Rightarrow> filter_context" where
  "key_context text caret defs token =
     (let body = k_body token; typed = slice text body caret
      in if \<not> keyShaped typed then CtxWord body (k_to token) typed
         else let key_end = run_end isKeyChar (take (k_to token) text) body;
                  hasSeparator = test_at (\<lambda>c. c = COLON \<or> c = EQUALS) text key_end
              in case List.find (prefix_match (asciiLower typed)) defs of
                   Some field \<Rightarrow> CtxPath body key_end typed hasSeparator (k_negated token) field
                 | None \<Rightarrow> CtxKey body key_end typed hasSeparator (k_negated token))"

definition contextAt :: "jstring \<Rightarrow> nat \<Rightarrow> bool \<Rightarrow> filter_field list \<Rightarrow> filter_context" where
  "contextAt text caret regex defs =
     (case List.find (\<lambda>t. k_from t \<le> caret \<and> caret \<le> k_to t) (filterTokens text regex) of
        None \<Rightarrow> CtxKey caret caret [] False False
      | Some token \<Rightarrow>
          if caret < k_body token then CtxKey (k_body token) (k_body token) [] False False
          else if k_kind token = KindPhrase \<or> k_kind token = KindRegex then CtxNone
          else case (k_kind token, k_separator token) of
                 (KindTerm, Some separator) \<Rightarrow>
                   if caret > separator then value_context text caret token separator
                   else key_context text caret defs token
               | _ \<Rightarrow> key_context text caret defs token)"

definition names_field :: "jstring \<Rightarrow> filter_field \<Rightarrow> bool" where
  "names_field lower field \<longleftrightarrow>
     sameIgnoringAsciiCase (f_key field) lower \<or>
     list_ex (\<lambda>alias. sameIgnoringAsciiCase alias lower) (f_aliases field)"

definition fieldFor :: "jstring \<Rightarrow> filter_field list \<Rightarrow> filter_field option" where
  "fieldFor key defs =
     (let lower = asciiLower key
      in case List.find (prefix_match lower) defs of
           Some path \<Rightarrow> Some path
         | None \<Rightarrow> List.find (\<lambda>f. f_kind f \<noteq> KPath \<and> names_field lower f) defs)"

text \<open>The range an answer would replace, what of it was typed before the caret, and that both
  lie where they should.\<close>

fun context_fits :: "jstring \<Rightarrow> nat \<Rightarrow> filter_context \<Rightarrow> bool" where
  "context_fits text caret (CtxKey f t p _ _) \<longleftrightarrow>
     f \<le> t \<and> t \<le> length text \<and> caret \<le> t \<and> p = slice text f caret \<and> list_all isKeyChar p"
| "context_fits text caret (CtxPath f t p _ _ field) \<longleftrightarrow>
     f \<le> t \<and> t \<le> length text \<and> f \<le> caret \<and> caret \<le> t \<and> p = slice text f caret \<and> list_all isKeyChar p \<and>
     f_kind field = KPath"
| "context_fits text caret (CtxValue key op f t p quoted _) \<longleftrightarrow>
     f \<le> t \<and> t \<le> length text \<and> caret \<le> t \<and> p = slice text (if quoted then f + 1 else f) caret \<and> key_shaped key"
| "context_fits text caret (CtxWord f t p) \<longleftrightarrow>
     f \<le> caret \<and> caret \<le> t \<and> t \<le> length text \<and> p = slice text f caret"
| "context_fits text caret CtxNone \<longleftrightarrow> True"

lemma keyShaped_units: "keyShaped s \<Longrightarrow> list_all isKeyChar s"
proof -
  assume k: "keyShaped s"
  have "code_points u = u" if "list_all isKeyChar (code_points u)" for u
    using that
  proof (induction u rule: code_points.induct)
    case (3 a b r)
    show ?case
    proof (cases "high_surrogate a \<and> low_surrogate b")
      case True
      with 3(3) pair_point_range [of a b] key_char_ascii show ?thesis by fastforce
    next
      case False
      with 3 have "code_points (b # r) = b # r" by auto
      with False show ?thesis by auto
    qed
  qed auto
  with k have "s = [] \<or> list_all isKeyChar s" unfolding keyShaped_def by metis
  then show ?thesis by auto
qed

lemma filterTokens_wf:
  assumes "t \<in> set (filterTokens_loop s regex i)" and "i \<le> length s"
  obtains fr where "t = token_at s regex fr" and "fr < length s" and "\<not> isFilterSpace (s ! fr)"
  using assms
proof (induction s regex i arbitrary: thesis rule: filterTokens_loop.induct)
  case (1 s regex i)
  let ?fr = "run_end isFilterSpace s i"
  have fr: "?fr < length s" using "1.prems"(2) by (auto simp: filterTokens_loop.simps [of s regex i] Let_def split: if_splits)
  note stop = run_end_stop [OF fr]
  have "t = token_at s regex ?fr \<or> t \<in> set (filterTokens_loop s regex (k_to (token_at s regex ?fr)))"
    using "1.prems"(2) fr by (auto simp: filterTokens_loop.simps [of s regex i] Let_def)
  then show ?case
    using "1.IH" [OF refl fr refl] "1.prems"(1) fr stop token_at_gt(2) [OF fr stop] by blast
qed

lemma token_at_bounds:
  assumes "fr < length s" and "\<not> isFilterSpace (s ! fr)"
  shows "fr \<le> k_body (token_at s regex fr)"
    and "k_body (token_at s regex fr) < k_to (token_at s regex fr)"
    and "k_to (token_at s regex fr) \<le> length s"
    and "k_to (token_at s regex fr) = token_end s (k_body (token_at s regex fr)) False"
  using body_at_bounds [OF assms] token_end_gt token_at_gt [OF assms]
  by (auto simp: token_at_def Let_def)

text \<open>Where a token ends there is a space or nothing.\<close>

lemma token_end_clear:
  "i \<le> length s \<Longrightarrow> token_end s i q < length s \<Longrightarrow> isFilterSpace (s ! token_end s i q)"
proof (induction s i q rule: token_end.induct)
  case (1 s i q)
  show ?case
  proof (cases "i < length s")
    case True
    with 1 show ?thesis by (auto simp: token_end.simps [of s i q] split: if_splits)
  next
    case False
    with "1.prems" token_end_ge [of i s q] show ?thesis by simp
  qed
qed

lemma token_end_no_separator: "i \<le> length s \<Longrightarrow> \<not> test_at (\<lambda>c. c = COLON \<or> c = EQUALS) s (token_end s i q)"
  using token_end_clear [of i s q] by (auto simp: test_at_def isFilterSpace_def)

lemma token_end_reaches:
  assumes "\<forall>k. i \<le> k \<and> k < j \<longrightarrow> \<not> isFilterSpace (s ! k) \<and> s ! k \<noteq> QUOTE" and "i \<le> j" and "j \<le> length s"
  shows "j \<le> token_end s i False"
  using token_end_skip [OF assms] token_end_ge [of j s False] by simp

lemma keyEnd_slice_chars: "keyEnd s i = Some e \<Longrightarrow> test_at (\<lambda>c. c = COLON \<or> c = EQUALS) s e"
  by (auto simp: keyEnd_def Let_def split: if_splits)

text \<open>A token's separator is where the parser would see the end of a key.\<close>

lemma token_at_separator:
  assumes "fr < length s" and "\<not> isFilterSpace (s ! fr)" and "k_separator (token_at s regex fr) = Some sep"
  shows "keyEnd s (k_body (token_at s regex fr)) = Some sep" and "k_kind (token_at s regex fr) = KindTerm"
    and "sep < k_to (token_at s regex fr)"
proof -
  let ?b = "body_at s fr" and ?e = "token_end s (body_at s fr) False"
  note b = token_at_bounds [OF assms(1,2), of regex]
  have bk: "k_body (token_at s regex fr) = ?b" "k_to (token_at s regex fr) = ?e"
    by (simp_all add: token_at_def Let_def)
  have t: "test_at isAsciiAlpha s ?b" "sep = run_end isKeyChar (take ?e s) (?b + 1)"
      "test_at (\<lambda>c. c = COLON \<or> c = EQUALS) s sep" "k_kind (token_at s regex fr) = KindTerm"
    using assms(3) by (auto simp: token_at_def token_shape_def Let_def split: if_splits)
  have sep: "sep = min (run_end isKeyChar s (?b + 1)) ?e" using t(2) b bk by (simp add: run_end_take)
  have "\<not> test_at (\<lambda>c. c = COLON \<or> c = EQUALS) s ?e"
    using b bk by (intro token_end_no_separator) simp
  then have lt: "sep < ?e" using t(3) sep by (metis min.cobounded2 order_le_less)
  then have run: "sep = run_end isKeyChar s (?b + 1)" using sep by linarith
  with t show "keyEnd s (k_body (token_at s regex fr)) = Some sep" by (simp add: keyEnd_def bk)
  show "k_kind (token_at s regex fr) = KindTerm" using t(4) .
  show "sep < k_to (token_at s regex fr)" using lt bk by simp
qed

lemma value_context_fits:
  assumes "fr < length s" and "\<not> isFilterSpace (s ! fr)" and t: "t = token_at s regex fr"
    and "k_separator t = Some sep" and "caret \<le> k_to t"
  shows "context_fits s caret (value_context s caret t sep)"
proof -
  note b = token_at_bounds [OF assms(1,2), of regex, folded t]
  note sp = token_at_separator [OF assms(1,2), of regex sep, folded t, OF assms(4)]
  obtain p j where r: "read_op s (sep + 1) = (p, j)" by (cases "read_op s (sep + 1)")
  then have j: "sep + 1 \<le> j" "j \<le> length s" using read_op_ge [OF r] sp(3) b(3) by auto
  have "\<not> isFilterSpace (s ! k) \<and> s ! k \<noteq> QUOTE" if "k_body t \<le> k" "k < j" for k
    using keyEnd_inside [OF sp(1) that(1)] read_op_inside [OF r _ that(2)] by (cases "k \<le> sep") auto
  then have "j \<le> k_to t"
    using token_end_reaches [of "k_body t" j s] j keyEnd_gt [OF sp(1)] b(4) by auto
  then show ?thesis
    using key_of_keyEnd [OF sp(1)] b assms(5) r
    by (auto simp: value_context_def slice_def Let_def)
qed

lemma key_context_fits:
  assumes "fr < length s" and "\<not> isFilterSpace (s ! fr)" and t: "t = token_at s regex fr"
    and "k_body t \<le> caret" and "caret \<le> k_to t"
  shows "context_fits s caret (key_context s caret defs t)"
proof (cases "keyShaped (slice s (k_body t) caret)")
  case False
  with assms token_at_bounds [OF assms(1,2), of regex] show ?thesis by (simp add: key_context_def Let_def)
next
  case True
  let ?b = "k_body t" and ?e = "run_end isKeyChar (take (k_to t) s) (k_body t)"
  note b = token_at_bounds [OF assms(1,2), of regex, folded t]
  have keys: "list_all isKeyChar (slice s ?b caret)" using keyShaped_units [OF True] .
  have take: "takeWhile isKeyChar (slice s ?b caret) = slice s ?b caret"
    using keys by (simp add: takeWhile_eq_all_conv list_all_iff)
  have "slice s ?b caret = take (caret - ?b) (drop ?b (take (k_to t) s))"
    using assms(5) by (simp add: slice_def drop_take min_def)
  then have "length (slice s ?b caret) \<le> length (takeWhile isKeyChar (drop ?b (take (k_to t) s)))"
    using take takeWhile_take [of isKeyChar "caret - ?b"] by (metis length_take min.cobounded1)
  moreover have "length (slice s ?b caret) = caret - ?b" using b assms(5) by simp
  ultimately have "caret \<le> ?e" using assms(4) by (simp add: run_end_def)
  moreover have "?e \<le> k_to t" using run_end_le [of ?b "take (k_to t) s" isKeyChar] b by simp
  moreover have "f_kind d = KPath" if "List.find (prefix_match l) ds = Some d" for l ds d
    using that by (auto simp: find_Some_iff prefix_match_def)
  ultimately show ?thesis
    using True keys b assms(4) by (auto simp: key_context_def Let_def split: option.split)
qed

section \<open>Properties\<close>

text \<open>
  C11. While a filter is typed its tokens stand in order, none empty, none overlapping another,
  none past the end, and whatever no token covers is whitespace -- for every text, however
  unfinished.
\<close>

theorem tokens_cover:
  assumes "i < length text" and "\<not> isFilterSpace (text ! i)"
  shows "spans_in 0 (length text) (map token_span (filterTokens text regex)) \<and>
    (\<exists>t\<in>set (filterTokens text regex). k_from t \<le> i \<and> i < k_to t)"
  using typed.pieces_in_order [of "(text, regex, 0)"] typed.pieces_cover [of "(text, regex, 0)" i] assms
  by (simp add: filterTokens_def token_span_def)

theorem tokens_cover_witness:
  "spans_in 0 9 (map token_span (filterTokens (js '' -k:\"a b '') True)) \<and>
    (\<exists>t\<in>set (filterTokens (js '' -k:\"a b '') True). k_from t \<le> 7 \<and> 7 < k_to t)"
proof -
  have l: "length (js '' -k:\"a b '') = 9" by code_simp
  have "7 < length (js '' -k:\"a b '')" "\<not> isFilterSpace (js '' -k:\"a b '' ! 7)" by code_simp+
  from tokens_cover [OF this] show ?thesis unfolding l by blast
qed

text \<open>
  C12. The forgiving scanner and the parser agree: on a text the parser accepts (in a list without
  regexes) the tokens are exactly the parsed items, with the same spans in UTF-16 units, the same
  negations and the same answer to whether an item is a \<open>key:value\<close> term, although one reads units
  and the other code points.
\<close>

theorem tokens_match_parser:
  assumes "units_ok text" and "parseFilter text False = Inr q"
  shows "map token_view (filterTokens text False) = map item_view (in_order q)"
proof -
  let ?cs = "code_points text"
  have "parse_loop ?cs False 0 \<lparr>q_terms = [], q_words = [], q_regexes = []\<rparr> = Inr q"
    using assms(2) by (simp add: parseFilter_def parse_def)
  then obtain its where "q = of_items its" "spans_in 0 (offset ?cs (length ?cs)) (map item_span its)"
      "map token_view (filterTokens_loop (join_points ?cs) False 0) = map item_view its"
    by (rule parse_loop_tokens) (auto simp: parse_loop_items)
  then show ?thesis
    using assms(1) by (simp add: filterTokens_def join_code_points in_order_of_items)
qed

theorem tokens_match_parser_witness:
  "\<exists>q. parseFilter (js ''-k:\"a b\" '' @ [0xD83D, 0xDE00]) False = Inr q \<and>
     map token_view (filterTokens (js ''-k:\"a b\" '' @ [0xD83D, 0xDE00]) False) = map item_view (in_order q) \<and>
     map item_view (in_order q) = [((0, 8), True, True), ((9, 11), False, False)]"
proof -
  let ?t = "js ''-k:\"a b\" '' @ [0xD83D, 0xDE00]"
  let ?q = "\<lparr>q_terms = [\<lparr>t_key = js ''k'', t_op = OpEq, t_value = js ''a b'', t_negated = True, t_from = 0, t_to = 8\<rparr>],
          q_words = [\<lparr>w_text = [0xD83D, 0xDE00], w_negated = False, w_from = 9, w_to = 11\<rparr>], q_regexes = []\<rparr>"
  have u: "units_ok ?t" by code_simp
  have p: "parseFilter ?t False = Inr ?q" by code_simp
  have v: "map item_view (in_order ?q) = [((0, 8), True, True), ((9, 11), False, False)]" by code_simp
  show ?thesis by (rule exI [of _ ?q], intro conjI, rule p, rule tokens_match_parser [OF u p], rule v)
qed

text \<open>
  C13. Whatever the text and wherever the caret, the completion's answer fits: the range it would
  replace lies in the text and reaches the caret, what was typed of it is the text from its start
  to the caret, a key typed so far is made of key characters, and a value's key is a whole key.
\<close>

theorem context_in_text:
  assumes "caret \<le> length text"
  shows "context_fits text caret (contextAt text caret regex defs)"
proof (cases "List.find (\<lambda>t. k_from t \<le> caret \<and> caret \<le> k_to t) (filterTokens text regex)")
  case None
  with assms show ?thesis by (simp add: contextAt_def slice_def)
next
  case (Some t)
  then have t: "t \<in> set (filterTokens text regex)" "caret \<le> k_to t" by (auto simp: find_Some_iff)
  obtain fr where fr: "t = token_at text regex fr" "fr < length text" "\<not> isFilterSpace (text ! fr)"
    using filterTokens_wf [of t "text" regex 0] t(1) by (auto simp: filterTokens_def)
  note b = token_at_bounds [OF fr(2,3), of regex, folded fr(1)]
  show ?thesis
  proof (cases "caret < k_body t")
    case True
    with Some b show ?thesis by (simp add: contextAt_def slice_def)
  next
    case False
    then have key: "context_fits text caret (key_context text caret defs t)"
      using key_context_fits [OF fr(2,3,1)] t(2) by simp
    show ?thesis
      using False Some key value_context_fits [OF fr(2,3,1) _ t(2)]
      by (auto simp: contextAt_def split: token_kind.split option.split)
  qed
qed

theorem context_in_text_witness:
  "contextAt (js ''a -size:>=1'') 11 False [] = CtxValue (js ''size'') OpGe 10 11 (js ''1'') False True \<and>
   context_fits (js ''a -size:>=1'') 11 (contextAt (js ''a -size:>=1'') 11 False [])"
proof -
  have "11 \<le> length (js ''a -size:>=1'')" by code_simp
  moreover have "contextAt (js ''a -size:>=1'') 11 False [] = CtxValue (js ''size'') OpGe 10 11 (js ''1'') False True"
    by code_simp
  ultimately show ?thesis using context_in_text by blast
qed

section \<open>Where the two disagree\<close>

text \<open>
  In a list with regexes the agreement of C12 fails: a pattern may hold spaces for the parser,
  but the scanner ends its token at the first of them and reads the rest as words, so a caret
  inside the pattern is offered keys.
\<close>

lemma regex_with_space_splits:
  "parseFilter (js ''/a b/'') True =
     Inr \<lparr>q_terms = [], q_words = [],
          q_regexes = [\<lparr>r_pattern = js ''a b'', r_caseInsensitive = False, r_negated = False, r_from = 0, r_to = 5\<rparr>]\<rparr> \<and>
   map token_span (filterTokens (js ''/a b/'') True) = [(0, 2), (3, 5)] \<and>
   contextAt (js ''/a b/'') 4 True [] = CtxKey 3 4 (js ''b'') False False"
  by code_simp

end
