(* ===== verification/JS_Number.thy ===== *)
theory JS_Number
  imports JS_Base Complex_Main "HOL-Library.Log_Nat"
begin

text \<open>
  JavaScript numbers: a finite double is the rational it stands for (the two zeros are one), and
  an operation is the exact one followed by rounding to the nearest double, ties to even, with
  overflow to infinity and gradual underflow.
\<close>

datatype jsnum = Fin rat | PInf | NInf | NaN

definition exp2 :: "int \<Rightarrow> rat" where
  "exp2 k = (if 0 \<le> k then 2 ^ nat k else 1 / 2 ^ nat (- k))"

lemma exp2_pos [simp]: "0 < exp2 k"
  by (simp add: exp2_def)

lemma exp2_nonzero [simp]: "exp2 k \<noteq> 0"
  by (simp add: exp2_def)

lemma exp2_0 [simp]: "exp2 0 = 1"
  by (simp add: exp2_def)

text \<open>The exponent of a positive rational: \<open>exp2 e \<le> x < exp2 (e + 1)\<close>.\<close>

definition exponent :: "rat \<Rightarrow> int" where
  "exponent x =
     (let (p, q) = quotient_of x;
          e = int (floorlog 2 (nat p)) - int (floorlog 2 (nat q))
      in if exp2 e \<le> x then e else e - 1)"

text \<open>Round to the nearest integer, ties to even.\<close>

definition round_even :: "rat \<Rightarrow> int" where
  "round_even x =
     (let n = \<lfloor>x\<rfloor>; r = x - of_int n
      in if r < 1 / 2 then n else if 1 / 2 < r then n + 1 else if even n then n else n + 1)"

definition round_pos :: "rat \<Rightarrow> rat" where
  "round_pos x = (let u = exp2 (max (exponent x - 52) (- 1074)) in of_int (round_even (x / u)) * u)"

definition toDouble :: "rat \<Rightarrow> jsnum" where
  "toDouble x =
     (if x = 0 then Fin 0
      else let y = round_pos \<bar>x\<bar>
           in if exp2 1024 \<le> y then (if 0 < x then PInf else NInf)
              else Fin (if 0 < x then y else - y))"

section \<open>Operations\<close>

definition is_finite :: "jsnum \<Rightarrow> bool" where
  "is_finite x \<longleftrightarrow> (case x of Fin _ \<Rightarrow> True | _ \<Rightarrow> False)"

text \<open>\<open>x * c\<close> for a finite positive \<open>c\<close>.\<close>

fun mul_pos :: "jsnum \<Rightarrow> rat \<Rightarrow> jsnum" where
  "mul_pos (Fin a) c = toDouble (a * c)"
| "mul_pos x c = x"

text \<open>\<open>Math.round\<close>: the nearest integer, ties upward.\<close>

fun math_round :: "jsnum \<Rightarrow> jsnum" where
  "math_round (Fin a) = Fin (of_int \<lfloor>a + 1 / 2\<rfloor>)"
| "math_round x = x"

section \<open>Integers are exact\<close>

lemma round_even_int [simp]: "round_even (of_int n) = n"
  by (simp add: round_even_def)

lemma exponent_int_bounds:
  assumes "0 < n"
  shows "exponent (of_int n) = int (floorlog 2 (nat n)) - 1"
proof -
  have q: "quotient_of (of_int n) = (n, 1)" by (simp add: of_int_rat quotient_of_Fract)
  let ?l = "floorlog 2 (nat n)"
  have l: "0 < ?l" using assms by (simp add: floorlog_def)
  have b: "2 ^ (?l - 1) \<le> nat n" "nat n < 2 ^ ?l" using floorlog_bounds [of "nat n" 2] assms by auto
  have "(2::nat) ^ (?l - 1) \<le> nat n \<Longrightarrow> (2::int) ^ (?l - 1) \<le> n"
    using assms by (metis int_nat_eq less_imp_le of_nat_le_iff of_nat_numeral of_nat_power)
  then have lo: "(2::rat) ^ (?l - 1) \<le> of_int n"
    using b(1) by (metis of_int_le_iff of_int_numeral of_int_power)
  have e1: "int ?l - int (floorlog 2 (nat 1)) = int (?l - 1)"
    using l by (simp add: floorlog_def)
  then show ?thesis
    using lo l by (simp add: exponent_def q exp2_def Let_def nat_diff_distrib)
qed

lemma round_pos_int:
  assumes "0 < n" and "n \<le> 2 ^ 53"
  shows "round_pos (of_int n) = of_int n"
proof -
  let ?l = "floorlog 2 (nat n)"
  let ?k = "max (exponent (of_int n) - 52) (- 1074)"
  have b: "2 ^ (?l - 1) \<le> nat n" "0 < ?l" using floorlog_bounds [of "nat n" 2] assms by (auto simp: floorlog_def)
  show ?thesis
  proof (cases "n = 2 ^ 53")
    case True
    have "floorlog 2 (1 * 2 ^ 53) = 54"
      by (subst floorlog_power) (simp_all add: floorlog_def)
    moreover have "nat n = 1 * 2 ^ 53" by (simp add: True)
    ultimately have "exponent (of_int n) = 53"
      using exponent_int_bounds [OF assms(1)] by simp
    then show ?thesis
      unfolding True by (simp add: round_pos_def exp2_def round_even_def)
  next
    case False
    then have "nat n < 2 ^ 53" using assms by auto
    then have "(2::nat) ^ (?l - 1) < 2 ^ 53" using b(1) by linarith
    then have "?l - 1 < 53" by (rule power_less_imp_less_exp [rotated]) simp
    then have "?l \<le> 53" by linarith
    then have k: "?k \<le> 0" by (simp add: exponent_int_bounds assms(1))
    then have d: "of_int n / exp2 ?k = of_int (n * 2 ^ nat (- ?k))"
      by (simp add: exp2_def)
    have "of_int (round_even (of_int n / exp2 ?k)) * exp2 ?k = of_int n / exp2 ?k * exp2 ?k"
      unfolding d round_even_int ..
    also have "\<dots> = of_int n" by simp
    finally show ?thesis by (simp only: round_pos_def Let_def)
  qed
qed

lemma toDouble_int:
  assumes "\<bar>n\<bar> \<le> 2 ^ 53"
  shows "toDouble (of_int n) = Fin (of_int n)"
proof (cases "n = 0")
  case False
  then have r: "round_pos \<bar>of_int n\<bar> = \<bar>of_int n\<bar>"
    using round_pos_int [of "\<bar>n\<bar>"] assms by (simp flip: of_int_abs)
  have "of_int \<bar>n\<bar> \<le> (of_int (2 ^ 53) :: rat)" using assms by (subst of_int_le_iff)
  then have "\<bar>of_int n\<bar> \<le> (2 ^ 53 :: rat)" by simp
  moreover have "(2 ^ 53 :: rat) < 2 ^ 1024" by (rule power_strict_increasing) auto
  ultimately have "\<not> exp2 1024 \<le> \<bar>of_int n\<bar>" by (simp add: exp2_def)
  with False r show ?thesis by (auto simp: toDouble_def Let_def)
qed (simp add: toDouble_def)

end
