(* ===== verification/Filter_Values.thy ===== *)
theory Filter_Values
  imports Filter_Parse JS_Number
begin

text \<open>
  The values a filter's terms take (\<open>parseNumber\<close>, \<open>parseBytes\<close>, \<open>parseDuration\<close>, \<open>parseTime\<close> and
  the calendar behind them, in \<open>console/src/lib/filter.ts\<close>). \<open>null\<close> is \<^const>\<open>None\<close>.
\<close>

section \<open>Numbers, sizes and durations\<close>

definition allAsciiDigits :: "jstring \<Rightarrow> bool" where
  "allAsciiDigits text \<longleftrightarrow> list_all isAsciiDigit (code_points text)"

text \<open>The value of \<open>whole.fraction\<close>, exactly.\<close>

definition decimal :: "jstring \<Rightarrow> jstring \<Rightarrow> rat" where
  "decimal whole fraction = of_nat (read_nat whole) + of_nat (read_nat fraction) / 10 ^ length fraction"

definition parseNumber :: "jstring \<Rightarrow> jsnum option" where
  "parseNumber text =
     (let negative = text \<noteq> [] \<and> hd text = DASH;
          digits = (if negative then tl text else text);
          point = run_end (\<lambda>c. c \<noteq> 46) digits 0;
          found = point < length digits;
          whole = (if found then take point digits else digits);
          fraction = (if found then drop (point + 1) digits else []);
          fractionOk = (\<not> found \<or> fraction \<noteq> [])
      in if whole = [] \<or> \<not> allAsciiDigits whole \<or> \<not> allAsciiDigits fraction \<or> \<not> fractionOk then None
         else Some (toDouble ((if negative then - 1 else 1) * decimal whole fraction)))"

definition numberAndUnit :: "jstring \<Rightarrow> (jsnum \<times> jstring) option" where
  "numberAndUnit text =
     (let split = run_end (\<lambda>c. isAsciiDigit c \<or> c = 46) text 0; number = take split text
      in if number = [] \<or> hd number = DASH then None
         else case parseNumber number of
                None \<Rightarrow> None
              | Some parsed \<Rightarrow> Some (parsed, asciiLower (drop split text)))"

text \<open>
  The lookup of a unit. A unit that names an inherited property of an object
  (\<open>constructor\<close>) finds a function in the code, and the product with it is \<open>NaN\<close>, which is
  refused like a unit not found.
\<close>

definition byte_powers :: "(jstring \<times> nat) list" where
  "byte_powers = [(js '''', 0), (js ''b'', 0), (js ''kb'', 1), (js ''mb'', 2), (js ''gb'', 3), (js ''tb'', 4)]"

definition parseBytes :: "jstring \<Rightarrow> jsnum option" where
  "parseBytes text =
     (case numberAndUnit text of
        None \<Rightarrow> None
      | Some (number, unit) \<Rightarrow>
          (case map_of byte_powers unit of
             None \<Rightarrow> None
           | Some pow \<Rightarrow>
               let bytes = mul_pos number (1024 ^ pow)
               in if is_finite bytes then Some (math_round bytes) else None))"

definition DURATION_SECONDS_CAP :: rat where
  "DURATION_SECONDS_CAP = 2 ^ 64"

fun fin_value :: "jsnum \<Rightarrow> rat" where
  "fin_value (Fin r) = r"
| "fin_value _ = 0"

definition duration_scale :: "(jstring \<times> rat) list" where
  "duration_scale =
     [(js ''ms'', fin_value (toDouble (1 / 1000))), (js ''s'', 1), (js ''m'', 60), (js ''h'', 3600)]"

definition parseDuration :: "jstring \<Rightarrow> jsnum option" where
  "parseDuration text =
     (case numberAndUnit text of
        None \<Rightarrow> None
      | Some (number, unit) \<Rightarrow>
          (case map_of duration_scale unit of
             None \<Rightarrow> None
           | Some factor \<Rightarrow>
               let seconds = mul_pos number factor
               in if \<not> is_finite seconds \<or> fin_value seconds < 0 \<or> fin_value seconds \<ge> DURATION_SECONDS_CAP
                  then None else Some (mul_pos seconds 1000)))"

section \<open>The calendar\<close>

definition isLeapYear :: "int \<Rightarrow> bool" where
  "isLeapYear year \<longleftrightarrow> (year mod 4 = 0 \<and> year mod 100 \<noteq> 0) \<or> year mod 400 = 0"

definition daysInMonth :: "int \<Rightarrow> int \<Rightarrow> int" where
  "daysInMonth year month =
     (if month = 2 then if isLeapYear year then 29 else 28
      else if month = 4 \<or> month = 6 \<or> month = 9 \<or> month = 11 then 30 else 31)"

text \<open>
  The language's \<open>Date\<close>: the day a year starts on, counted from 1970-01-01, and the days of the
  year before a month.
\<close>

definition day_from_year :: "int \<Rightarrow> int" where
  "day_from_year y =
     365 * (y - 1970) + (y - 1969) div 4 - (y - 1901) div 100 + (y - 1601) div 400"

fun days_before :: "int \<Rightarrow> nat \<Rightarrow> int" where
  "days_before year 0 = 0"
| "days_before year (Suc m) = days_before year m + daysInMonth year (int (Suc m))"

definition month_start :: "int \<Rightarrow> int \<Rightarrow> int" where
  "month_start year month = days_before year (nat (month - 1))"

text \<open>\<open>new Date(0)\<close>, \<open>setUTCFullYear\<close>, \<open>setUTCHours\<close> and \<open>getTime\<close>.\<close>

definition utcMs :: "int \<Rightarrow> int \<Rightarrow> int \<Rightarrow> int \<Rightarrow> int \<Rightarrow> int \<Rightarrow> int" where
  "utcMs year month day hour minute second =
     (day_from_year year + month_start year month + day - 1) * 86400000 +
     hour * 3600000 + minute * 60000 + second * 1000"

text \<open>\<open>getUTCFullYear\<close> and the other getters, of a whole number of milliseconds.\<close>

definition year_of_day :: "int \<Rightarrow> int" where
  "year_of_day d =
     (let y = 1970 + (400 * d) div 146097
      in if d < day_from_year y then y - 1 else if day_from_year (y + 1) \<le> d then y + 1 else y)"

definition month_of :: "int \<Rightarrow> int \<Rightarrow> int" where
  "month_of year doy =
     (case List.find (\<lambda>m. doy < month_start year (m + 1)) [1, 2, 3, 4, 5, 6, 7, 8, 9, 10, 11] of
        Some m \<Rightarrow> m | None \<Rightarrow> 12)"

record utc_fields =
  getUTCFullYear :: int
  getUTCMonth1 :: int
  getUTCDate :: int
  getUTCHours :: int
  getUTCMinutes :: int
  getUTCSeconds :: int

definition utc_of :: "int \<Rightarrow> utc_fields" where
  "utc_of t =
     (let d = t div 86400000; ms = t mod 86400000; y = year_of_day d; doy = d - day_from_year y;
          m = month_of y doy
      in \<lparr>getUTCFullYear = y, getUTCMonth1 = m, getUTCDate = doy - month_start y m + 1,
          getUTCHours = ms div 3600000, getUTCMinutes = ms div 60000 mod 60, getUTCSeconds = ms div 1000 mod 60\<rparr>)"

section \<open>Times\<close>

definition valid_day :: "int \<Rightarrow> int \<Rightarrow> int \<Rightarrow> bool" where
  "valid_day year month day \<longleftrightarrow> 1 \<le> month \<and> month \<le> 12 \<and> 1 \<le> day \<and> day \<le> daysInMonth year month"

text \<open>A group of the regular expressions: \<open>n\<close> digits from place \<open>i\<close>, and their value.\<close>

definition digits_at :: "jstring \<Rightarrow> nat \<Rightarrow> nat \<Rightarrow> bool" where
  "digits_at text i n \<longleftrightarrow> i + n \<le> length text \<and> list_all isAsciiDigit (slice text i (i + n))"

definition number_at :: "jstring \<Rightarrow> nat \<Rightarrow> nat \<Rightarrow> int" where
  "number_at text i n = int (read_nat (slice text i (i + n)))"

definition char_at :: "nat \<Rightarrow> jstring \<Rightarrow> nat \<Rightarrow> bool" where
  "char_at c text i = test_at (\<lambda>x. x = c) text i"

definition date_shape :: "jstring \<Rightarrow> bool" where
  "date_shape text \<longleftrightarrow>
     digits_at text 0 4 \<and> char_at DASH text 4 \<and> digits_at text 5 2 \<and> char_at DASH text 7 \<and> digits_at text 8 2"

definition parseDate :: "jstring \<Rightarrow> jsnum option" where
  "parseDate text =
     (if \<not> (length text = 10 \<and> date_shape text) then None
      else let year = number_at text 0 4; month = number_at text 5 2; day = number_at text 8 2
           in if \<not> valid_day year month day then None
              else Some (Fin (of_int (utcMs year month day 0 0 0))))"

text \<open>What follows the seconds: the fraction's digits if any, and the offset if it is not \<open>Z\<close>.\<close>

definition zone_of :: "jstring \<Rightarrow> (bool \<times> int \<times> int) option option" where
  "zone_of rest =
     (if rest = [90] \<or> rest = [122] then Some None
      else if length rest = 6 \<and> (rest ! 0 = 43 \<or> rest ! 0 = DASH) \<and> digits_at rest 1 2 \<and>
              char_at COLON rest 3 \<and> digits_at rest 4 2
      then Some (Some (rest ! 0 = DASH, number_at rest 1 2, number_at rest 4 2))
      else None)"

definition fraction_of :: "jstring \<Rightarrow> jstring option \<times> jstring" where
  "fraction_of rest =
     (if rest \<noteq> [] \<and> hd rest = 46 \<and> takeWhile isAsciiDigit (tl rest) \<noteq> []
      then (Some (takeWhile isAsciiDigit (tl rest)), dropWhile isAsciiDigit (tl rest))
      else (None, rest))"

definition clock_shape :: "jstring \<Rightarrow> bool" where
  "clock_shape text \<longleftrightarrow>
     date_shape text \<and> test_at (\<lambda>c. c < 0x80) text 10 \<and> digits_at text 11 2 \<and> char_at COLON text 13 \<and>
     digits_at text 14 2 \<and> char_at COLON text 16 \<and> digits_at text 17 2"

text \<open>The check of a leap second: only the last second of a month, in UTC.\<close>

definition leap_allowed :: "int \<Rightarrow> bool" where
  "leap_allowed at0 \<longleftrightarrow>
     (let utc = utc_of at0; utcYear = getUTCFullYear utc
      in \<not> (utcYear < - 9999 \<or> utcYear > 9999) \<and>
         getUTCHours utc = 23 \<and> getUTCMinutes utc = 59 \<and> getUTCSeconds utc = 59 \<and>
         getUTCDate utc = daysInMonth utcYear (getUTCMonth1 utc))"

definition parseRfc3339 :: "jstring \<Rightarrow> jsnum option" where
  "parseRfc3339 text =
     (if \<not> clock_shape text then None
      else let (fraction, rest) = fraction_of (drop 19 text)
      in case zone_of rest of
           None \<Rightarrow> None
         | Some zone \<Rightarrow>
             let year = number_at text 0 4; month = number_at text 5 2; day = number_at text 8 2;
                 hour = number_at text 11 2; minute = number_at text 14 2; second = number_at text 17 2;
                 offsetHours = (case zone of None \<Rightarrow> 0 | Some (_, oh, _) \<Rightarrow> oh);
                 offsetMinutes = (case zone of None \<Rightarrow> 0 | Some (_, _, om) \<Rightarrow> om);
                 negative = (case zone of None \<Rightarrow> False | Some (n, _, _) \<Rightarrow> n);
                 offset = (if negative then - 1 else 1) * (offsetHours * 60 + offsetMinutes);
                 leap = (second = 60);
                 milliseconds =
                   (if leap then 999
                    else case fraction of
                           None \<Rightarrow> 0
                         | Some f \<Rightarrow> fin_value (mul_pos (toDouble (decimal [] (take 9 f))) 1000))
             in if \<not> valid_day year month day then None
                else if hour > 23 \<or> minute > 59 \<or> second > 60 then None
                else if offsetHours > 23 \<or> offsetMinutes > 59 then None
                else let whole = utcMs year month day hour minute (if leap then 59 else second) - offset * 60000
                     in if leap \<and> \<not> leap_allowed (whole + 999) then None
                        else Some (toDouble (of_int whole + milliseconds)))"

definition EARLIEST_MS :: int where
  "EARLIEST_MS = utcMs (- 9999) 1 1 0 0 0"

definition relative_units :: "(nat \<times> nat) list" where
  "relative_units = [(115, 1), (109, 60), (104, 3600), (100, 86400), (119, 604800)]"

definition I64_MAX :: nat where
  "I64_MAX = 9223372036854775807"

definition utf8Length :: "jstring \<Rightarrow> nat" where
  "utf8Length text =
     sum_list (map (\<lambda>c. if c < 0x80 then 1 else if c < 0x800 then 2 else if c < 0x10000 then 3 else 4)
       (code_points text))"

text \<open>\<open>-<n><unit>\<close>, the minus already taken off.\<close>

definition relative_time :: "jstring \<Rightarrow> rat \<Rightarrow> jsnum option" where
  "relative_time lower now =
     (let relative = code_points lower; amount = join_points (butlast relative)
      in if relative = [] \<or> amount = [] \<or> \<not> allAsciiDigits amount then None
         else case map_of relative_units (last relative) of
                None \<Rightarrow> None
              | Some scale \<Rightarrow>
                  let count = read_nat amount; seconds = count * scale
                  in if count > I64_MAX \<or> seconds > I64_MAX \<or> seconds > 10 ^ 13 then None
                     else let at0 = toDouble (now - fin_value (toDouble (of_nat seconds * 1000)))
                          in if fin_value at0 < of_int EARLIEST_MS then None else Some at0)"

definition parseTime :: "jstring \<Rightarrow> rat \<Rightarrow> jsnum option" where
  "parseTime text now =
     (let lower = asciiLower text
      in if lower = js ''now'' then Some (Fin now)
         else if lower = js ''today''
         then Some (toDouble (of_int \<lfloor>fin_value (toDouble (now / 86400000))\<rfloor> * 86400000))
         else if lower \<noteq> [] \<and> hd lower = DASH then relative_time (tl lower) now
         else if utf8Length text = 10 then parseDate text
         else parseRfc3339 text)"

section \<open>The calendar goes both ways\<close>

lemma isLeapYear_div:
  "isLeapYear y \<longleftrightarrow> (4 dvd y \<and> \<not> 100 dvd y) \<or> 400 dvd y"
  by (auto simp: isLeapYear_def dvd_eq_mod_eq_0)

lemma div_step:
  fixes x k :: int
  assumes "0 < k"
  shows "(x + 1) div k = x div k + (if k dvd x + 1 then 1 else 0)"
proof (cases "k dvd x + 1")
  case True
  then obtain q where q: "x + 1 = k * q" by (rule dvdE)
  have "x div k = q - 1"
    using q assms by (intro int_div_pos_eq [of x k "q - 1" "k - 1"]) (auto simp: algebra_simps)
  with True q assms show ?thesis by simp
next
  case False
  have "x mod k + 1 \<noteq> k"
  proof
    assume "x mod k + 1 = k"
    then have "x + 1 = k * (x div k) + k" using mult_div_mod_eq [of k x] by linarith
    then show False using False by (metis dvd_add dvd_triv_left dvd_refl)
  qed
  then have "x mod k + 1 < k" "0 \<le> x mod k + 1"
    using pos_mod_bound [OF assms, of x] pos_mod_sign [OF assms, of x] by linarith+
  then have "(x + 1) div k = x div k"
    using mult_div_mod_eq [of k x] by (intro int_div_pos_eq [of _ _ _ "x mod k + 1"]) linarith+
  with False show ?thesis by simp
qed

lemma year_length: "day_from_year (y + 1) = day_from_year y + (if isLeapYear y then 366 else 365)"
proof -
  have d: "4 dvd y - 1969 + 1 \<longleftrightarrow> 4 dvd y" "100 dvd y - 1901 + 1 \<longleftrightarrow> 100 dvd y" "400 dvd y - 1601 + 1 \<longleftrightarrow> 400 dvd y"
    using dvd_add_times_triv_right_iff [of 4 y "- 492"] dvd_add_times_triv_right_iff [of 100 y "- 19"]
      dvd_add_times_triv_right_iff [of 400 y "- 4"] by simp_all
  have i: "400 dvd y \<Longrightarrow> 100 dvd y" "100 dvd y \<Longrightarrow> 4 dvd y"
    by (rule dvd_trans [of 100 400 y, rotated], assumption, simp)
      (rule dvd_trans [of 4 100 y, rotated], assumption, simp)
  have e: "y + 1 - 1969 = y - 1969 + 1" "y + 1 - 1901 = y - 1901 + 1" "y + 1 - 1601 = y - 1601 + 1" "y + 1 - 1970 = y - 1970 + 1"
    by simp_all
  note s = div_step [of 4 "y - 1969", unfolded d, OF zero_less_numeral]
    div_step [of 100 "y - 1901", unfolded d, OF zero_less_numeral]
    div_step [of 400 "y - 1601", unfolded d, OF zero_less_numeral]
  have sum: "365 * (t + 1) + (a + u) - (b + v) + (c + w) - (365 * t + a - b + c) = 365 + u - v + w"
    for t a b c u v w :: int by simp
  have "day_from_year (y + 1) - day_from_year y =
      365 + (if 4 dvd y then 1 else 0) - (if 100 dvd y then 1 else 0) + (if 400 dvd y then 1 else 0)"
    unfolding day_from_year_def e s by (rule sum)
  then show ?thesis
    using i by (cases "4 dvd y"; cases "100 dvd y"; cases "400 dvd y") (simp_all add: isLeapYear_div)
qed

lemma day_from_year_less: "y < z \<Longrightarrow> day_from_year y < day_from_year z"
proof (induction "nat (z - y)" arbitrary: z)
  case (Suc n)
  then have "n = nat (z - 1 - y)" by simp
  with Suc have "y = z - 1 \<or> day_from_year y < day_from_year (z - 1)" by (cases "y = z - 1") auto
  with year_length [of "z - 1"] show ?case by auto
qed simp

lemma div_bounds:
  fixes k x :: int
  assumes "0 < k"
  shows "k * (x div k) \<le> x" and "x < k * (x div k) + k"
  using mult_div_mod_eq [of k x] pos_mod_bound [OF assms, of x] pos_mod_sign [OF assms, of x]
  by linarith+

lemma day_from_year_near:
  "400 * day_from_year z \<le> 146097 * (z - 1970) + 800" "146097 * (z - 1970) - 800 \<le> 400 * day_from_year z"
proof -
  define a b c where "a = (z - 1969) div 4" and "b = (z - 1901) div 100" and "c = (z - 1601) div 400"
  have "4 * a \<le> z - 1969" "z - 1969 < 4 * a + 4" "100 * b \<le> z - 1901" "z - 1901 < 100 * b + 100"
    "400 * c \<le> z - 1601" "z - 1601 < 400 * c + 400"
    unfolding a_def b_def c_def by (rule div_bounds; simp)+
  moreover have "day_from_year z = 365 * (z - 1970) + a - b + c"
    by (simp only: day_from_year_def a_def b_def c_def)
  ultimately have "400 * day_from_year z \<le> 146097 * (z - 1970) + 800 \<and>
      146097 * (z - 1970) - 800 \<le> 400 * day_from_year z" by simp
  then show "400 * day_from_year z \<le> 146097 * (z - 1970) + 800"
      "146097 * (z - 1970) - 800 \<le> 400 * day_from_year z" by blast+
qed

lemma year_of_day_bounds:
  "day_from_year (year_of_day d) \<le> d \<and> d < day_from_year (year_of_day d + 1)"
proof -
  define q where "q = (400 * d) div 146097"
  have q: "146097 * q \<le> 400 * d" "400 * d < 146097 * q + 146097"
    unfolding q_def by (rule div_bounds; simp)+
  have "day_from_year (1970 + q - 1) \<le> d" "d < day_from_year (1970 + q + 2)"
    using day_from_year_near(1) [of "1970 + q - 1"] day_from_year_near(2) [of "1970 + q + 2"] q
    by simp_all
  then show ?thesis
    unfolding year_of_day_def Let_def q_def [symmetric] by (simp add: add.commute)
qed

lemma year_of_day_eq: "day_from_year y \<le> d \<Longrightarrow> d < day_from_year (y + 1) \<Longrightarrow> year_of_day d = y"
proof (rule ccontr)
  assume d: "day_from_year y \<le> d" "d < day_from_year (y + 1)" and "year_of_day d \<noteq> y"
  then consider "year_of_day d + 1 \<le> y" | "y + 1 \<le> year_of_day d" by linarith
  then show False
    using d year_of_day_bounds [of d] day_from_year_less [of "year_of_day d + 1" y]
      day_from_year_less [of "y + 1" "year_of_day d"]
    by cases (cases "year_of_day d + 1 = y"; cases "y + 1 = year_of_day d"; fastforce)+
qed

lemma month_starts:
  "month_start y 1 = 0" "month_start y 2 = 31" "month_start y 3 = 31 + daysInMonth y 2"
  "month_start y 4 = 62 + daysInMonth y 2" "month_start y 5 = 92 + daysInMonth y 2"
  "month_start y 6 = 123 + daysInMonth y 2" "month_start y 7 = 153 + daysInMonth y 2"
  "month_start y 8 = 184 + daysInMonth y 2" "month_start y 9 = 215 + daysInMonth y 2"
  "month_start y 10 = 245 + daysInMonth y 2" "month_start y 11 = 276 + daysInMonth y 2"
  "month_start y 12 = 306 + daysInMonth y 2"
  by (simp_all add: month_start_def daysInMonth_def eval_nat_numeral)

lemma month_cases:
  fixes m :: int
  assumes "1 \<le> m" and "m \<le> 12"
  obtains "m = 1" | "m = 2" | "m = 3" | "m = 4" | "m = 5" | "m = 6"
    | "m = 7" | "m = 8" | "m = 9" | "m = 10" | "m = 11" | "m = 12"
proof -
  have "m = 1 \<or> m = 2 \<or> m = 3 \<or> m = 4 \<or> m = 5 \<or> m = 6 \<or> m = 7 \<or> m = 8 \<or> m = 9 \<or> m = 10 \<or> m = 11 \<or> m = 12"
    using assms by arith
  then show thesis using that by blast
qed

lemma month_of_start:
  assumes "valid_day y m d"
  shows "month_of y (month_start y m + d - 1) = m"
    and "0 \<le> month_start y m" and "month_start y m + d \<le> (if isLeapYear y then 366 else 365)"
proof -
  have v: "1 \<le> m" "m \<le> 12" "1 \<le> d" "d \<le> daysInMonth y m" using assms by (auto simp: valid_day_def)
  have f: "28 \<le> daysInMonth y 2" by (simp add: daysInMonth_def)
  from v(1,2) show "month_of y (month_start y m + d - 1) = m"
    by (rule month_cases; use v f in \<open>simp add: month_of_def month_starts\<close>; simp add: daysInMonth_def)
  from v(1,2) show "0 \<le> month_start y m"
    by (rule month_cases; use f in \<open>simp add: month_starts\<close>)
  from v(1,2) show "month_start y m + d \<le> (if isLeapYear y then 366 else 365)"
    by (rule month_cases; use v in \<open>simp add: month_starts daysInMonth_def split: if_splits\<close>)
qed

lemma utc_of_utcMs:
  assumes "valid_day y m d" and "0 \<le> h" "h \<le> 23" "0 \<le> mi" "mi \<le> 59" "0 \<le> s" "s \<le> 59" "0 \<le> ms" "ms \<le> 999"
  shows "utc_of (utcMs y m d h mi s + ms) =
    \<lparr>getUTCFullYear = y, getUTCMonth1 = m, getUTCDate = d, getUTCHours = h, getUTCMinutes = mi, getUTCSeconds = s\<rparr>"
proof -
  define day clock where "day = day_from_year y + month_start y m + d - 1"
    and "clock = h * 3600000 + mi * 60000 + s * 1000 + ms"
  have t: "utcMs y m d h mi s + ms = day * 86400000 + clock" by (simp add: utcMs_def day_def clock_def)
  have c: "0 \<le> clock" "clock < 86400000" using assms by (simp_all add: clock_def)
  have dm: "(day * 86400000 + clock) div 86400000 = day" "(day * 86400000 + clock) mod 86400000 = clock"
    using c by simp_all
  have d1: "1 \<le> d" using assms(1) by (simp add: valid_day_def)
  note mo = month_of_start [OF assms(1)]
  have y: "year_of_day day = y"
    using mo d1 by (intro year_of_day_eq) (simp_all add: day_def year_length split: if_splits)
  have w: "day - day_from_year y = month_start y m + d - 1" by (simp add: day_def)
  have "clock div 3600000 = h"
    by (rule int_div_pos_eq [where r = "mi * 60000 + s * 1000 + ms"]) (use assms in \<open>simp_all add: clock_def\<close>)
  moreover have "clock div 60000 = h * 60 + mi"
    by (rule int_div_pos_eq [where r = "s * 1000 + ms"]) (use assms in \<open>simp_all add: clock_def\<close>)
  moreover have "clock div 1000 = h * 3600 + mi * 60 + s"
    by (rule int_div_pos_eq [where r = ms]) (use assms in \<open>simp_all add: clock_def\<close>)
  moreover have "(h * 60 + mi) mod 60 = mi" "(h * 3600 + mi * 60 + s) mod 60 = s"
    using assms mod_mult_self3 [of "h * 60 + mi" 60 s] by (simp_all add: algebra_simps)
  ultimately show ?thesis
    unfolding utc_of_def Let_def t dm y w mo(1) by simp
qed

section \<open>Reading written values\<close>

text \<open>Zero-padded decimals and the texts made of them.\<close>

definition pad2 :: "nat \<Rightarrow> jstring" where
  "pad2 n = [48 + n div 10, 48 + n mod 10]"

definition pad4 :: "nat \<Rightarrow> jstring" where
  "pad4 n = [48 + n div 1000, 48 + n div 100 mod 10, 48 + n div 10 mod 10, 48 + n mod 10]"

definition date_text :: "nat \<Rightarrow> nat \<Rightarrow> nat \<Rightarrow> jstring" where
  "date_text y m d = pad4 y @ [DASH] @ pad2 m @ [DASH] @ pad2 d"

datatype zone = Zulu | Offset bool nat nat

fun zone_text :: "zone \<Rightarrow> jstring" where
  "zone_text Zulu = [90]"
| "zone_text (Offset west h m) = (if west then DASH else 43) # pad2 h @ [COLON] @ pad2 m"

fun zone_ok :: "zone \<Rightarrow> bool" where
  "zone_ok Zulu \<longleftrightarrow> True"
| "zone_ok (Offset west h m) \<longleftrightarrow> h \<le> 23 \<and> m \<le> 59"

fun zone_minutes :: "zone \<Rightarrow> int" where
  "zone_minutes Zulu = 0"
| "zone_minutes (Offset west h m) = (if west then - 1 else 1) * (int h * 60 + int m)"

definition instant_text :: "nat \<Rightarrow> nat \<Rightarrow> nat \<Rightarrow> nat \<Rightarrow> nat \<Rightarrow> nat \<Rightarrow> zone \<Rightarrow> jstring" where
  "instant_text y m d h mi s z =
     date_text y m d @ [84] @ pad2 h @ [COLON] @ pad2 mi @ [COLON] @ pad2 s @ zone_text z"

lemma digit_char: "n < 10 \<Longrightarrow> isAsciiDigit (48 + n)"
  by (simp add: isAsciiDigit_def)

lemma pad2_digits: "n < 100 \<Longrightarrow> list_all isAsciiDigit (pad2 n)"
  by (simp add: pad2_def digit_char)

lemma pad4_digits: "n < 10000 \<Longrightarrow> list_all isAsciiDigit (pad4 n)"
  by (simp add: pad4_def digit_char)

lemma read_pad2 [simp]: "read_nat (pad2 n) = n"
  by (simp add: read_nat_def pad2_def)

lemma read_pad4 [simp]: "read_nat (pad4 n) = n"
proof -
  have "n div 100 = n div 10 div 10" "n div 1000 = n div 10 div 10 div 10" by (simp_all add: div_mult2_eq [symmetric])
  then show ?thesis by (simp add: read_nat_def pad4_def)
qed

lemma pad_lengths [simp]: "length (pad2 n) = 2" "length (pad4 n) = 4"
  by (simp_all add: pad2_def pad4_def)

text \<open>Reading a group out of a text made of pieces.\<close>

lemma digits_at_piece:
  "length xs = i \<Longrightarrow> length ys = n \<Longrightarrow> list_all isAsciiDigit ys \<Longrightarrow> digits_at (xs @ ys @ zs) i n"
  by (simp add: digits_at_def slice_def)

lemma number_at_piece: "length xs = i \<Longrightarrow> length ys = n \<Longrightarrow> number_at (xs @ ys @ zs) i n = int (read_nat ys)"
  by (simp add: number_at_def slice_def)

lemma char_at_piece: "length xs = i \<Longrightarrow> char_at c (xs @ c # zs) i"
  by (simp add: char_at_def test_at_def nth_append)

lemma date_text_parts:
  assumes "y < 10000" and "m < 100" and "d < 100"
  shows "date_shape (date_text y m d @ r)" and "number_at (date_text y m d @ r) 0 4 = int y"
    and "number_at (date_text y m d @ r) 5 2 = int m" and "number_at (date_text y m d @ r) 8 2 = int d"
proof -
  have t: "date_text y m d @ r = [] @ pad4 y @ DASH # pad2 m @ DASH # pad2 d @ r"
      "date_text y m d @ r = pad4 y @ DASH # pad2 m @ DASH # pad2 d @ r"
      "date_text y m d @ r = (pad4 y @ [DASH]) @ pad2 m @ DASH # pad2 d @ r"
      "date_text y m d @ r = (pad4 y @ DASH # pad2 m) @ DASH # pad2 d @ r"
      "date_text y m d @ r = (pad4 y @ DASH # pad2 m @ [DASH]) @ pad2 d @ r"
    by (simp_all add: date_text_def)
  have "digits_at (date_text y m d @ r) 0 4" unfolding t(1) using assms by (intro digits_at_piece pad4_digits) simp_all
  moreover have "char_at DASH (date_text y m d @ r) 4" unfolding t(2) by (intro char_at_piece) simp
  moreover have "digits_at (date_text y m d @ r) 5 2" unfolding t(3) using assms by (intro digits_at_piece pad2_digits) simp_all
  moreover have "char_at DASH (date_text y m d @ r) 7" unfolding t(4) by (intro char_at_piece) simp
  moreover have "digits_at (date_text y m d @ r) 8 2" unfolding t(5) using assms by (intro digits_at_piece pad2_digits) simp_all
  ultimately show "date_shape (date_text y m d @ r)" by (simp add: date_shape_def)
  show "number_at (date_text y m d @ r) 0 4 = int y" unfolding t(1) by (subst number_at_piece) simp_all
  show "number_at (date_text y m d @ r) 5 2 = int m" unfolding t(3) by (subst number_at_piece) simp_all
  show "number_at (date_text y m d @ r) 8 2 = int d" unfolding t(5) by (subst number_at_piece) simp_all
qed

lemma valid_day_nat: "valid_day (int y) (int m) (int d) \<Longrightarrow> m \<le> 12 \<and> d \<le> 31"
  by (auto simp: valid_day_def daysInMonth_def split: if_splits)

lemma asciiLower_length [simp]: "length (asciiLower s) = length s"
  by (simp add: asciiLower_def)

lemma hd_asciiLower_digit: "isAsciiDigit (hd s) \<Longrightarrow> s \<noteq> [] \<Longrightarrow> hd (asciiLower s) = hd s"
  by (cases s) (auto simp: asciiLower_def isAsciiDigit_def)

lemma parseTime_digits:
  assumes "s \<noteq> []" and "isAsciiDigit (hd s)"
  shows "parseTime s now = (if utf8Length s = 10 then parseDate s else parseRfc3339 s)"
proof -
  have h: "hd (asciiLower s) = hd s" "asciiLower s \<noteq> []" using assms hd_asciiLower_digit [of s] by (auto simp: asciiLower_def)
  have "asciiLower s \<noteq> js ''now''" "asciiLower s \<noteq> js ''today''" "hd (asciiLower s) \<noteq> DASH"
    using assms(2) h by (auto simp: isAsciiDigit_def)
  then show ?thesis by (simp add: parseTime_def Let_def)
qed

lemma utf8Length_ascii: "\<forall>u\<in>set s. u < 0x80 \<Longrightarrow> utf8Length s = length s"
proof -
  assume a: "\<forall>u\<in>set s. u < 0x80"
  then have "code_points s = s" by (intro code_points_ascii) auto
  moreover have "sum_list (map (\<lambda>c. if c < 0x80 then 1 else if c < 0x800 then 2 else if c < 0x10000 then 3 else 4) s) =
      length s" using a by (induction s) auto
  ultimately show ?thesis by (simp add: utf8Length_def)
qed

lemma pad_ascii: "n < 100 \<Longrightarrow> u \<in> set (pad2 n) \<Longrightarrow> u < 0x80" "n < 10000 \<Longrightarrow> u \<in> set (pad4 n) \<Longrightarrow> u < 0x80"
  using pad2_digits [of n] pad4_digits [of n] by (auto simp: list_all_iff isAsciiDigit_def)

lemma date_text_head: "y < 10000 \<Longrightarrow> date_text y m d @ r \<noteq> [] \<and> isAsciiDigit (hd (date_text y m d @ r))"
  by (simp add: date_text_def pad4_def digit_char)

lemma parseTime_date:
  assumes "valid_day (int y) (int m) (int d)" and "y < 10000"
  shows "parseTime (date_text y m d) now = Some (Fin (of_int (utcMs (int y) (int m) (int d) 0 0 0)))"
proof -
  have md: "m < 100" "d < 100" using valid_day_nat [OF assms(1)] by auto
  have "utf8Length (date_text y m d) = length (date_text y m d)"
    using md assms(2) by (intro utf8Length_ascii) (auto simp: date_text_def dest: pad_ascii)
  moreover have "length (date_text y m d) = 10" by (simp add: date_text_def)
  ultimately show ?thesis
    using parseTime_digits [of "date_text y m d" now] date_text_head [OF assms(2), of m d "[]"]
      date_text_parts [OF assms(2) md, of "[]"] assms(1)
    by (simp add: parseDate_def)
qed

subsection \<open>Instants\<close>

lemma utcMs_bound:
  assumes "valid_day y m d" and "0 \<le> y" "y < 10000" and "0 \<le> h" "h \<le> 23" "0 \<le> mi" "mi \<le> 59" "0 \<le> s" "s \<le> 59"
  shows "\<bar>utcMs y m d h mi s\<bar> \<le> 2 ^ 52"
proof -
  define D where "D = day_from_year y + month_start y m + d - 1"
  have d: "1 \<le> d" using assms(1) by (simp add: valid_day_def)
  have "- 800000 \<le> D" "D \<le> 3000000"
    using day_from_year_near [of y] month_of_start(2,3) [OF assms(1)] assms(2,3) d
    unfolding D_def by (auto split: if_splits)
  moreover have "utcMs y m d h mi s = D * 86400000 + h * 3600000 + mi * 60000 + s * 1000"
    by (simp add: utcMs_def D_def)
  ultimately show ?thesis using assms(4-9) by simp
qed

lemma zone_of_text: "zone_ok z \<Longrightarrow> zone_of (zone_text z) =
    Some (case z of Zulu \<Rightarrow> None | Offset west h m \<Rightarrow> Some (west, int h, int m))"
proof (cases z)
  case (Offset west h m)
  assume "zone_ok z"
  then have hm: "h < 100" "m < 100" using Offset by auto
  then show ?thesis
    by (cases west) (simp_all add: Offset zone_of_def pad2_def digits_at_def number_at_def char_at_def test_at_def
        slice_def read_nat_def digit_char)
qed (simp add: zone_of_def)

lemma instant_parts:
  fixes z :: zone
  assumes "y < 10000" "m < 100" "d < 100" "h < 100" "mi < 100" "s < 100"
  defines "t \<equiv> instant_text y m d h mi s z"
  shows "clock_shape t" and "number_at t 0 4 = int y" "number_at t 5 2 = int m" "number_at t 8 2 = int d"
    and "number_at t 11 2 = int h" "number_at t 14 2 = int mi" "number_at t 17 2 = int s"
    and "drop 19 t = zone_text z"
proof -
  let ?D = "date_text y m d"
  have len: "length ?D = 10" by (simp add: date_text_def)
  let ?r = "84 # pad2 h @ COLON # pad2 mi @ COLON # pad2 s @ zone_text z"
  have t: "t = ?D @ ?r" "t = (?D @ [84]) @ pad2 h @ COLON # pad2 mi @ COLON # pad2 s @ zone_text z"
      "t = (?D @ 84 # pad2 h) @ COLON # pad2 mi @ COLON # pad2 s @ zone_text z"
      "t = (?D @ 84 # pad2 h @ [COLON]) @ pad2 mi @ COLON # pad2 s @ zone_text z"
      "t = (?D @ 84 # pad2 h @ COLON # pad2 mi) @ COLON # pad2 s @ zone_text z"
      "t = (?D @ 84 # pad2 h @ COLON # pad2 mi @ [COLON]) @ pad2 s @ zone_text z"
      "t = (?D @ 84 # pad2 h @ COLON # pad2 mi @ COLON # pad2 s) @ zone_text z"
    by (simp_all add: t_def instant_text_def)
  note dt = date_text_parts [OF assms(1-3), of ?r, folded t(1)]
  show "number_at t 0 4 = int y" "number_at t 5 2 = int m" "number_at t 8 2 = int d" by (rule dt)+
  have "test_at (\<lambda>c. c < 0x80) t 10" unfolding t(1) by (simp add: test_at_def nth_append len)
  moreover have "digits_at t 11 2" unfolding t(2) using assms by (intro digits_at_piece pad2_digits) (simp_all add: len)
  moreover have "char_at COLON t 13" unfolding t(3) by (intro char_at_piece) (simp add: len)
  moreover have "digits_at t 14 2" unfolding t(4) using assms by (intro digits_at_piece pad2_digits) (simp_all add: len)
  moreover have "char_at COLON t 16" unfolding t(5) by (intro char_at_piece) (simp add: len)
  moreover have "digits_at t 17 2" unfolding t(6) using assms by (intro digits_at_piece pad2_digits) (simp_all add: len)
  ultimately show "clock_shape t" using dt(1) by (simp add: clock_shape_def)
  show "number_at t 11 2 = int h" unfolding t(2) by (subst number_at_piece) (simp_all add: len)
  show "number_at t 14 2 = int mi" unfolding t(4) by (subst number_at_piece) (simp_all add: len)
  show "number_at t 17 2 = int s" unfolding t(6) by (subst number_at_piece) (simp_all add: len)
  show "drop 19 t = zone_text z" unfolding t(7) by (simp add: len)
qed

lemma zone_text_ascii: "zone_ok z \<Longrightarrow> u \<in> set (zone_text z) \<Longrightarrow> u < 0x80"
  by (cases z) (auto dest: pad_ascii(1) [rotated] split: if_splits)

lemma parseTime_instant:
  assumes "y < 10000" "m < 100" "d < 100" "h < 100" "mi < 100" "s < 100" and "zone_ok z"
  shows "parseTime (instant_text y m d h mi s z) now = parseRfc3339 (instant_text y m d h mi s z)"
proof -
  let ?t = "instant_text y m d h mi s z"
  have "utf8Length ?t = length ?t"
    using assms by (intro utf8Length_ascii)
      (auto simp: instant_text_def date_text_def dest: pad_ascii zone_text_ascii)
  moreover have "length ?t \<noteq> 10" by (simp add: instant_text_def date_text_def)
  moreover have "?t \<noteq> []" "isAsciiDigit (hd ?t)"
    using date_text_head [OF assms(1)] by (auto simp: instant_text_def)
  ultimately show ?thesis by (simp add: parseTime_digits)
qed

lemma fraction_of_zone: "fraction_of (zone_text z) = (None, zone_text z)"
  by (cases z) (auto simp: fraction_of_def)

lemma zone_minutes_bound: "zone_ok z \<Longrightarrow> \<bar>zone_minutes z\<bar> \<le> 1439"
  by (cases z) auto

lemma parseRfc3339_instant:
  assumes "valid_day (int y) (int m) (int d)" and "y < 10000" and "h \<le> 23" "mi \<le> 59" "s \<le> 60" and "zone_ok z"
  defines "whole \<equiv> utcMs (int y) (int m) (int d) (int h) (int mi) (if s = 60 then 59 else int s) - zone_minutes z * 60000"
  shows "parseRfc3339 (instant_text y m d h mi s z) =
    (if s = 60 \<and> \<not> leap_allowed (whole + 999) then None
     else Some (Fin (of_int (whole + (if s = 60 then 999 else 0)))))"
proof -
  have md: "m < 100" "d < 100" "h < 100" "mi < 100" "s < 100" using valid_day_nat [OF assms(1)] assms(3-5) by auto
  note p = instant_parts [OF assms(2) md, of z]
  have "\<bar>utcMs (int y) (int m) (int d) (int h) (int mi) (if s = 60 then 59 else int s)\<bar> \<le> 2 ^ 52"
    using assms by (intro utcMs_bound) auto
  then have b: "\<bar>whole + n\<bar> \<le> 2 ^ 53" if "0 \<le> n" "n \<le> 999" for n
    using zone_minutes_bound [OF assms(6)] that unfolding whole_def abs_le_iff by simp
  then have D: "toDouble (of_int whole) = Fin (of_int whole)" "toDouble (of_int whole + 999) = Fin (of_int (whole + 999))"
    using toDouble_int [of whole] toDouble_int [of "whole + 999"] b [of 0] b [of 999] by simp_all
  have v: "\<not> (int h > 23 \<or> int mi > 59 \<or> int s > 60)" "int s = 60 \<longleftrightarrow> s = 60" using assms(3-5) by auto
  show ?thesis
  proof (cases z)
    case Zulu
    then have w: "utcMs (int y) (int m) (int d) (int h) (int mi) (if s = 60 then 59 else int s) - 1 * (0 * 60 + 0) * 60000 = whole"
      by (simp add: whole_def)
    show ?thesis
      unfolding parseRfc3339_def p fraction_of_zone zone_of_text [OF assms(6)] Let_def prod.case option.case v
      unfolding Zulu zone.case option.case if_False w using assms(1,3-5) D p(1) [unfolded Zulu] by simp
  next
    case (Offset west oh om)
    then have w: "utcMs (int y) (int m) (int d) (int h) (int mi) (if s = 60 then 59 else int s) -
        (if west then - 1 else 1) * (int oh * 60 + int om) * 60000 = whole"
      by (simp add: whole_def)
    have "oh \<le> 23" "om \<le> 59" using assms(6) Offset by auto
    then show ?thesis
      unfolding parseRfc3339_def p fraction_of_zone zone_of_text [OF assms(6)] Let_def prod.case option.case v
      unfolding Offset zone.case option.case prod.case w using assms(1,3-5) D p(1) [unfolded Offset] by simp
  qed
qed

subsection \<open>Sizes\<close>

lemma show_nat_chars: "list_all isAsciiDigit (show_nat n)"
  using show_nat_digits by (auto simp: list_all_iff isAsciiDigit_def)

lemma show_nat_not_dot: "c \<in> set (show_nat n) \<Longrightarrow> isAsciiDigit c \<and> c \<noteq> 46 \<and> c \<noteq> DASH \<and> c < 0xD800"
  using show_nat_digits by (fastforce simp: isAsciiDigit_def)

lemma parseNumber_show: "parseNumber (show_nat n) = Some (toDouble (of_nat n))"
proof -
  have c: "code_points (show_nat n) = show_nat n" using show_nat_not_dot by (intro code_points_ascii) blast
  have "hd (show_nat n) \<noteq> DASH" using show_nat_not_dot [of "hd (show_nat n)" n] by simp
  moreover have "run_end (\<lambda>c. c \<noteq> 46) (show_nat n) 0 = 0 + length (show_nat n)"
    using show_nat_not_dot unfolding run_end_def by (subst takeWhile_eq_all_conv [THEN iffD2]) auto
  ultimately show ?thesis
    using show_nat_chars [of n]
    by (simp add: parseNumber_def Let_def allAsciiDigits_def c decimal_def read_nat_def [of "[]"])
qed

lemma numberAndUnit_show:
  assumes "u = [] \<or> \<not> (isAsciiDigit (hd u) \<or> hd u = 46)"
  shows "numberAndUnit (show_nat n @ u) = Some (toDouble (of_nat n), asciiLower u)"
proof -
  let ?p = "\<lambda>c. isAsciiDigit c \<or> c = 46"
  have "takeWhile ?p (show_nat n @ u) = show_nat n"
    using show_nat_chars [of n] assms by (subst takeWhile_append2) (auto simp: list_all_iff takeWhile_eq_Nil_iff)
  then have "run_end ?p (show_nat n @ u) 0 = length (show_nat n)" by (simp add: run_end_def)
  moreover have "hd (show_nat n) \<noteq> DASH" using show_nat_not_dot [of "hd (show_nat n)" n] by simp
  ultimately show ?thesis by (simp add: numberAndUnit_def Let_def parseNumber_show)
qed

lemma unit_head:
  assumes "map_of byte_powers (asciiLower u) = Some p"
  shows "u = [] \<or> \<not> (isAsciiDigit (hd u) \<or> hd u = 46)"
proof (cases u)
  case (Cons c r)
  have "asciiLower u \<in> fst ` set byte_powers" using assms by (metis domI dom_map_of_conv_image_fst)
  then have "hd (asciiLower u) \<in> {98, 107, 109, 103, 116}"
    by (auto simp: byte_powers_def Cons asciiLower_def)
  then show ?thesis by (auto simp: Cons asciiLower_def isAsciiDigit_def split: if_splits)
qed simp

lemma floor_of_int_half: "\<lfloor>of_int k + 1 / 2 :: rat\<rfloor> = k"
  by (rule floor_unique) simp_all

section \<open>Properties\<close>

text \<open>
  C14. A calendar day, written \<open>YYYY-MM-DD\<close>, is read as the UTC midnight that starts it: the time
  \<open>parseTime\<close> answers has that year, month and day on the UTC calendar and a clock at zero.
\<close>

theorem date_read_back:
  assumes "valid_day (int y) (int m) (int d)" and "y < 10000"
  shows "\<exists>ms. parseTime (date_text y m d) now = Some (Fin (of_int ms)) \<and>
    utc_of ms = \<lparr>getUTCFullYear = int y, getUTCMonth1 = int m, getUTCDate = int d,
      getUTCHours = 0, getUTCMinutes = 0, getUTCSeconds = 0\<rparr>"
  using parseTime_date [OF assms, of now] utc_of_utcMs [OF assms(1), of 0 0 0 0] by simp

theorem date_read_back_witness:
  "valid_day 2024 2 29 \<and> date_text 2024 2 29 = js ''2024-02-29'' \<and>
   (\<exists>ms. parseTime (date_text 2024 2 29) 0 = Some (Fin (of_int ms)) \<and>
     utc_of ms = \<lparr>getUTCFullYear = 2024, getUTCMonth1 = 2, getUTCDate = 29,
       getUTCHours = 0, getUTCMinutes = 0, getUTCSeconds = 0\<rparr>)"
proof -
  have v: "valid_day (int 2024) (int 2) (int 29)" by code_simp
  moreover have "date_text 2024 2 29 = js ''2024-02-29''" by code_simp
  ultimately show ?thesis using date_read_back [OF v, of 0] by simp
qed

text \<open>
  C15. An instant written with its offset is read as the instant: adding the offset back to the
  time \<open>parseTime\<close> answers gives the written date and clock.
\<close>

theorem instant_read_back:
  assumes "valid_day (int y) (int m) (int d)" and "y < 10000" and "h \<le> 23" "mi \<le> 59" "s \<le> 59" and "zone_ok z"
  shows "\<exists>ms. parseTime (instant_text y m d h mi s z) now = Some (Fin (of_int ms)) \<and>
    utc_of (ms + zone_minutes z * 60000) = \<lparr>getUTCFullYear = int y, getUTCMonth1 = int m, getUTCDate = int d,
      getUTCHours = int h, getUTCMinutes = int mi, getUTCSeconds = int s\<rparr>"
proof -
  have "parseTime (instant_text y m d h mi s z) now = parseRfc3339 (instant_text y m d h mi s z)"
    using assms valid_day_nat [OF assms(1)] by (intro parseTime_instant) auto
  moreover have "s \<noteq> 60" "s \<le> 60" using assms(5) by auto
  ultimately show ?thesis
    using parseRfc3339_instant [OF assms(1-4) _ assms(6), of s] utc_of_utcMs [OF assms(1), of "int h" "int mi" "int s" 0] assms(3-5)
    by (intro exI [of _ "utcMs (int y) (int m) (int d) (int h) (int mi) (int s) - zone_minutes z * 60000"]) simp
qed

theorem instant_read_back_witness:
  "instant_text 1999 12 31 23 30 0 (Offset True 3 0) = js ''1999-12-31T23:30:00-03:00'' \<and>
   (\<exists>ms. parseTime (instant_text 1999 12 31 23 30 0 (Offset True 3 0)) 0 = Some (Fin (of_int ms)) \<and>
     utc_of (ms + zone_minutes (Offset True 3 0) * 60000) =
       \<lparr>getUTCFullYear = 1999, getUTCMonth1 = 12, getUTCDate = 31,
        getUTCHours = 23, getUTCMinutes = 30, getUTCSeconds = 0\<rparr>)"
proof -
  have v: "valid_day (int 1999) (int 12) (int 31)" by code_simp
  have "instant_text 1999 12 31 23 30 0 (Offset True 3 0) = js ''1999-12-31T23:30:00-03:00''" by code_simp
  then show ?thesis using instant_read_back [OF v, of 23 30 0 "Offset True 3 0" 0] by simp
qed

text \<open>
  A leap second is accepted exactly where one can fall: second 60 of the last minute of the
  last day of a month in UTC, and then it is read as the last millisecond before midnight.
\<close>

theorem leap_second:
  assumes "valid_day (int y) (int m) (int d)" and "y < 10000" and "h \<le> 23" "mi \<le> 59"
  shows "parseTime (instant_text y m d h mi 60 Zulu) now =
    (if h = 23 \<and> mi = 59 \<and> int d = daysInMonth (int y) (int m)
     then Some (Fin (of_int (utcMs (int y) (int m) (int d) 23 59 59 + 999))) else None)"
proof -
  have t: "parseTime (instant_text y m d h mi 60 Zulu) now = parseRfc3339 (instant_text y m d h mi 60 Zulu)"
    using assms valid_day_nat [OF assms(1)] by (intro parseTime_instant) auto
  have "utc_of (utcMs (int y) (int m) (int d) (int h) (int mi) 59 + 999) =
      \<lparr>getUTCFullYear = int y, getUTCMonth1 = int m, getUTCDate = int d,
        getUTCHours = int h, getUTCMinutes = int mi, getUTCSeconds = 59\<rparr>"
    using assms by (intro utc_of_utcMs) auto
  then have "leap_allowed (utcMs (int y) (int m) (int d) (int h) (int mi) 59 + 999) \<longleftrightarrow>
      h = 23 \<and> mi = 59 \<and> int d = daysInMonth (int y) (int m)"
    using assms(2) by (auto simp: leap_allowed_def Let_def)
  then show ?thesis
    unfolding t using parseRfc3339_instant [OF assms(1-4), of 60 Zulu] by simp
qed

theorem leap_second_witness:
  "parseTime (js ''2016-12-31T23:59:60Z'') 0 = Some (Fin (of_int (utcMs 2016 12 31 23 59 59 + 999))) \<and>
   parseTime (js ''2016-12-30T23:59:60Z'') 0 = None"
proof -
  have v: "valid_day (int 2016) (int 12) (int 31)" "valid_day (int 2016) (int 12) (int 30)" by code_simp+
  have t: "js ''2016-12-31T23:59:60Z'' = instant_text 2016 12 31 23 59 60 Zulu"
      "js ''2016-12-30T23:59:60Z'' = instant_text 2016 12 30 23 59 60 Zulu" by code_simp+
  show ?thesis
    unfolding t using leap_second [OF v(1), of 23 59 0] leap_second [OF v(2), of 23 59 0]
    by (simp add: daysInMonth_def)
qed

text \<open>
  C21. A whole number of any unit is read exactly, whatever the unit's case, as long as it has no more
  bytes than a double counts exactly.
\<close>

theorem bytes_exact:
  assumes "map_of byte_powers (asciiLower u) = Some p" and "n * 1024 ^ p \<le> 2 ^ 53"
  shows "parseBytes (show_nat n @ u) = Some (Fin (of_nat (n * 1024 ^ p)))"
proof -
  have n: "n \<le> 2 ^ 53" using assms(2) by (metis One_nat_def le_trans mult_le_mono2 mult_1_right one_le_numeral one_le_power)
  have "toDouble (of_int (int n)) = Fin (of_int (int n))" by (rule toDouble_int) (use n in simp)
  then have "numberAndUnit (show_nat n @ u) = Some (Fin (of_nat n), asciiLower u)"
    using numberAndUnit_show [OF unit_head [OF assms(1)]] by simp
  moreover have "toDouble (of_int (int (n * 1024 ^ p))) = Fin (of_int (int (n * 1024 ^ p)))"
    by (rule toDouble_int) (use of_nat_mono [OF assms(2), where 'a = int] in simp)
  then have "mul_pos (Fin (of_nat n)) (1024 ^ p) = Fin (of_nat (n * 1024 ^ p))" by simp
  moreover have "math_round (Fin (of_nat (n * 1024 ^ p))) = Fin (of_nat (n * 1024 ^ p))"
    using floor_of_int_half [of "int (n * 1024 ^ p)"] by simp
  ultimately show ?thesis
    using assms(1) by (simp add: parseBytes_def is_finite_def)
qed

theorem bytes_exact_witness: "parseBytes (js ''10Mb'') = Some (Fin (of_nat (10 * 1024 ^ 2)))"
proof -
  have u: "map_of byte_powers (asciiLower (js ''Mb'')) = Some 2" by code_simp
  have t: "js ''10Mb'' = show_nat 10 @ js ''Mb''" by code_simp
  show ?thesis unfolding t by (rule bytes_exact [OF u]) simp
qed

end
