(* ===== verification/Filter_Validate.thy ===== *)
theory Filter_Validate
  imports Filter_Tokens Filter_Values "HOL-Library.List_Lexorder"
begin

text \<open>
  Checking a parsed filter against a list's fields (\<open>validateFilter\<close>, \<open>checkFilter\<close> and what they
  use, in \<open>console/src/lib/filter.ts\<close>). A refusal is the left of a sum.
\<close>

section \<open>Messages and orders\<close>

fun ordered :: "filter_kind \<Rightarrow> bool" where
  "ordered KPath = True"
| "ordered KTime = True"
| "ordered KNumber = True"
| "ordered KBytes = True"
| "ordered KDuration = True"
| "ordered _ = False"

definition quoted_text :: "jstring \<Rightarrow> jstring" where
  "quoted_text s = [QUOTE] @ s @ [QUOTE]"

definition needsName :: "jstring \<Rightarrow> jstring" where
  "needsName p = quoted_text p @ js '' needs a field name after it, like '' @ p @ js ''userId:u_1.''"

text \<open>\<open>a\<close>, \<open>a or b\<close>, \<open>a, b or c\<close>.\<close>

definition joinOr :: "jstring list \<Rightarrow> jstring" where
  "joinOr names =
     (if length names \<le> 1 then (case names of [] \<Rightarrow> [] | n # _ \<Rightarrow> n)
      else join_with (js '', '') (butlast names) @ js '' or '' @ last names)"

definition first_prefix :: "filter_field \<Rightarrow> jstring" where
  "first_prefix field = (case f_prefixes field of [] \<Rightarrow> f_key field | p # _ \<Rightarrow> p)"

definition unknownKey :: "jstring \<Rightarrow> filter_field list \<Rightarrow> jstring" where
  "unknownKey typed defs =
     (let names = map f_key (filter (\<lambda>f. f_kind f \<noteq> KPath) defs) @
                  map (\<lambda>f. first_prefix f @ [0x2026]) (filter (\<lambda>f. f_kind f = KPath) defs)
      in if names = []
         then js ''Unknown filter '' @ quoted_text (typed @ [COLON]) @
              js ''. This list has no filters; quote it to search for the text.''
         else js ''Unknown filter '' @ quoted_text (typed @ [COLON]) @ js ''. Use '' @ joinOr names @
              js ''; quote it to search for the text.'')"

text \<open>The loop over the code points both strings have, then the shorter first.\<close>

fun compare_points :: "nat list \<Rightarrow> nat list \<Rightarrow> int" where
  "compare_points (a # as) (b # bs) = (if a \<noteq> b then int a - int b else compare_points as bs)"
| "compare_points [] bs = int (length ([] :: nat list)) - int (length bs)"
| "compare_points as [] = int (length as) - int (length ([] :: nat list))"

definition compareUtf8 :: "jstring \<Rightarrow> jstring \<Rightarrow> int" where
  "compareUtf8 a b = compare_points (code_points a) (code_points b)"

text \<open>\<open>toSorted\<close> by a comparison: the stable order it gives.\<close>

fun insert_by :: "('a \<Rightarrow> 'a \<Rightarrow> int) \<Rightarrow> 'a \<Rightarrow> 'a list \<Rightarrow> 'a list" where
  "insert_by cmp x [] = [x]"
| "insert_by cmp x (y # ys) = (if cmp x y \<le> 0 then x # y # ys else y # insert_by cmp x ys)"

definition toSorted :: "('a \<Rightarrow> 'a \<Rightarrow> int) \<Rightarrow> 'a list \<Rightarrow> 'a list" where
  "toSorted cmp xs = foldr (insert_by cmp) xs []"

definition enumAliases :: "filter_field \<Rightarrow> (jstring \<times> jstring) list" where
  "enumAliases field = toSorted (\<lambda>x y. compareUtf8 (fst x) (fst y)) (f_valueAliases field)"

definition enumValue :: "jstring \<Rightarrow> filter_field \<Rightarrow> jstring option" where
  "enumValue typed field =
     (case List.find (\<lambda>v. sameIgnoringAsciiCase v typed) (f_values field) of
        Some direct \<Rightarrow> Some direct
      | None \<Rightarrow> map_option snd (List.find (\<lambda>a. sameIgnoringAsciiCase (fst a) typed) (enumAliases field)))"

definition describeEnum :: "filter_field \<Rightarrow> jstring" where
  "describeEnum field =
     (let aliases = enumAliases field
      in join_with (js '', '')
           (map (\<lambda>v. let spellings = map fst (filter (\<lambda>a. snd a = v) aliases)
                     in if spellings = [] then v
                        else v @ js '' ('' @ join_with (js '', '') spellings @ js '')'')
             (f_values field)))"

section \<open>Keys\<close>

text \<open>\<open>prefix.replace(/\\.+$/, '')\<close>\<close>

definition strip_dots :: "jstring \<Rightarrow> jstring" where
  "strip_dots p = rev (dropWhile (\<lambda>c. c = 46) (rev p))"

definition prefix_of :: "jstring \<Rightarrow> jstring \<Rightarrow> bool" where
  "prefix_of lower p \<longleftrightarrow> take (length p) lower = asciiLower p"

text \<open>The first loop's body: what a path field makes of the key, if anything.\<close>

definition resolve_path :: "jstring \<Rightarrow> jstring \<Rightarrow> filter_field \<Rightarrow> (jstring + jstring \<times> filter_field) option" where
  "resolve_path typed lower field =
     (case List.find (prefix_of lower) (f_prefixes field) of
        Some p \<Rightarrow>
          (let suffix = drop (length p) typed
           in Some (if suffix = [] then Inl (needsName p) else Inr (p @ suffix, field)))
      | None \<Rightarrow>
          (case List.find (\<lambda>p. sameIgnoringAsciiCase (strip_dots p) lower) (f_prefixes field) of
             Some bare_prefix \<Rightarrow> Some (Inl (needsName bare_prefix))
           | None \<Rightarrow> if names_field lower field then Some (Inl (needsName (first_prefix field))) else None))"

fun resolve_paths :: "jstring \<Rightarrow> jstring \<Rightarrow> filter_field list \<Rightarrow> (jstring + jstring \<times> filter_field) option" where
  "resolve_paths typed lower [] = None"
| "resolve_paths typed lower (field # defs) =
     (if f_kind field \<noteq> KPath then resolve_paths typed lower defs
      else case resolve_path typed lower field of
             Some r \<Rightarrow> Some r
           | None \<Rightarrow> resolve_paths typed lower defs)"

definition resolveKey :: "jstring \<Rightarrow> jstring \<Rightarrow> filter_field list \<Rightarrow> jstring + jstring \<times> filter_field" where
  "resolveKey typed lower defs =
     (case resolve_paths typed lower defs of
        Some r \<Rightarrow> r
      | None \<Rightarrow>
          (case List.find (\<lambda>f. f_kind f \<noteq> KPath \<and> names_field lower f) defs of
             Some field \<Rightarrow> Inr (f_key field, field)
           | None \<Rightarrow> Inl (unknownKey typed defs)))"

section \<open>Terms\<close>

definition typed_text :: "filter_term \<Rightarrow> jstring" where
  "typed_text t = quoted_text (t_key t @ [COLON])"

text \<open>The switch on the field's kind: the value to keep, or why not.\<close>

definition checked_value :: "filter_term \<Rightarrow> filter_field \<Rightarrow> jstring + jstring" where
  "checked_value t field =
     (let typed = typed_text t; v = t_value t; lowered = asciiLower v;
          when = (\<lambda>ok message. if ok then Inr v else Inl (typed @ message))
      in case f_kind field of
           KText \<Rightarrow> when (v \<noteq> []) (js '' needs a value.'')
         | KExact \<Rightarrow> when (v \<noteq> []) (js '' needs a value.'')
         | KPath \<Rightarrow> when (v \<noteq> []) (js '' needs a value.'')
         | KEnum \<Rightarrow>
             (case enumValue v field of
                None \<Rightarrow> Inl (typed @ js '' is one of '' @ describeEnum field @ js ''.'')
              | Some found \<Rightarrow> Inr found)
         | KBool \<Rightarrow>
             (if lowered = js ''true'' \<or> lowered = js ''yes'' then Inr (js ''true'')
              else if lowered = js ''false'' \<or> lowered = js ''no'' then Inr (js ''false'')
              else Inl (typed @ js '' is true or false.''))
         | KTime \<Rightarrow> when (parseTime v 0 \<noteq> None) (js '' needs a time, like 2026-10-01, -2h or today.'')
         | KNumber \<Rightarrow> when (parseNumber v \<noteq> None) (js '' needs a number, like 42 or 2.5.'')
         | KBytes \<Rightarrow> when (parseBytes v \<noteq> None) (js '' needs a size, like 512, 10KB or 2MB.'')
         | KDuration \<Rightarrow> when (parseDuration v \<noteq> None) (js '' needs a duration, like 250ms, 2s or 1.5m.''))"

definition term_refusal :: "filter_term \<Rightarrow> jstring \<Rightarrow> filter_error" where
  "term_refusal t message = \<lparr>e_message = message, e_from = t_from t, e_to = t_to t\<rparr>"

definition validateTerm :: "filter_term \<Rightarrow> filter_field list \<Rightarrow> filter_error + filter_term" where
  "validateTerm t defs =
     (case resolveKey (t_key t) (asciiLower (t_key t)) defs of
        Inl message \<Rightarrow> Inl (term_refusal t message)
      | Inr (key, field) \<Rightarrow>
          if t_op t \<noteq> OpEq \<and> \<not> ordered (f_kind field)
          then Inl (term_refusal t
                 (quoted_text (spelling (t_op t)) @ js '' works on times, numbers, sizes and durations only.''))
          else case checked_value t field of
                 Inl message \<Rightarrow> Inl (term_refusal t message)
               | Inr v \<Rightarrow> Inr (t\<lparr>t_key := key, t_value := v\<rparr>))"

text \<open>\<open>query.terms.map(...)\<close>: the first term that throws ends it.\<close>

fun validate_terms :: "filter_term list \<Rightarrow> filter_field list \<Rightarrow> filter_error + filter_term list" where
  "validate_terms [] defs = Inr []"
| "validate_terms (t # ts) defs =
     (case validateTerm t defs of
        Inl e \<Rightarrow> Inl e
      | Inr t' \<Rightarrow> (case validate_terms ts defs of Inl e \<Rightarrow> Inl e | Inr ts' \<Rightarrow> Inr (t' # ts')))"

definition validateFilter :: "filter_query \<Rightarrow> filter_field list \<Rightarrow> filter_error + filter_query" where
  "validateFilter query defs =
     (case validate_terms (q_terms query) defs of
        Inl e \<Rightarrow> Inl e
      | Inr ts \<Rightarrow> Inr (query\<lparr>q_terms := ts\<rparr>))"

record filter_field_set =
  s_fields :: "filter_field list"
  s_regex :: bool

definition checkFilter :: "jstring \<Rightarrow> filter_field_set \<Rightarrow> filter_error + filter_query" where
  "checkFilter text fs =
     (case parseFilter text (s_regex fs) of
        Inl e \<Rightarrow> Inl e
      | Inr query \<Rightarrow> validateFilter query (s_fields fs))"

section \<open>Lowercasing and keys\<close>

lemma asciiLower_append [simp]: "asciiLower (s @ t) = asciiLower s @ asciiLower t"
  by (simp add: asciiLower_def)

lemma asciiLower_take: "asciiLower (take n s) = take n (asciiLower s)"
  and asciiLower_drop: "asciiLower (drop n s) = drop n (asciiLower s)"
  by (simp_all add: asciiLower_def take_map drop_map)

lemma asciiLower_idem [simp]: "asciiLower (asciiLower s) = asciiLower s"
  by (auto simp: asciiLower_def)

text \<open>Swapping a prefix for its declared spelling changes nothing that is lowercased.\<close>

lemma asciiLower_respell:
  assumes "prefix_of (asciiLower s) p"
  shows "asciiLower (p @ drop (length p) s) = asciiLower s"
proof -
  have "asciiLower p = take (length p) (asciiLower s)" using assms by (simp add: prefix_of_def)
  then show ?thesis by (simp add: asciiLower_drop)
qed

lemma resolve_path_Inr:
  assumes "resolve_path typed lower field = Some (Inr (k, f))"
  obtains p where "List.find (prefix_of lower) (f_prefixes field) = Some p" and "prefix_of lower p"
    and "p \<in> set (f_prefixes field)" and "k = p @ drop (length p) typed" and "drop (length p) typed \<noteq> []" and "f = field"
proof (cases "List.find (prefix_of lower) (f_prefixes field)")
  case None
  with assms show thesis by (auto simp: resolve_path_def split: option.splits if_splits)
next
  case (Some p)
  then have "prefix_of lower p" "p \<in> set (f_prefixes field)" by (auto simp: find_Some_iff)
  with Some assms that show thesis by (auto simp: resolve_path_def Let_def split: if_splits)
qed

lemma resolve_path_None: "resolve_path typed lower field = None \<longleftrightarrow> resolve_path typed' lower field = None"
  by (auto simp: resolve_path_def Let_def split: option.splits)

lemma resolve_paths_Inr:
  assumes "resolve_paths typed lower defs = Some (Inr (k, f))"
  obtains p where "prefix_of lower p" and "p \<in> set (f_prefixes f)" and "k = p @ drop (length p) typed"
    and "drop (length p) typed \<noteq> []" and "f \<in> set defs" and "f_kind f = KPath" and "prefix_match lower f"
  using assms
proof (induction defs arbitrary: thesis)
  case (Cons d defs)
  show ?case
  proof (cases "f_kind d = KPath \<and> resolve_path typed lower d \<noteq> None")
    case True
    then have r: "resolve_path typed lower d = Some (Inr (k, f))" using Cons.prems by auto
    show ?thesis
      using r
    proof (rule resolve_path_Inr)
      fix p assume "prefix_of lower p" "p \<in> set (f_prefixes d)" "k = p @ drop (length p) typed"
        "drop (length p) typed \<noteq> []" "f = d"
      with True Cons.prems(1) [of p] show ?thesis
        by (auto simp: prefix_match_def prefix_of_def list_ex_iff)
    qed
  next
    case False
    then have "resolve_paths typed lower defs = Some (Inr (k, f))" using Cons.prems(2) by (auto split: if_splits)
    then show ?thesis using Cons.IH Cons.prems(1) by auto
  qed
qed simp

lemma resolve_paths_again:
  "resolve_paths typed lower defs = Some (Inr (k, f)) \<Longrightarrow> resolve_paths k lower defs = Some (Inr (k, f))"
proof (induction defs)
  case (Cons d defs)
  show ?case
  proof (cases "f_kind d = KPath \<and> resolve_path typed lower d \<noteq> None")
    case True
    then have r: "resolve_path typed lower d = Some (Inr (k, f))" using Cons.prems by auto
    then obtain p where p: "List.find (prefix_of lower) (f_prefixes d) = Some p"
        "k = p @ drop (length p) typed" "drop (length p) typed \<noteq> []" "f = d"
      by (rule resolve_path_Inr)
    then have "drop (length p) k = drop (length p) typed" by simp
    with p have "resolve_path k lower d = Some (Inr (k, f))" by (simp add: resolve_path_def)
    with True show ?thesis by simp
  next
    case False
    then have "f_kind d \<noteq> KPath \<or> resolve_path k lower d = None" using resolve_path_None [of typed lower d k] by auto
    moreover have "resolve_paths typed lower defs = Some (Inr (k, f))"
      using Cons.prems False by (auto split: if_splits)
    ultimately show ?thesis using Cons.IH by auto
  qed
qed simp

text \<open>The two ways a key resolves.\<close>

lemma resolveKey_Inr:
  assumes "resolveKey typed lower defs = Inr (k, f)"
  obtains (path) "resolve_paths typed lower defs = Some (Inr (k, f))"
    | (named) "resolve_paths typed lower defs = None" and "k = f_key f" and "f \<in> set defs"
      and "f_kind f \<noteq> KPath" and "List.find (\<lambda>f. f_kind f \<noteq> KPath \<and> names_field lower f) defs = Some f"
proof (cases "resolve_paths typed lower defs")
  case None
  with assms have "List.find (\<lambda>f. f_kind f \<noteq> KPath \<and> names_field lower f) defs = Some f" "k = f_key f"
    by (auto simp: resolveKey_def split: option.splits)
  with None named show thesis by (auto simp: find_Some_iff)
next
  case (Some r)
  with assms path show thesis by (simp add: resolveKey_def)
qed

section \<open>Fields a list declares\<close>

text \<open>
  What a list's fields are expected to be: each plain field's key is a key and resolves to the
  field, each path field's prefixes are the start of a key, and each enum reads its values and
  the targets of its aliases as themselves.
\<close>

definition field_ok :: "filter_field list \<Rightarrow> filter_field \<Rightarrow> bool" where
  "field_ok defs f \<longleftrightarrow>
     (f_kind f \<noteq> KPath \<longrightarrow>
        key_shaped (f_key f) \<and> resolveKey (f_key f) (asciiLower (f_key f)) defs = Inr (f_key f, f)) \<and>
     (f_kind f = KPath \<longrightarrow> list_all key_shaped (f_prefixes f)) \<and>
     (f_kind f = KEnum \<longrightarrow>
        list_all (\<lambda>v. units_ok v \<and> enumValue v f = Some v) (f_values f @ map snd (f_valueAliases f)))"

definition fields_ok :: "filter_field list \<Rightarrow> bool" where
  "fields_ok defs \<longleftrightarrow> list_all (field_ok defs) defs"

lemma resolveKey_again:
  assumes "fields_ok defs" and "resolveKey typed (asciiLower typed) defs = Inr (k, f)"
  shows "resolveKey k (asciiLower k) defs = Inr (k, f)"
  using assms(2)
proof (cases rule: resolveKey_Inr)
  case path
  then obtain p where "prefix_of (asciiLower typed) p" "k = p @ drop (length p) typed"
    by (rule resolve_paths_Inr)
  then have "asciiLower k = asciiLower typed" using asciiLower_respell by simp
  with resolve_paths_again [OF path] show ?thesis by (simp add: resolveKey_def)
next
  case named
  with assms(1) show ?thesis by (auto simp: fields_ok_def field_ok_def list_all_iff)
qed

lemma insert_by_set [simp]: "set (insert_by cmp x xs) = insert x (set xs)"
  by (induction xs) auto

lemma toSorted_set [simp]: "set (toSorted cmp xs) = set xs"
  unfolding toSorted_def by (induction xs) auto

lemma enumValue_range: "enumValue v f = Some w \<Longrightarrow> w \<in> set (f_values f @ map snd (f_valueAliases f))"
  by (auto simp: enumValue_def find_Some_iff enumAliases_def image_iff split: option.splits)
    (metis nth_mem toSorted_set snd_conv)+

lemma resolveKey_mem: "resolveKey typed lower defs = Inr (k, f) \<Longrightarrow> f \<in> set defs"
  by (erule resolveKey_Inr) (auto elim: resolve_paths_Inr)

lemma checked_value_again:
  assumes "field_ok defs f" and "checked_value t f = Inr v" and "t_value t' = v"
  shows "checked_value t' f = Inr v"
proof (cases "f_kind f = KEnum")
  case True
  with assms(2) have "enumValue (t_value t) f = Some v"
    by (auto simp: checked_value_def Let_def split: option.splits)
  then have "enumValue v f = Some v"
    using assms(1) True enumValue_range [of "t_value t" f v] by (auto simp: field_ok_def list_all_iff)
  with True assms(3) show ?thesis by (simp add: checked_value_def)
next
  case False
  show ?thesis
  proof (cases "f_kind f = KBool")
    case True
    then have "v = js ''true'' \<or> v = js ''false''"
      using assms(2) by (auto simp: checked_value_def Let_def split: if_splits)
    then show ?thesis using True assms(3) by (auto simp: checked_value_def Let_def asciiLower_def)
  next
    case nb: False
    with False assms(2,3) show ?thesis
      by (cases "f_kind f") (auto simp: checked_value_def Let_def split: if_splits)
  qed
qed

lemma validateTerm_Inr:
  assumes "validateTerm t defs = Inr t'"
  obtains k f v where "resolveKey (t_key t) (asciiLower (t_key t)) defs = Inr (k, f)"
    and "t_op t = OpEq \<or> ordered (f_kind f)" and "checked_value t f = Inr v"
    and "t' = t\<lparr>t_key := k, t_value := v\<rparr>"
proof (cases "resolveKey (t_key t) (asciiLower (t_key t)) defs")
  case (Inr r)
  obtain k f where "r = (k, f)" by (cases r)
  with Inr assms that show thesis by (auto simp: validateTerm_def split: if_splits sum.splits)
qed (use assms in \<open>simp add: validateTerm_def\<close>)

text \<open>A checked term checks again to itself, wherever it stands.\<close>

lemma validateTerm_again:
  assumes "fields_ok defs" and "validateTerm t defs = Inr t'"
    and "t_key u = t_key t'" "t_value u = t_value t'" "t_op u = t_op t'"
  shows "validateTerm u defs = Inr u"
proof -
  obtain k f v where r: "resolveKey (t_key t) (asciiLower (t_key t)) defs = Inr (k, f)"
      "t_op t = OpEq \<or> ordered (f_kind f)" "checked_value t f = Inr v" "t' = t\<lparr>t_key := k, t_value := v\<rparr>"
    using assms(2) by (rule validateTerm_Inr)
  have f: "field_ok defs f" using assms(1) resolveKey_mem [OF r(1)] by (auto simp: fields_ok_def list_all_iff)
  have v: "t_value u = v" using r(4) assms(4) by simp
  have "checked_value u f = Inr (t_value u)" unfolding v by (rule checked_value_again [OF f r(3) v])
  moreover have "resolveKey (t_key u) (asciiLower (t_key u)) defs = Inr (t_key u, f)"
    using resolveKey_again [OF assms(1) r(1)] r(4) assms(3) by simp
  moreover have "u\<lparr>t_key := t_key u, t_value := t_value u\<rparr> = u" by simp
  ultimately show ?thesis using r(2,4) assms(5) by (auto simp: validateTerm_def)
qed

lemma validateTerm_printable:
  assumes "fields_ok defs" and "validateTerm t defs = Inr t'" and "key_shaped (t_key t)" and "units_ok (t_value t)"
  shows "key_shaped (t_key t') \<and> units_ok (t_value t')"
proof -
  obtain k f v where r: "resolveKey (t_key t) (asciiLower (t_key t)) defs = Inr (k, f)"
      "checked_value t f = Inr v" "t' = t\<lparr>t_key := k, t_value := v\<rparr>"
    using assms(2) by (rule validateTerm_Inr)
  have f: "field_ok defs f" using assms(1) resolveKey_mem [OF r(1)] by (auto simp: fields_ok_def list_all_iff)
  from r(1) have "key_shaped k"
  proof (cases rule: resolveKey_Inr)
    case path
    then obtain p where p: "p \<in> set (f_prefixes f)" "k = p @ drop (length p) (t_key t)" "f_kind f = KPath"
      by (rule resolve_paths_Inr)
    then have "key_shaped p" using f by (auto simp: field_ok_def list_all_iff)
    then show ?thesis
      using p assms(3) by (auto simp: key_shaped_def list_all_iff dest: in_set_dropD)
  next
    case named
    then show ?thesis using f by (simp add: field_ok_def)
  qed
  moreover have "units_ok v"
  proof (cases "f_kind f = KEnum")
    case True
    then have "enumValue (t_value t) f = Some v"
      using r(2) by (auto simp: checked_value_def Let_def split: option.splits)
    then show ?thesis using f True enumValue_range by (fastforce simp: field_ok_def list_all_iff)
  next
    case False
    then have "v = t_value t \<or> v = js ''true'' \<or> v = js ''false''"
      using r(2) by (cases "f_kind f") (auto simp: checked_value_def Let_def split: if_splits)
    then show ?thesis using assms(4) by auto
  qed
  ultimately show ?thesis using r(3) by simp
qed

lemma validate_terms_keeps:
  "validate_terms ts defs = Inr us \<Longrightarrow>
   list_all2 (\<lambda>t u. validateTerm t defs = Inr u \<and> t_from u = t_from t \<and> t_to u = t_to t \<and>
     t_negated u = t_negated t \<and> t_op u = t_op t) ts us"
proof (induction ts arbitrary: us)
  case (Cons t ts)
  then obtain u us' where u: "validateTerm t defs = Inr u" "validate_terms ts defs = Inr us'" "us = u # us'"
    by (auto split: sum.splits)
  have "t_from u = t_from t \<and> t_to u = t_to t \<and> t_negated u = t_negated t \<and> t_op u = t_op t"
    using u(1) by (rule validateTerm_Inr) simp
  with u Cons.IH [OF u(2)] show ?case by simp
qed simp

lemma validate_items:
  assumes "fields_ok defs" and "validate_terms (terms_of its) defs = Inr us" and "list_all (item_ok regex) its"
  obtains its' where "terms_of its' = us" and "words_of its' = words_of its" and "regexes_of its' = regexes_of its"
    and "map item_span its' = map item_span its" and "list_all (item_ok regex) its'"
  using assms(2,3)
proof (induction its arbitrary: us thesis)
  case (Cons it its)
  show ?case
  proof (cases it)
    case (TermItem t)
    then obtain u us' where u: "validateTerm t defs = Inr u" "validate_terms (terms_of its) defs = Inr us'" "us = u # us'"
      using Cons.prems(2) by (auto split: sum.splits)
    obtain its' where its': "terms_of its' = us'" "words_of its' = words_of its" "regexes_of its' = regexes_of its"
        "map item_span its' = map item_span its" "list_all (item_ok regex) its'"
      using Cons.IH [OF _ u(2)] Cons.prems(3) by auto
    have "item_span (TermItem u) = item_span it"
      using u(1) by (rule validateTerm_Inr) (simp add: TermItem item_span_def)
    moreover have "item_ok regex (TermItem u)"
      using validateTerm_printable [OF assms(1) u(1)] Cons.prems(3) TermItem by simp
    ultimately show ?thesis using Cons.prems(1) [of "TermItem u # its'"] its' u(3) TermItem by simp
  next
    case (WordItem w)
    then obtain its' where "terms_of its' = us" "words_of its' = words_of its" "regexes_of its' = regexes_of its"
        "map item_span its' = map item_span its" "list_all (item_ok regex) its'"
      using Cons.IH [of us] Cons.prems(2,3) by auto
    then show ?thesis using Cons.prems(1) [of "it # its'"] Cons.prems(3) WordItem by simp
  next
    case (RegexItem x)
    have p: "validate_terms (terms_of its) defs = Inr us" using Cons.prems(2) RegexItem by simp
    have o: "list_all (item_ok regex) its" using Cons.prems(3) unfolding list.pred_inject by blast
    obtain its' where "terms_of its' = us" "words_of its' = words_of its" "regexes_of its' = regexes_of its"
        "map item_span its' = map item_span its" "list_all (item_ok regex) its'"
      using Cons.IH [OF _ p o] by blast
    then show ?thesis using Cons.prems(1) [of "it # its'"] Cons.prems(3) RegexItem by simp
  qed
qed simp

lemma validate_terms_fixed:
  "list_all (\<lambda>u. validateTerm u defs = Inr u) us \<Longrightarrow> validate_terms us defs = Inr us"
  by (induction us) auto

lemma unspan_term_eq:
  fixes t u :: filter_term
  assumes "t\<lparr>t_from := 0, t_to := 0\<rparr> = u\<lparr>t_from := 0, t_to := 0\<rparr>"
  shows "t_key t = t_key u \<and> t_value t = t_value u \<and> t_op t = t_op u"
  using assms by (cases t; cases u) simp

lemma terms_of_unspan:
  "map unspan its = map unspan its' \<Longrightarrow>
   list_all2 (\<lambda>t u. t_key t = t_key u \<and> t_value t = t_value u \<and> t_op t = t_op u) (terms_of its) (terms_of its')"
proof (induction its arbitrary: its')
  case (Cons it its)
  then obtain it' r where r: "its' = it' # r" "unspan it = unspan it'" "map unspan its = map unspan r" by auto
  from r(2) have "case (it, it') of (TermItem t, TermItem u) \<Rightarrow> t_key t = t_key u \<and> t_value t = t_value u \<and> t_op t = t_op u
      | (TermItem t, _) \<Rightarrow> False | (_, TermItem u) \<Rightarrow> False | _ \<Rightarrow> True"
    by (cases it; cases it') (auto dest: unspan_term_eq)
  with Cons.IH [OF r(3)] r(1) show ?case by (cases it; cases it') auto
qed simp

lemma term_refusal_span: "validateTerm t defs = Inl e \<Longrightarrow> e_from e = t_from t \<and> e_to e = t_to t"
  by (auto simp: validateTerm_def term_refusal_def split: sum.splits if_splits)

lemma validate_terms_refusal:
  assumes "validate_terms ts defs = Inl e"
  obtains t where "t \<in> set ts" and "e_from e = t_from t" and "e_to e = t_to t"
  using assms
proof (induction ts)
  case (Cons t ts)
  then show ?case using term_refusal_span [of t defs e] by (auto split: sum.splits)
qed simp

lemma terms_of_mem: "t \<in> set (terms_of its) \<Longrightarrow> TermItem t \<in> set its"
  by (induction its rule: terms_of.induct) auto

lemma spans_in_nonempty: "spans_in lo hi ps \<Longrightarrow> p \<in> set ps \<Longrightarrow> fst p < snd p \<and> snd p \<le> hi"
  by (induction ps arbitrary: lo) (auto dest: spans_in_bound)

lemma prefix_match_find: "f_kind d = KPath \<Longrightarrow> prefix_match lower d \<longleftrightarrow> List.find (prefix_of lower) (f_prefixes d) \<noteq> None"
  by (auto simp: prefix_match_def prefix_of_def find_None_iff list_ex_iff)

lemma resolve_paths_find:
  "resolve_paths typed lower defs = Some (Inr (k, f)) \<Longrightarrow> List.find (prefix_match lower) defs = Some f"
proof (induction defs)
  case (Cons d defs)
  show ?case
  proof (cases "f_kind d = KPath \<and> resolve_path typed lower d \<noteq> None")
    case True
    then have "resolve_path typed lower d = Some (Inr (k, f))" using Cons.prems by auto
    then have "List.find (prefix_of lower) (f_prefixes d) \<noteq> None" "f = d" by (auto elim: resolve_path_Inr)
    with True show ?thesis by (simp add: prefix_match_find)
  next
    case False
    have "\<not> prefix_match lower d"
    proof (cases "f_kind d = KPath")
      case True
      with False have "resolve_path typed lower d = None" by simp
      with True show ?thesis by (auto simp: prefix_match_find resolve_path_def Let_def split: option.splits)
    qed (simp add: prefix_match_def)
    moreover have "resolve_paths typed lower defs = Some (Inr (k, f))"
      using Cons.prems False by (auto split: if_splits)
    ultimately show ?thesis using Cons.IH by simp
  qed
qed simp

lemma resolve_paths_None: "resolve_paths typed lower defs = None \<Longrightarrow> List.find (prefix_match lower) defs = None"
proof (induction defs)
  case (Cons d defs)
  show ?case
  proof (cases "f_kind d = KPath")
    case True
    with Cons.prems have "resolve_path typed lower d = None" by (auto split: option.splits)
    with True Cons show ?thesis by (auto simp: prefix_match_find resolve_path_def Let_def split: option.splits)
  next
    case False
    with Cons show ?thesis by (simp add: prefix_match_def)
  qed
qed simp

section \<open>UTF-8\<close>

text \<open>The bytes of a code point, as the engine's strings have them.\<close>

definition utf8_bytes :: "nat \<Rightarrow> nat list" where
  "utf8_bytes c =
     (if c < 0x80 then [c]
      else if c < 0x800 then [0xC0 + c div 64, 0x80 + c mod 64]
      else if c < 0x10000 then [0xE0 + c div 64 div 64, 0x80 + c div 64 mod 64, 0x80 + c mod 64]
      else [0xF0 + c div 64 div 64 div 64, 0x80 + c div 64 div 64 mod 64, 0x80 + c div 64 mod 64, 0x80 + c mod 64])"

lemma compare_points_less: "compare_points as bs < 0 \<longleftrightarrow> as < bs"
proof (induction as bs rule: compare_points.induct)
  case (2 bs)
  then show ?case by (cases bs) auto
qed auto

lemma digit_step:
  fixes c d :: nat
  assumes "c < d"
  shows "c div 64 < d div 64 \<or> c div 64 = d div 64 \<and> c mod 64 < d mod 64"
proof -
  have "c div 64 \<le> d div 64" using assms by (simp add: div_le_mono)
  moreover have "c mod 64 < d mod 64" if "c div 64 = d div 64"
    using assms that mult_div_mod_eq [of 64 c] mult_div_mod_eq [of 64 d] by linarith
  ultimately show ?thesis by linarith
qed

lemma utf8_bytes_less:
  assumes "c < d" and "d < 0x110000"
  shows "utf8_bytes c @ xs < utf8_bytes d @ ys"
proof -
  note s1 = digit_step [OF assms(1)]
  note s2 = digit_step [of "c div 64" "d div 64"] and s3 = digit_step [of "c div 64 div 64" "d div 64 div 64"]
  consider "d < 0x80" | "0x80 \<le> d" "d < 0x800" | "0x800 \<le> d" "d < 0x10000" | "0x10000 \<le> d" by linarith
  then show ?thesis
  proof cases
    case 1
    with assms show ?thesis by (simp add: utf8_bytes_def)
  next
    case 2
    with assms s1 show ?thesis by (cases "c < 0x80") (auto simp: utf8_bytes_def)
  next
    case 3
    then have "c < 0x800 \<Longrightarrow> 0xC0 + c div 64 < 0xE0 + d div 64 div 64" by linarith
    with 3 assms s1 s2 show ?thesis
      by (cases "c < 0x80"; cases "c < 0x800") (auto simp: utf8_bytes_def)
  next
    case 4
    then have "c < 0x800 \<Longrightarrow> 0xC0 + c div 64 < 0xF0 + d div 64 div 64 div 64"
      "c < 0x10000 \<Longrightarrow> 0xE0 + c div 64 div 64 < 0xF0 + d div 64 div 64 div 64" by linarith+
    with 4 assms s1 s2 s3 show ?thesis
      by (cases "c < 0x80"; cases "c < 0x800"; cases "c < 0x10000") (auto simp: utf8_bytes_def)
  qed
qed

lemma utf8_bytes_nonempty [simp]: "utf8_bytes c \<noteq> []"
  by (simp add: utf8_bytes_def)

lemma append_less_append: "(zs @ xs < zs @ ys) \<longleftrightarrow> xs < (ys :: nat list)"
  by (induction zs) auto

lemma utf8_concat_less:
  "\<forall>c\<in>set as \<union> set bs. c < 0x110000 \<Longrightarrow>
   concat (map utf8_bytes as) < concat (map utf8_bytes bs) \<longleftrightarrow> as < bs"
proof (induction as bs rule: compare_points.induct)
  case (1 a as b bs)
  consider "a = b" | "a < b" | "b < a" by linarith
  then show ?case
  proof cases
    case 1
    with "1.IH" "1.prems" show ?thesis by (simp add: append_less_append)
  next
    case 2
    with "1.prems" utf8_bytes_less [of a b "concat (map utf8_bytes as)" "concat (map utf8_bytes bs)"]
    show ?thesis by simp
  next
    case 3
    with "1.prems" utf8_bytes_less [of b a "concat (map utf8_bytes bs)" "concat (map utf8_bytes as)"]
    show ?thesis by (simp add: order_less_not_sym)
  qed
next
  case (2 bs)
  then show ?case by (cases bs) (auto simp: utf8_bytes_def)
next
  case (3 a as)
  then show ?case by simp
qed

text \<open>Printing a checked query and checking the text again, for fields that read their own names and values.\<close>

lemma check_print_fields:
  assumes "fields_ok (s_fields fs)" and "units_ok text" and "checkFilter text fs = Inr q"
  shows "\<exists>q'. checkFilter (printFilter q (s_regex fs)) fs = Inr q' \<and> unspan_query q' = unspan_query q"
proof -
  let ?r = "s_regex fs" and ?defs = "s_fields fs"
  obtain q0 us where q0: "parseFilter text ?r = Inr q0" "validate_terms (q_terms q0) ?defs = Inr us" "q = q0\<lparr>q_terms := us\<rparr>"
    using assms(3) by (auto simp: checkFilter_def validateFilter_def split: sum.splits)
  obtain its where its: "q0 = of_items its" "list_all (item_ok ?r) its" "spans_in 0 (length text) (map item_span its)"
    using q0(1) assms(2) by (rule parse_answer)
  have "validate_terms (terms_of its) ?defs = Inr us" using q0(2) its(1) by (simp add: of_items_def)
  then obtain its1 where its1: "terms_of its1 = us" "words_of its1 = words_of its" "regexes_of its1 = regexes_of its"
      "map item_span its1 = map item_span its" "list_all (item_ok ?r) its1"
    using assms(1) its(2) by (metis validate_items)
  have q: "q = of_items its1" using q0(3) its(1) its1 by (simp add: of_items_def)
  have order: "in_order q = its1" unfolding q using its(3) its1(4) by (intro in_order_of_items) simp
  have "query_ok ?r q"
    using its1(5) mset_eq_setD [OF mset_of_items [of its1]] unfolding q by (simp add: query_ok_def list_all_iff)
  then obtain its' where its': "parseFilter (printFilter q ?r) ?r = Inr (of_items its')" "map unspan its' = map unspan its1"
    using order by (metis parse_printed)
  have "list_all (\<lambda>u. validateTerm u ?defs = Inr u) (terms_of its')"
  proof (clarsimp simp: list_all_length)
    fix i assume i: "i < length (terms_of its')"
    note l2 = terms_of_unspan [OF its'(2)] and keep = validate_terms_keeps [OF q0(2)]
    have "length (terms_of its') = length us" using l2 its1(1) by (auto dest: list_all2_lengthD)
    moreover have "t_key (terms_of its' ! i) = t_key (us ! i) \<and> t_value (terms_of its' ! i) = t_value (us ! i) \<and>
        t_op (terms_of its' ! i) = t_op (us ! i)"
      using list_all2_nthD [OF l2 i] its1(1) by simp
    moreover have "validateTerm (q_terms q0 ! i) ?defs = Inr (us ! i)"
      using list_all2_nthD2 [OF keep, of i] i calculation(1) by simp
    ultimately show "validateTerm (terms_of its' ! i) ?defs = Inr (terms_of its' ! i)"
      using validateTerm_again [OF assms(1)] by blast
  qed
  then have "validate_terms (q_terms (of_items its')) ?defs = Inr (q_terms (of_items its'))"
    by (simp add: validate_terms_fixed of_items_def)
  then have "checkFilter (printFilter q ?r) fs = Inr (of_items its')"
    using its'(1) by (simp add: checkFilter_def validateFilter_def)
  moreover have "unspan_query (of_items its') = unspan_query q"
    using its'(2) by (simp add: q unspan_of_items)
  ultimately show ?thesis by blast
qed

section \<open>Properties\<close>

definition sample_fields :: filter_field_set where
  "sample_fields =
     \<lparr>s_fields =
        [\<lparr>f_key = js ''provider'', f_aliases = [js ''p''], f_kind = KEnum, f_help = None,
          f_values = [js ''google.com'', js ''phone''], f_valueAliases = [(js ''google'', js ''google.com'')],
          f_prefixes = []\<rparr>,
         \<lparr>f_key = js ''data'', f_aliases = [], f_kind = KPath, f_help = None, f_values = [],
          f_valueAliases = [], f_prefixes = [js ''data.'']\<rparr>,
         \<lparr>f_key = js ''email'', f_aliases = [], f_kind = KText, f_help = None, f_values = [],
          f_valueAliases = [], f_prefixes = []\<rparr>],
      s_regex = False\<rparr>"

text \<open>
  C18. However a filter is refused -- by the parser or because a term does not fit the fields -- the
  refusal points at some of the text.
\<close>

theorem check_refusal_span:
  assumes "units_ok text" and "checkFilter text fs = Inl e"
  shows "e_from e < e_to e \<and> e_to e \<le> length text"
proof (cases "parseFilter text (s_regex fs)")
  case (Inl x)
  then have "error_in (code_points text) x"
    using parse_loop_error by (auto simp: parseFilter_def parse_def)
  with Inl assms show ?thesis by (simp add: checkFilter_def error_in_def offset_end)
next
  case (Inr q)
  obtain its where its: "q = of_items its" "spans_in 0 (length text) (map item_span its)"
    using Inr assms(1) by (rule parse_answer)
  have "validate_terms (q_terms q) (s_fields fs) = Inl e"
    using Inr assms(2) by (auto simp: checkFilter_def validateFilter_def split: sum.splits)
  then obtain t where t: "t \<in> set (q_terms q)" "e_from e = t_from t" "e_to e = t_to t"
    by (rule validate_terms_refusal)
  then have "TermItem t \<in> set its" using its(1) terms_of_mem by (simp add: of_items_def)
  then have "item_span (TermItem t) \<in> set (map item_span its)" by (metis image_eqI set_map)
  from spans_in_nonempty [OF its(2) this] t(2,3) show ?thesis by simp
qed

theorem check_refusal_span_witness:
  "\<exists>e. checkFilter (js ''x p:bad'') sample_fields = Inl e \<and> e_from e < e_to e \<and> e_to e \<le> 7"
proof -
  have u: "units_ok (js ''x p:bad'')" by code_simp
  have c: "checkFilter (js ''x p:bad'') sample_fields =
      Inl \<lparr>e_message = js ''\"p:\" is one of google.com (google), phone.'', e_from = 2, e_to = 7\<rparr>" by code_simp
  show ?thesis using c check_refusal_span [OF u c] by simp
qed

text \<open>
  C19. The completion list and the check agree on keys: a key the check resolves to a field is the
  key \<open>fieldFor\<close> answers that field for.
\<close>

theorem fieldFor_agrees:
  assumes "resolveKey typed (asciiLower typed) defs = Inr (key, field)"
  shows "fieldFor typed defs = Some field"
  using assms
proof (cases rule: resolveKey_Inr)
  case path
  then show ?thesis by (simp add: fieldFor_def resolve_paths_find)
next
  case named
  then show ?thesis by (simp add: fieldFor_def resolve_paths_None)
qed

theorem fieldFor_agrees_witness:
  "\<exists>f. resolveKey (js ''Data.x'') (asciiLower (js ''Data.x'')) (s_fields sample_fields) = Inr (js ''data.x'', f) \<and>
     fieldFor (js ''Data.x'') (s_fields sample_fields) = Some f"
proof -
  have "resolveKey (js ''Data.x'') (asciiLower (js ''Data.x'')) (s_fields sample_fields) =
      Inr (js ''data.x'', s_fields sample_fields ! 1)" by code_simp
  then show ?thesis using fieldFor_agrees by blast
qed

text \<open>
  C20. \<open>compareUtf8\<close> orders strings as their UTF-8 bytes do, which is how the engine's sorted maps
  keep them.
\<close>

theorem compareUtf8_bytes:
  assumes "units_ok a" and "units_ok b"
  shows "compareUtf8 a b < 0 \<longleftrightarrow>
    concat (map utf8_bytes (code_points a)) < concat (map utf8_bytes (code_points b))"
proof -
  have "\<forall>c\<in>set (code_points a) \<union> set (code_points b). c < 0x110000"
    using assms no_pairs_range no_pairs_code_points by blast
  from utf8_concat_less [OF this] show ?thesis by (simp add: compareUtf8_def compare_points_less)
qed

theorem compareUtf8_bytes_witness:
  "compareUtf8 [0xFF5E] [0xD83D, 0xDE00] < 0 \<and>
   concat (map utf8_bytes (code_points [0xFF5E])) < concat (map utf8_bytes (code_points [0xD83D, 0xDE00]))"
proof -
  have u: "units_ok [0xFF5E]" "units_ok [0xD83D, 0xDE00]" by simp_all
  have "compareUtf8 [0xFF5E] [0xD83D, 0xDE00] < 0" by code_simp
  then show ?thesis using compareUtf8_bytes [OF u] by blast
qed

end
