(* ===== verification/Filter_Fields.thy ===== *)
theory Filter_Fields
  imports Filter_Validate
begin

text \<open>
  The fields of the console's lists: the Logs page, the Functions overview and invocations, the
  Authentication users, activity and inbox, Cloud Tasks, Pub/Sub messages, Storage objects and
  Eventarc events. Completions are left out. The proof that a checked filter can be written back
  is discharged here for each of them.
\<close>

section \<open>The lists' fields\<close>

definition field_spec :: "string \<Rightarrow> filter_kind \<Rightarrow> string \<Rightarrow> filter_field" where
  "field_spec key kind help = \<lparr>f_key = js key, f_aliases = [], f_kind = kind, f_help = Some (js help), f_values = [],
     f_valueAliases = [], f_prefixes = []\<rparr>"

definition KIND_WORDS :: "jstring list" where
  "KIND_WORDS = map js [''http'', ''callable'', ''firestore'', ''storage'', ''auth'', ''pubsub'', ''schedule'', ''eventarc'', ''tasks'', ''blocking'', ''alerts'', ''database'', ''other'']"

definition OVERVIEW_STATUSES :: "jstring list" where
  "OVERVIEW_STATUSES = map js [''receiving'', ''ignored'', ''noService'', ''paused'', ''removed'', ''notLoaded'']"

definition DELIVERY_WORDS :: "jstring list" where
  "DELIVERY_WORDS = map js [''delivered'', ''filtered'', ''unheard'', ''failed'', ''pending'']"

definition LOG_FIELDS :: "filter_field list" where
  "LOG_FIELDS =
     [(field_spec ''level'' KEnum ''How serious the line is'')
        \<lparr>f_aliases := [js ''severity''], f_values := map js [''debug'', ''info'', ''warn'', ''error'']\<rparr>,
      (field_spec ''service'' KEnum ''The emulator that wrote it'')
        \<lparr>f_aliases := [js ''emulator''],
          f_values := map js [''hub'', ''firestore'', ''auth'', ''storage'', ''functions'', ''pubsub'', ''eventarc'', ''tasks'']\<rparr>,
      (field_spec ''function'' KExact ''Functions trigger id; end with * for a prefix'')
        \<lparr>f_aliases := [js ''fn'']\<rparr>,
      (field_spec ''instance'' KExact ''Extension instance'')
        \<lparr>f_aliases := [js ''ext'', js ''extension'']\<rparr>,
      field_spec ''codebase'' KExact ''Functions codebase'',
      (field_spec ''execution'' KExact ''One function invocation'')\<lparr>f_aliases := [js ''exec'']\<rparr>,
      field_spec ''kind'' KExact ''What happened, like function.failed; end with * for a prefix'',
      (field_spec ''is'' KEnum ''Problems, engine internals or markers'')
        \<lparr>f_values := map js [''problem'', ''internal'', ''marker'']\<rparr>,
      (field_spec ''payload'' KPath ''A field of the structured payload; * for any value'')
        \<lparr>f_prefixes := [js ''payload.'']\<rparr>]"

definition OVERVIEW_FIELDS :: "filter_field list" where
  "OVERVIEW_FIELDS =
     [(field_spec ''kind'' KEnum ''How the function is triggered'')\<lparr>f_values := KIND_WORDS\<rparr>,
      (field_spec ''status'' KEnum ''Receiving, or why it receives nothing'')
        \<lparr>f_values := OVERVIEW_STATUSES,
          f_valueAliases := [(js ''no-service'', js ''noService''), (js ''noservice'', js ''noService''), (js ''not-loaded'', js ''notLoaded''), (js ''notloaded'', js ''notLoaded'')]\<rparr>,
      field_spec ''codebase'' KExact ''Codebase or extension instance; end with * for a prefix'',
      field_spec ''region'' KExact ''Region, like us-central1'']"

definition invocationFields :: "filter_field list" where
  "invocationFields =
     [(field_spec ''function'' KExact ''Function id, like us-central1-api'')\<lparr>f_aliases := [js ''fn'']\<rparr>,
      field_spec ''codebase'' KExact ''Codebase or extension instance'',
      (field_spec ''kind'' KEnum ''How the function is triggered'')\<lparr>f_values := KIND_WORDS\<rparr>,
      field_spec ''topic'' KExact ''Pub/Sub or schedule topic, by name or full name'',
      field_spec ''queue'' KExact ''Cloud Tasks queue key, like demo-project-us-central1-resize'',
      (field_spec ''outcome'' KEnum ''Succeeded, failed, skipped or still running'')
        \<lparr>f_values := map js [''succeeded'', ''failed'', ''skipped'', ''running'']\<rparr>,
      (field_spec ''origin'' KEnum ''Who made the call'')
        \<lparr>f_values := map js [''console'', ''replay'', ''emulator'', ''client'']\<rparr>,
      field_spec ''status'' KNumber ''HTTP status the function answered with'',
      field_spec ''took'' KDuration ''How long it ran, like >200ms'',
      field_spec ''at'' KTime ''When it started'',
      (field_spec ''is'' KEnum ''A cold start or a replay'')
        \<lparr>f_values := map js [''cold'', ''replay'']\<rparr>]"

definition USER_FIELDS :: "filter_field list" where
  "USER_FIELDS =
     [(field_spec ''is'' KEnum ''Account state'')
        \<lparr>f_values := map js [''disabled'', ''verified'', ''anonymous'', ''custom-token'', ''sample'']\<rparr>,
      (field_spec ''has'' KEnum ''What the account has'')
        \<lparr>f_values := map js [''email'', ''phone'', ''password'', ''mfa'', ''claims'', ''photo'', ''name'', ''sign-in'']\<rparr>,
      (field_spec ''provider'' KExact ''Linked sign-in provider'')\<lparr>f_aliases := [js ''p'']\<rparr>,
      field_spec ''claim'' KExact ''Custom claim'',
      field_spec ''created'' KTime ''When the account was created'',
      (field_spec ''signed-in'' KTime ''Last sign-in'')\<lparr>f_aliases := [js ''last-sign-in'']\<rparr>,
      (field_spec ''uid'' KExact ''Account id'')\<lparr>f_aliases := [js ''id'']\<rparr>,
      field_spec ''email'' KText ''Email address'',
      field_spec ''phone'' KText ''Phone number'',
      field_spec ''name'' KText ''Display name'']"

definition ACTIVITY_FIELDS :: "filter_field list" where
  "ACTIVITY_FIELDS =
     [(field_spec ''is'' KEnum ''What the call did'')\<lparr>f_values := map js [''error'', ''new-user'']\<rparr>,
      (field_spec ''kind'' KEnum ''What kind of call'')
        \<lparr>f_values := map js [''sign-in'', ''sign-up'', ''refresh'', ''code'', ''account'', ''config'', ''lookup'', ''other'']\<rparr>,
      (field_spec ''caller'' KEnum ''Who called'')
        \<lparr>f_values := map js [''app'', ''admin'', ''console'', ''link'', ''picker'', ''emulator'']\<rparr>,
      field_spec ''op'' KText ''The operation, like signInWithPassword'',
      (field_spec ''provider'' KExact ''Sign-in provider'')\<lparr>f_aliases := [js ''p'']\<rparr>,
      (field_spec ''uid'' KExact ''Account id'')\<lparr>f_aliases := [js ''id'']\<rparr>,
      (field_spec ''has'' KEnum ''What the call caused'')
        \<lparr>f_values := map js [''blocking'', ''trigger'', ''message'', ''change'', ''config'']\<rparr>,
      field_spec ''status'' KNumber ''HTTP status'',
      field_spec ''took'' KDuration ''How long the call took'',
      field_spec ''at'' KTime ''When the call was made'']"

definition INBOX_FIELDS :: "filter_field list" where
  "INBOX_FIELDS =
     [(field_spec ''is'' KEnum ''What became of the message'')
        \<lparr>f_values := map js [''used'', ''returned'', ''restored'']\<rparr>,
      (field_spec ''type'' KEnum ''Email or SMS'')\<lparr>f_values := map js [''email'', ''sms'']\<rparr>,
      (field_spec ''kind'' KEnum ''What the message is for'')
        \<lparr>f_values := map js [''verify'', ''reset'', ''sign-in'', ''change'', ''recover'', ''sms'', ''mfa-enroll'', ''mfa-sign-in'']\<rparr>,
      (field_spec ''uid'' KExact ''Account id'')\<lparr>f_aliases := [js ''id'']\<rparr>,
      field_spec ''to'' KText ''Recipient'',
      field_spec ''at'' KTime ''When it was sent'']"

definition TASK_FIELDS :: "filter_field list" where
  "TASK_FIELDS =
     [(field_spec ''name'' KExact ''Task name, full or short (a trailing * matches the start)'')
        \<lparr>f_aliases := [js ''id'']\<rparr>,
      (field_spec ''is'' KEnum ''Named by the emulator, or enqueued from the console'')
        \<lparr>f_values := map js [''generated'', ''console'']\<rparr>]"

definition MESSAGE_FIELDS :: "filter_field list" where
  "MESSAGE_FIELDS =
     [field_spec ''id'' KNumber ''Message id'',
      (field_spec ''key'' KExact ''Ordering key (a trailing * matches the start)'')
        \<lparr>f_aliases := [js ''orderingkey'']\<rparr>,
      (field_spec ''attributes'' KPath ''An attribute, by its key'')
        \<lparr>f_aliases := [js ''attribute''], f_prefixes := [js ''attributes.'']\<rparr>,
      (field_spec ''has'' KEnum ''Messages that carry an ordering key, a schema or attributes'')
        \<lparr>f_values := map js [''key'', ''schema'', ''attributes'']\<rparr>,
      (field_spec ''is'' KEnum ''Dead-lettered, binary or JSON messages'')
        \<lparr>f_values := map js [''dead-lettered'', ''binary'', ''json''],
          f_valueAliases := [(js ''deadlettered'', js ''dead-lettered'')]\<rparr>]"

definition STORAGE_FILTER_FIELDS :: "filter_field list" where
  "STORAGE_FILTER_FIELDS =
     [field_spec ''name'' KText ''Name below the folder'',
      (field_spec ''type'' KExact ''Content type, like type:image/*'')
        \<lparr>f_aliases := [js ''contenttype'']\<rparr>,
      field_spec ''size'' KBytes ''Size, like size:>5MB'',
      field_spec ''updated'' KTime ''Last changed, like updated:>-1h'',
      field_spec ''created'' KTime ''Created, like created:<2026-10-01'',
      (field_spec ''meta'' KPath ''Custom metadata, like meta.ownerUid:u_9f3k2'')
        \<lparr>f_prefixes := [js ''meta.'']\<rparr>,
      (field_spec ''has'' KEnum ''Has a field: has:token, -has:type'')
        \<lparr>f_values := map js [''token'', ''type'', ''metadata'', ''encoding'', ''cache'']\<rparr>]"

definition eventFields :: "filter_field list" where
  "eventFields =
     [field_spec ''type'' KExact ''Event type; end with * for a prefix'',
      field_spec ''source'' KExact ''CloudEvent source'',
      field_spec ''subject'' KExact ''CloudEvent subject'',
      field_spec ''publisher'' KExact ''Extension instance that published it'',
      (field_spec ''origin'' KEnum ''Who published it'')
        \<lparr>f_values := map js [''console'', ''replay'', ''app'']\<rparr>,
      (field_spec ''delivery'' KEnum ''What became of it'')\<lparr>f_values := DELIVERY_WORDS\<rparr>,
      field_spec ''at'' KTime ''When it arrived'']"

text \<open>The lists the console declares in its own source.\<close>

definition console_fields :: "filter_field list list" where
  "console_fields = [LOG_FIELDS, OVERVIEW_FIELDS, invocationFields, USER_FIELDS, ACTIVITY_FIELDS, INBOX_FIELDS,
     TASK_FIELDS, MESSAGE_FIELDS, STORAGE_FILTER_FIELDS, eventFields]"

lemma page_fields_ok:
  "fields_ok LOG_FIELDS" "fields_ok OVERVIEW_FIELDS" "fields_ok invocationFields" "fields_ok USER_FIELDS"
  "fields_ok ACTIVITY_FIELDS" "fields_ok INBOX_FIELDS" "fields_ok TASK_FIELDS" "fields_ok MESSAGE_FIELDS"
  "fields_ok STORAGE_FILTER_FIELDS" "fields_ok eventFields"
  by code_simp+

lemma console_fields_ok: "defs \<in> set console_fields \<Longrightarrow> fields_ok defs"
  using page_fields_ok by (auto simp: console_fields_def)

section \<open>Properties\<close>

text \<open>
  C17. A filter accepted against any of the field lists the console declares can be written back:
  printing the checked query and checking the text again gives the same query, its keys and values
  already in the list's own spelling, with only the places in the text changed. Storage and Cloud
  Tasks use the engine's list in place of their own once it is served, and the claim is not about
  that one.
\<close>

theorem check_print_check:
  assumes "s_fields fs \<in> set console_fields" and "units_ok text" and "checkFilter text fs = Inr q"
  shows "\<exists>q'. checkFilter (printFilter q (s_regex fs)) fs = Inr q' \<and> unspan_query q' = unspan_query q"
  using check_print_fields [OF console_fields_ok [OF assms(1)] assms(2,3)] .

definition logs_filter :: filter_field_set where
  "logs_filter = \<lparr>s_fields = LOG_FIELDS, s_regex = True\<rparr>"

theorem check_print_check_witness:
  "\<exists>q q'. checkFilter (js ''Severity:WARN Payload.userId:7 fn:a*'') logs_filter = Inr q \<and>
     printFilter q True = js ''level:warn payload.userId:7 function:a*'' \<and>
     checkFilter (printFilter q True) logs_filter = Inr q' \<and> unspan_query q' = unspan_query q"
proof -
  let ?t = "js ''Severity:WARN Payload.userId:7 fn:a*''"
  let ?q = "\<lparr>q_terms =
      [\<lparr>t_key = js ''level'', t_op = OpEq, t_value = js ''warn'', t_negated = False, t_from = 0, t_to = 13\<rparr>,
       \<lparr>t_key = js ''payload.userId'', t_op = OpEq, t_value = js ''7'', t_negated = False, t_from = 14, t_to = 30\<rparr>,
       \<lparr>t_key = js ''function'', t_op = OpEq, t_value = js ''a*'', t_negated = False, t_from = 31, t_to = 36\<rparr>],
      q_words = [], q_regexes = []\<rparr>"
  have f: "s_fields logs_filter \<in> set console_fields" by (simp add: logs_filter_def console_fields_def)
  have u: "units_ok ?t" by code_simp
  have c: "checkFilter ?t logs_filter = Inr ?q" by code_simp
  have p: "printFilter ?q True = js ''level:warn payload.userId:7 function:a*''" by code_simp
  have r: "s_regex logs_filter = True" by (simp add: logs_filter_def)
  show ?thesis using c p check_print_check [OF f u c] unfolding r by blast
qed

end
