(* ===== verification/Rules_Scan.thy ===== *)
theory Rules_Scan
  imports Scanners
begin

text \<open>
  The security rules tokenizer, \<open>components/code-editor/rules/scan.ts\<close>: the scanner's state, one
  definition per function, the whole-text reader \<open>lex\<close> and the editor's \<open>indentation\<close>. The state
  the source mutates is passed in and returned. The lemmas show that a token always moves forward
  and stays in its line, what each token does to the bracket stack, and the invariant the states
  keep; \<open>lex\<close> is an instance of \<^const>\<open>forward_scanner\<close>.
\<close>

section \<open>The state\<close>

datatype style =
    Keyword | ControlKeyword | DefinitionKeyword | OperatorKeyword | Operation | Bool | NullWord
  | Number | StringText | Escape | LineComment | BlockComment | VariableName | Builtin | Definition
  | FunctionDef | Call | BuiltinCall | Property | Method | Namespace | TypeName | Path | WildcardText
  | Interpolation | LogicOperator | CompareOperator | ArithmeticOperator | Operator
  | DefinitionOperator | DerefOperator | Separator | Punctuation | Brace | Paren | SquareBracket
  | Invalid

datatype prev = Start | Operand | AfterOperator | Dot | Is | Function

text \<open>The stack's characters: \<open>{\<close>, \<open>m\<close>, \<open>(\<close>, \<open>[\<close> and \<open>$\<close>.\<close>

datatype mark = BlockMark | MapMark | ParenMark | SquareMark | InterpolationMark

datatype header = NoHeader | ServiceHeader | MatchHeader | FunctionHeader

record scan_state =
  comment :: bool
  quote :: jstring
  stack :: "mark list"
  prev_of :: prev
  path :: nat
  header_of :: header
  allow :: bool
  params :: bool
  binding :: bool
  statement :: int

definition initialState :: scan_state where
  "initialState = \<lparr>comment = False, quote = [], stack = [], prev_of = Start, path = 0,
     header_of = NoHeader, allow = False, params = False, binding = False, statement = -1\<rparr>"

type_synonym step = "nat \<times> style option"

section \<open>Words and characters\<close>

definition KEYWORDS :: "(jstring \<times> style) list" where
  "KEYWORDS = [(js ''rules_version'', Keyword), (js ''service'', Keyword), (js ''match'', Keyword),
     (js ''allow'', Keyword), (js ''if'', ControlKeyword), (js ''return'', ControlKeyword),
     (js ''function'', DefinitionKeyword), (js ''let'', DefinitionKeyword),
     (js ''in'', OperatorKeyword), (js ''is'', OperatorKeyword)]"

definition OPERATIONS :: "jstring list" where
  "OPERATIONS = [js ''read'', js ''write'', js ''get'', js ''list'', js ''create'', js ''update'',
     js ''delete'']"

definition GLOBAL_FUNCTIONS :: "jstring list" where
  "GLOBAL_FUNCTIONS = [js ''get'', js ''exists'', js ''getAfter'', js ''existsAfter'', js ''debug'',
     js ''int'', js ''float'', js ''string'', js ''bool'', js ''path'']"

definition NAMESPACES :: "jstring list" where
  "NAMESPACES = [js ''math'', js ''timestamp'', js ''duration'', js ''latlng'', js ''hashing'',
     js ''firestore'']"

text \<open>The character classes; \<open>SPACE\<close> is the language's white space.\<close>

definition SPACE :: "nat \<Rightarrow> bool" where
  "SPACE c \<longleftrightarrow> 9 \<le> c \<and> c \<le> 13 \<or> c = 32 \<or> c = 0xA0 \<or> c = 0x1680 \<or> 0x2000 \<le> c \<and> c \<le> 0x200A \<or>
     c = 0x2028 \<or> c = 0x2029 \<or> c = 0x202F \<or> c = 0x205F \<or> c = 0x3000 \<or> c = 0xFEFF"

definition DIGIT :: "nat \<Rightarrow> bool" where
  "DIGIT c \<longleftrightarrow> 48 \<le> c \<and> c \<le> 57"

definition WORD_START :: "nat \<Rightarrow> bool" where
  "WORD_START c \<longleftrightarrow> 65 \<le> c \<and> c \<le> 90 \<or> 97 \<le> c \<and> c \<le> 122 \<or> c = 95"

definition WORD :: "nat \<Rightarrow> bool" where
  "WORD c \<longleftrightarrow> WORD_START c \<or> DIGIT c"

definition SEGMENT :: "nat \<Rightarrow> bool" where
  "SEGMENT c \<longleftrightarrow> WORD c \<or> c \<in> {45, 46, 126, 37, 64, 43}"

definition HEX :: "nat \<Rightarrow> bool" where
  "HEX c \<longleftrightarrow> DIGIT c \<or> 65 \<le> c \<and> c \<le> 70 \<or> 97 \<le> c \<and> c \<le> 102"

definition char_is :: "jstring \<Rightarrow> nat \<Rightarrow> nat \<Rightarrow> bool" where
  "char_is line i c \<longleftrightarrow> test_at ((=) c) line i"

text \<open>\<open>line.startsWith(s, i)\<close>.\<close>

definition starts_at :: "jstring \<Rightarrow> nat \<Rightarrow> jstring \<Rightarrow> bool" where
  "starts_at line i s \<longleftrightarrow> slice line i (i + length s) = s"

text \<open>
  \<open>NUMBER\<close>: where its match from \<open>pos\<close> ends. The exponent is read only when a digit follows its
  sign, the fraction only when one follows its dot.
\<close>

definition exponent_end :: "jstring \<Rightarrow> nat \<Rightarrow> nat" where
  "exponent_end line m =
     (let d = (if char_is line (m + 1) 43 \<or> char_is line (m + 1) 45 then m + 2 else m + 1);
          e = run_end DIGIT line d
      in if (char_is line m 101 \<or> char_is line m 69) \<and> d < e then e else m)"

definition NUMBER :: "jstring \<Rightarrow> nat \<Rightarrow> nat option" where
  "NUMBER line pos =
     (let hex = run_end HEX line (pos + 2); whole = run_end DIGIT line pos in
      if char_is line pos 48 \<and> (char_is line (pos + 1) 120 \<or> char_is line (pos + 1) 88) \<and> pos + 2 < hex
      then Some hex
      else if pos < whole
      then let fraction = run_end DIGIT line (whole + 1) in
           Some (exponent_end line (if char_is line whole 46 \<and> whole + 1 < fraction then fraction else whole))
      else let fraction = run_end DIGIT line (pos + 1) in
           if char_is line pos 46 \<and> pos + 1 < fraction then Some (exponent_end line fraction) else None)"

text \<open>\<open>ESCAPE\<close>: the length of its match at \<open>pos\<close>, where a backslash stands.\<close>

definition all_at :: "(nat \<Rightarrow> bool) \<Rightarrow> jstring \<Rightarrow> nat \<Rightarrow> nat \<Rightarrow> bool" where
  "all_at p line i n \<longleftrightarrow> i + n \<le> length line \<and> list_all p (slice line i (i + n))"

definition ESCAPE :: "jstring \<Rightarrow> nat \<Rightarrow> nat" where
  "ESCAPE line pos =
     (if char_is line (pos + 1) 120 \<and> all_at HEX line (pos + 2) 2 then 4
      else if char_is line (pos + 1) 117 \<and> all_at HEX line (pos + 2) 4 then 6
      else if char_is line (pos + 1) 85 \<and> all_at HEX line (pos + 2) 8 then 10
      else if all_at (\<lambda>c. 48 \<le> c \<and> c \<le> 55) line (pos + 1) 3 then 4
      else if pos + 1 < length line then 2 else 1)"

section \<open>Brackets and lookahead\<close>

text \<open>
  \<open>popTo\<close>: the loop from the innermost bracket outwards, on the reversed stack; what it finds
  and the stack left below it.
\<close>

fun pop_search :: "mark list \<Rightarrow> mark list \<Rightarrow> (mark \<times> mark list) option" where
  "pop_search closers [] = None"
| "pop_search closers (m # ms) = (if m \<in> set closers then Some (m, ms) else pop_search closers ms)"

definition popTo :: "scan_state \<Rightarrow> mark list \<Rightarrow> mark option \<times> scan_state" where
  "popTo s closers =
     (case pop_search closers (rev (stack s)) of
        None \<Rightarrow> (None, s)
      | Some (open_mark, below) \<Rightarrow>
          (let s' = s\<lparr>stack := rev below\<rparr>
           in (Some open_mark, if statement s' > int (length (stack s')) then s'\<lparr>statement := -1\<rparr> else s')))"

definition followedBy :: "jstring \<Rightarrow> nat \<Rightarrow> nat \<Rightarrow> bool" where
  "followedBy line from ch = char_is line (run_end (\<lambda>c. c = 32 \<or> c = 9) line from) ch"

definition commentAhead :: "jstring \<Rightarrow> nat \<Rightarrow> bool" where
  "commentAhead line pos \<longleftrightarrow> char_is line (pos + 1) 47 \<or> char_is line (pos + 1) 42"

section \<open>The tokens\<close>

text \<open>\<open>line.indexOf('*/', from)\<close>.\<close>

function comment_close :: "jstring \<Rightarrow> nat \<Rightarrow> nat option" where
  "comment_close line i =
     (if i + 1 < length line
      then if line ! i = 42 \<and> line ! (i + 1) = 47 then Some i else comment_close line (i + 1)
      else None)"
  by auto
termination by (relation "measure (\<lambda>(line, i). length line - i)") auto

declare comment_close.simps [simp del]

definition blockComment :: "jstring \<Rightarrow> nat \<Rightarrow> scan_state \<Rightarrow> nat \<Rightarrow> step \<times> scan_state" where
  "blockComment line pos s searchFrom =
     (case comment_close line searchFrom of
        None \<Rightarrow> ((length line, Some BlockComment), s)
      | Some close_at \<Rightarrow> ((close_at + 2, Some BlockComment), s\<lparr>comment := False\<rparr>))"

definition stringRun :: "jstring \<Rightarrow> nat \<Rightarrow> nat \<Rightarrow> scan_state \<Rightarrow> step \<times> scan_state" where
  "stringRun line pos from s =
     (let i = run_end (\<lambda>c. c \<noteq> 92 \<and> [c] \<noteq> quote s) line from in
      if test_at (\<lambda>c. [c] = quote s) line i
      then ((max (i + 1) (pos + 1), Some StringText), s\<lparr>quote := []\<rparr>)
      else ((max i (pos + 1), Some StringText), s))"

definition stringStart :: "jstring \<Rightarrow> nat \<Rightarrow> nat \<Rightarrow> scan_state \<Rightarrow> step \<times> scan_state" where
  "stringStart line pos quoteAt s =
     stringRun line pos (quoteAt + 1) (s\<lparr>quote := slice line quoteAt (quoteAt + 1), prev_of := Operand\<rparr>)"

definition stringBody :: "jstring \<Rightarrow> nat \<Rightarrow> scan_state \<Rightarrow> step \<times> scan_state" where
  "stringBody line pos s =
     (if char_is line pos 92 then ((pos + ESCAPE line pos, Some Escape), s)
      else stringRun line pos pos s)"

text \<open>The loop of \<open>pathToken\<close>, from a place after its first slash.\<close>

definition DEFAULT_SEGMENT :: jstring where
  "DEFAULT_SEGMENT = js ''(default)''"

function path_end :: "jstring \<Rightarrow> nat \<Rightarrow> nat" where
  "path_end line i =
     (if i < length line
      then if char_is line (i - 1) 47 \<and> starts_at line i DEFAULT_SEGMENT
           then path_end line (i + length DEFAULT_SEGMENT)
           else if SEGMENT (line ! i) then path_end line (i + 1)
           else if line ! i = 47 \<and> \<not> char_is line (i - 1) 47 \<and> \<not> commentAhead line i
           then path_end line (i + 1)
           else i
      else i)"
  by auto
termination
  by (relation "measure (\<lambda>(line, i). length line - i)") (auto simp: DEFAULT_SEGMENT_def)

declare path_end.simps [simp del]

definition pathToken :: "jstring \<Rightarrow> nat \<Rightarrow> scan_state \<Rightarrow> step \<times> scan_state" where
  "pathToken line pos s =
     (let i = path_end line (pos + 1)
      in ((i, Some Path), s\<lparr>path := if char_is line (i - 1) 47 then 1 else 0, prev_of := Operand\<rparr>))"

definition wildcard :: "jstring \<Rightarrow> nat \<Rightarrow> scan_state \<Rightarrow> step \<times> scan_state" where
  "wildcard line pos s =
     (let w = run_end WORD line (pos + 1);
          i = (if starts_at line w (js ''=**'') then w + 3 else w)
      in if char_is line i 125
         then ((i + 1, Some WildcardText), s\<lparr>path := 2, prev_of := Operand\<rparr>)
         else ((i, Some WildcardText), s\<lparr>path := 0, prev_of := Operand\<rparr>))"

definition applyKeyword :: "jstring \<Rightarrow> scan_state \<Rightarrow> scan_state" where
  "applyKeyword word s0 =
     (let s = s0\<lparr>prev_of := AfterOperator\<rparr> in
      if word = js ''rules_version'' \<or> word = js ''return''
      then s\<lparr>statement := int (length (stack s))\<rparr>
      else if word = js ''service'' then s\<lparr>header_of := ServiceHeader, allow := False, statement := -1\<rparr>
      else if word = js ''match'' then s\<lparr>header_of := MatchHeader, allow := False, statement := -1\<rparr>
      else if word = js ''allow'' then s\<lparr>allow := True, statement := int (length (stack s))\<rparr>
      else if word = js ''function''
      then s\<lparr>header_of := FunctionHeader, prev_of := Function, statement := -1\<rparr>
      else if word = js ''let'' then s\<lparr>binding := True, statement := int (length (stack s))\<rparr>
      else if word = js ''if'' then s\<lparr>allow := False\<rparr>
      else if word = js ''is'' then s\<lparr>prev_of := Is\<rparr>
      else s)"

definition identifier_token :: "jstring \<Rightarrow> nat \<Rightarrow> scan_state \<Rightarrow> step \<times> scan_state" where
  "identifier_token line pos s0 =
     (let stop = run_end WORD line (pos + 1);
          word = slice line pos stop;
          before_it = prev_of s0;
          s = s0\<lparr>prev_of := Operand\<rparr>
      in if params s then ((stop, Some Definition), s)
         else if before_it = Function then ((stop, Some FunctionDef), s)
         else if binding s then ((stop, Some Definition), s\<lparr>binding := False\<rparr>)
         else if header_of s = ServiceHeader then ((stop, Some Namespace), s)
         else if before_it = Dot
         then ((stop, Some (if followedBy line stop 40 then Method else Property)), s)
         else if allow s \<and> word \<in> set OPERATIONS then ((stop, Some Operation), s)
         else case map_of KEYWORDS word of
           Some keyword \<Rightarrow> ((stop, Some keyword), applyKeyword word s)
         | None \<Rightarrow>
             ((stop, Some
                (if before_it = Is then TypeName
                 else if word = js ''true'' \<or> word = js ''false'' then Bool
                 else if word = js ''null'' then NullWord
                 else if followedBy line stop 40
                 then (if word \<in> set GLOBAL_FUNCTIONS then BuiltinCall else Call)
                 else if word \<in> set NAMESPACES \<and> followedBy line stop 46 then Namespace
                 else if word = js ''request'' \<or> word = js ''resource'' then Builtin
                 else VariableName)), s))"

text \<open>\<open>punctuation\<close>, for the character \<open>c\<close> at \<open>pos\<close>; none when \<open>charAt\<close> answers the empty string.\<close>

definition open_brace :: "nat \<Rightarrow> scan_state \<Rightarrow> step \<times> scan_state" where
  "open_brace pos s0 =
     (let block = (header_of s0 \<noteq> NoHeader \<or>
            prev_of s0 = Start \<and> (stack s0 = [] \<or> last (stack s0) = BlockMark));
          s = s0\<lparr>stack := stack s0 @ [if block then BlockMark else MapMark], header_of := NoHeader,
                params := False, binding := False\<rparr>
      in ((pos + 1, Some Brace),
          if block then s\<lparr>prev_of := Start, allow := False, statement := -1\<rparr>
          else s\<lparr>prev_of := AfterOperator\<rparr>))"

definition close_brace :: "nat \<Rightarrow> scan_state \<Rightarrow> step \<times> scan_state" where
  "close_brace pos s0 =
     (case popTo s0 [BlockMark, MapMark] of (closed, s) \<Rightarrow>
        ((pos + 1, Some Brace),
         if closed = Some MapMark then s\<lparr>prev_of := Operand\<rparr>
         else s\<lparr>prev_of := Start, allow := False, header_of := NoHeader\<rparr>))"

definition close_paren :: "nat \<Rightarrow> scan_state \<Rightarrow> step \<times> scan_state" where
  "close_paren pos s0 =
     (case popTo s0 [ParenMark, InterpolationMark] of (closed, s) \<Rightarrow>
        if closed = Some InterpolationMark
        then ((pos + 1, Some Interpolation), s\<lparr>prev_of := Operand, path := 2\<rparr>)
        else ((pos + 1, Some Paren), s\<lparr>prev_of := Operand, params := False\<rparr>))"

definition semicolon :: "nat \<Rightarrow> scan_state \<Rightarrow> step \<times> scan_state" where
  "semicolon pos s0 =
     (let s = s0\<lparr>prev_of := Start, allow := False, header_of := NoHeader, params := False, binding := False\<rparr>
      in ((pos + 1, Some Separator),
          if statement s \<ge> int (length (stack s)) then s\<lparr>statement := -1\<rparr> else s))"

definition colon :: "nat \<Rightarrow> scan_state \<Rightarrow> step \<times> scan_state" where
  "colon pos s0 =
     (let s = s0\<lparr>prev_of := AfterOperator\<rparr> in
      if allow s then ((pos + 1, Some Punctuation), s\<lparr>allow := False\<rparr>)
      else ((pos + 1, Some (if stack s \<noteq> [] \<and> last (stack s) \<in> {MapMark, SquareMark}
               then Punctuation else Operator)), s))"

definition punctuation :: "jstring \<Rightarrow> nat \<Rightarrow> nat option \<Rightarrow> scan_state \<Rightarrow> step \<times> scan_state" where
  "punctuation line pos c s =
     (let equals = char_is line (pos + 1) 61;
          operator = (\<lambda>n kind. ((pos + n, Some kind), s\<lparr>prev_of := AfterOperator\<rparr>))
      in if c = Some 123 then open_brace pos s
         else if c = Some 125 then close_brace pos s
         else if c = Some 40
         then ((pos + 1, Some Paren), s\<lparr>stack := stack s @ [ParenMark],
                params := (if header_of s = FunctionHeader then True else params s),
                prev_of := AfterOperator\<rparr>)
         else if c = Some 41 then close_paren pos s
         else if c = Some 91
         then ((pos + 1, Some SquareBracket), s\<lparr>stack := stack s @ [SquareMark], prev_of := AfterOperator\<rparr>)
         else if c = Some 93
         then ((pos + 1, Some SquareBracket), (snd (popTo s [SquareMark]))\<lparr>prev_of := Operand\<rparr>)
         else if c = Some 44 then operator 1 Separator
         else if c = Some 59 then semicolon pos s
         else if c = Some 46 then ((pos + 1, Some DerefOperator), s\<lparr>prev_of := Dot\<rparr>)
         else if c = Some 58 then colon pos s
         else if c = Some 63 then operator 1 Operator
         else if c = Some 61 then (if equals then operator 2 CompareOperator else operator 1 DefinitionOperator)
         else if c = Some 33 then (if equals then operator 2 CompareOperator else operator 1 LogicOperator)
         else if c = Some 60 \<or> c = Some 62 then operator (if equals then 2 else 1) CompareOperator
         else if c = Some 38 \<or> c = Some 124
         then (if at_opt line (pos + 1) = c then operator 2 LogicOperator else ((pos + 1, Some Invalid), s))
         else if c = Some 43 \<or> c = Some 45 \<or> c = Some 42 \<or> c = Some 37 then operator 1 ArithmeticOperator
         else ((pos + 1, Some Invalid), s))"

text \<open>
  \<open>scanToken\<close>, in three parts: outside every path, after the path tests, and whole.
\<close>

definition scan_plain :: "jstring \<Rightarrow> nat \<Rightarrow> nat option \<Rightarrow> scan_state \<Rightarrow> step \<times> scan_state" where
  "scan_plain line pos c s =
     (if c = Some 47
      then if char_is line (pos + 1) 47 then ((length line, Some LineComment), s)
           else if char_is line (pos + 1) 42
           then blockComment line pos (s\<lparr>comment := True\<rparr>) (pos + 2)
           else if prev_of s = Operand
           then ((pos + 1, Some ArithmeticOperator), s\<lparr>prev_of := AfterOperator\<rparr>)
           else pathToken line pos s
      else if c = Some 39 \<or> c = Some 34 then stringStart line pos pos s
      else if c = Some 98 \<and> (char_is line (pos + 1) 39 \<or> char_is line (pos + 1) 34)
      then stringStart line pos (pos + 1) s
      else if test_at DIGIT line pos \<or>
              c = Some 46 \<and> test_at DIGIT line (pos + 1) \<and> prev_of s \<noteq> Operand
      then ((case NUMBER line pos of Some stop \<Rightarrow> stop | None \<Rightarrow> pos + 1, Some Number), s\<lparr>prev_of := Operand\<rparr>)
      else if test_at WORD_START line pos then identifier_token line pos s
      else punctuation line pos c s)"

definition scan_code :: "jstring \<Rightarrow> nat \<Rightarrow> scan_state \<Rightarrow> step \<times> scan_state" where
  "scan_code line pos s =
     (let c = at_opt line pos in
      if test_at SPACE line pos then ((run_end SPACE line (pos + 1), None), s\<lparr>path := 0\<rparr>)
      else if path s = 1
      then if c = Some 123 then wildcard line pos s
           else if c = Some 36 \<and> char_is line (pos + 1) 40
           then ((pos + 2, Some Interpolation),
                 s\<lparr>stack := stack s @ [InterpolationMark], path := 0, prev_of := AfterOperator\<rparr>)
           else scan_plain line pos c (s\<lparr>path := 0\<rparr>)
      else if path s = 2
      then if c = Some 47 \<and> \<not> commentAhead line pos then pathToken line pos s
           else scan_plain line pos c (s\<lparr>path := 0\<rparr>)
      else scan_plain line pos c s)"

definition scanToken :: "jstring \<Rightarrow> nat \<Rightarrow> scan_state \<Rightarrow> step \<times> scan_state" where
  "scanToken line pos s0 =
     (let s = (if pos = 0 then s0\<lparr>quote := [], path := 0\<rparr> else s0) in
      if comment s then blockComment line pos s pos
      else if quote s \<noteq> [] then stringBody line pos s
      else scan_code line pos s)"

section \<open>A token moves forward and stays in its line\<close>

named_theorems scan_defs \<open>the functions a token is read by\<close>

lemmas [scan_defs] = blockComment_def stringRun_def stringStart_def stringBody_def pathToken_def
  wildcard_def identifier_token_def open_brace_def close_brace_def close_paren_def semicolon_def colon_def
  punctuation_def scan_plain_def scan_code_def scanToken_def

lemma char_is_less: "char_is line i c \<Longrightarrow> i < length line"
  by (simp add: char_is_def test_at_def)

lemma comment_close_bounds: "comment_close line i = Some j \<Longrightarrow> i \<le> j \<and> j + 1 < length line"
proof (induction line i rule: comment_close.induct)
  case (1 line i)
  then show ?case
    by (auto simp: comment_close.simps [of line i] split: if_splits)
qed

lemma path_end_ge: "i \<le> path_end line i"
proof (induction line i rule: path_end.induct)
  case (1 line i)
  then show ?case
    by (cases "SEGMENT (line ! i)") (auto simp: path_end.simps [of line i] dest: add_leD1 Suc_leD)
qed

lemma starts_at_le: "starts_at line i s \<Longrightarrow> s \<noteq> [] \<Longrightarrow> i + length s \<le> length line"
  unfolding starts_at_def by (drule arg_cong [of _ _ length]) (cases s, auto simp: min_def split: if_splits)

lemma path_end_le: "i \<le> length line \<Longrightarrow> path_end line i \<le> length line"
proof (induction line i rule: path_end.induct)
  case (1 line i)
  have "starts_at line i DEFAULT_SEGMENT \<Longrightarrow> i + length DEFAULT_SEGMENT \<le> length line"
    using starts_at_le [of line i DEFAULT_SEGMENT] by (auto simp: DEFAULT_SEGMENT_def)
  with 1 show ?case
    by (cases "SEGMENT (line ! i)") (auto simp: path_end.simps [of line i])
qed

lemma exponent_end_bounds:
  "m \<le> length line \<Longrightarrow> m \<le> exponent_end line m \<and> exponent_end line m \<le> length line"
  by (auto simp: exponent_end_def Let_def dest: char_is_less)

lemma NUMBER_bounds:
  assumes "NUMBER line pos = Some stop" and "pos < length line"
  shows "pos < stop \<and> stop \<le> length line"
proof -
  have e: "a < exponent_end line m \<and> exponent_end line m \<le> length line" if "m \<le> length line" "a < m" for a m
    using exponent_end_bounds [OF that(1)] that(2) by linarith
  show ?thesis
    using assms
    by (auto simp: NUMBER_def Let_def split: if_splits dest: char_is_less intro!: e)
qed

lemma ESCAPE_bounds: "pos < length line \<Longrightarrow> 0 < ESCAPE line pos \<and> pos + ESCAPE line pos \<le> length line"
  by (auto simp: ESCAPE_def all_at_def)

lemma stringRun_bounds:
  assumes "stringRun line pos from s = ((stop, st), s')" and "pos < length line" and "from \<le> length line"
  shows "pos < stop \<and> stop \<le> length line"
  using assms by (auto simp: stringRun_def Let_def test_at_def split: if_splits)

lemma stringStart_bounds:
  assumes "stringStart line pos at s = ((stop, st), s')" and "pos < length line" and "at < length line"
  shows "pos < stop \<and> stop \<le> length line"
  using assms stringRun_bounds [of line pos "at + 1"] unfolding stringStart_def by fastforce

lemma identifier_token_bounds:
  assumes "identifier_token line pos s = ((stop, st), s')" and "pos < length line"
  shows "pos < stop \<and> stop \<le> length line"
proof -
  have "stop = run_end WORD line (pos + 1)"
    using assms(1) by (auto simp: identifier_token_def Let_def split: if_splits option.splits)
  then show ?thesis using assms(2) by simp
qed

lemma punctuation_bounds:
  assumes "punctuation line pos (at_opt line pos) s = ((stop, st), s')" and "pos < length line"
  shows "pos < stop \<and> stop \<le> length line"
proof -
  have "Suc pos < length line" if "at_opt line (Suc pos) = at_opt line pos"
    using that assms(2) by (simp add: at_opt_def split: if_splits)
  then have "stop = pos + 1 \<or> stop = pos + 2 \<and> pos + 1 < length line"
    using assms
    by (auto simp: punctuation_def open_brace_def close_brace_def close_paren_def semicolon_def
        colon_def Let_def at_opt_Some split: if_splits prod.splits dest: char_is_less)
  with assms(2) show ?thesis by auto
qed

lemma pathToken_bounds:
  assumes "pathToken line pos s = ((stop, st), s')" and "pos < length line"
  shows "pos < stop \<and> stop \<le> length line"
  using assms path_end_ge [of "pos + 1" line] path_end_le [of "pos + 1" line]
  by (auto simp: pathToken_def Let_def)

lemma blockComment_bounds:
  assumes "blockComment line pos s from = ((stop, st), s')" and "pos < length line" and "pos \<le> from"
  shows "pos < stop \<and> stop \<le> length line"
  using assms comment_close_bounds [of line "from"]
  by (fastforce simp: blockComment_def split: option.splits)

lemma wildcard_bounds:
  assumes "wildcard line pos s = ((stop, st), s')" and "pos < length line"
  shows "pos < stop \<and> stop \<le> length line"
proof -
  define w where "w = run_end WORD line (pos + 1)"
  have "pos < w" "w \<le> length line" "starts_at line w (js ''=**'') \<Longrightarrow> w + 3 \<le> length line"
    using assms(2) starts_at_le [of line w "js ''=**''"] by (auto simp: w_def)
  then show ?thesis
    using assms(1) unfolding wildcard_def w_def [symmetric] Let_def
    by (auto split: if_splits dest: char_is_less)
qed

lemma scan_plain_bounds:
  assumes "scan_plain line pos (at_opt line pos) s = ((stop, st), s')" and "pos < length line"
  shows "pos < stop \<and> stop \<le> length line"
  using assms
  by (auto simp: scan_plain_def split: if_splits option.splits
      dest: char_is_less stringStart_bounds identifier_token_bounds punctuation_bounds pathToken_bounds
        blockComment_bounds NUMBER_bounds)

lemma scan_code_bounds:
  assumes "scan_code line pos s = ((stop, st), s')" and "pos < length line"
  shows "pos < stop \<and> stop \<le> length line"
  using assms
  by (auto simp: scan_code_def Let_def split: if_splits
      dest: char_is_less wildcard_bounds pathToken_bounds scan_plain_bounds)

lemma scanToken_bounds:
  assumes "scanToken line pos s = ((stop, st), s')" and "pos < length line"
  shows "pos < stop \<and> stop \<le> length line"
  using assms ESCAPE_bounds [of pos line]
  by (auto simp: scanToken_def stringBody_def Let_def split: if_splits
      dest: blockComment_bounds stringRun_bounds scan_code_bounds)

section \<open>Reading a whole ruleset\<close>

record rules_token =
  from_of :: nat
  to_of :: nat
  style_of :: style
  text_of :: jstring
  after :: scan_state

text \<open>
  \<open>lex\<close>: the loop over lines and the loop over one line's tokens as one recursion, the inner one
  first. A line is the text from \<open>lineStart\<close> to the next newline.
\<close>

abbreviation NEWLINE :: nat where "NEWLINE \<equiv> 10"

definition line_end :: "jstring \<Rightarrow> nat \<Rightarrow> nat" where
  "line_end text lineStart = run_end (\<lambda>c. c \<noteq> NEWLINE) text lineStart"

function lex_loop :: "jstring \<Rightarrow> nat \<Rightarrow> nat \<Rightarrow> scan_state \<Rightarrow> rules_token list" where
  "lex_loop text lineStart pos state =
     (let lineEnd = line_end text lineStart; line = slice text lineStart lineEnd in
      if pos < length line
      then (case scanToken line pos state of ((stop, found), state') \<Rightarrow>
              (case found of
                 None \<Rightarrow> []
               | Some kind \<Rightarrow> [\<lparr>from_of = lineStart + pos, to_of = lineStart + stop, style_of = kind,
                    text_of = slice line pos stop, after = state'\<rparr>])
              @ lex_loop text lineStart stop state')
      else if lineEnd < length text then lex_loop text (lineEnd + 1) 0 state
      else [])"
  by auto
termination
proof (relation "measures [\<lambda>(text, lineStart, pos, state). length text - lineStart,
    \<lambda>(text, lineStart, pos, state). length text - pos]", goal_cases)
  case 2
  then show ?case by (auto dest!: scanToken_bounds [OF sym])
next
  case (3 doc lineStart pos state lineEnd line)
  have "lineStart \<le> line_end doc lineStart" by (simp add: line_end_def)
  with 3 show ?case by auto
qed simp

declare lex_loop.simps [simp del]

definition lex :: "jstring \<Rightarrow> rules_token list" where
  "lex text = lex_loop text 0 0 initialState"

text \<open>The loop's step, for the contract of \<^const>\<open>forward_scanner\<close>.\<close>

type_synonym lex_config = "jstring \<times> nat \<times> nat \<times> scan_state"

fun lex_scan :: "lex_config \<Rightarrow> (rules_token option \<times> lex_config) option" where
  "lex_scan (text, lineStart, pos, state) =
     (let lineEnd = line_end text lineStart; line = slice text lineStart lineEnd in
      if pos < length line
      then (case scanToken line pos state of ((stop, found), state') \<Rightarrow>
              Some (map_option (\<lambda>kind. \<lparr>from_of = lineStart + pos, to_of = lineStart + stop,
                      style_of = kind, text_of = slice line pos stop, after = state'\<rparr>) found,
                    (text, lineStart, stop, state')))
      else if lineEnd < length text then Some (None, (text, lineEnd + 1, 0, state))
      else None)"

fun lex_valid :: "lex_config \<Rightarrow> bool" where
  "lex_valid (text, lineStart, pos, state) \<longleftrightarrow>
     lineStart + pos \<le> line_end text lineStart \<and> line_end text lineStart \<le> length text"

definition rules_span :: "rules_token \<Rightarrow> nat \<times> nat" where
  "rules_span t = (from_of t, to_of t)"

lemma styled [simp]:
  "snd (fst (blockComment line pos s from)) \<noteq> None"
  "snd (fst (stringRun line pos from s)) \<noteq> None"
  "snd (fst (stringBody line pos s)) \<noteq> None"
  "snd (fst (stringStart line pos at s)) \<noteq> None"
  "snd (fst (pathToken line pos s)) \<noteq> None"
  "snd (fst (wildcard line pos s)) \<noteq> None"
  "snd (fst (identifier_token line pos s)) \<noteq> None"
  "snd (fst (open_brace pos s)) \<noteq> None"
  "snd (fst (close_brace pos s)) \<noteq> None"
  "snd (fst (close_paren pos s)) \<noteq> None"
  "snd (fst (semicolon pos s)) \<noteq> None"
  "snd (fst (colon pos s)) \<noteq> None"
  by (simp_all add: blockComment_def stringRun_def stringStart_def stringBody_def pathToken_def
      wildcard_def identifier_token_def open_brace_def close_brace_def close_paren_def
      semicolon_def colon_def Let_def split: option.splits prod.splits)

lemma punctuation_styled [simp]: "snd (fst (punctuation line pos c s)) \<noteq> None"
  by (simp add: punctuation_def Let_def del: not_None_eq)

lemma scan_plain_styled [simp]: "snd (fst (scan_plain line pos c s)) \<noteq> None"
  by (simp add: scan_plain_def del: not_None_eq)

text \<open>Only white space has no kind.\<close>

lemma scanToken_blank:
  assumes "scanToken line pos s = ((stop, None), s')" and "pos \<le> i" and "i < stop"
  shows "SPACE (line ! i)"
proof -
  define s1 where "s1 = (if pos = 0 then s\<lparr>quote := [], path := 0\<rparr> else s)"
  have none: "snd (fst (scanToken line pos s)) = None" using assms(1) by simp
  then have code: "scanToken line pos s = scan_code line pos s1"
    unfolding scanToken_def s1_def [symmetric] Let_def by (simp del: not_None_eq split: if_splits)
  with none have "test_at SPACE line pos"
    by (simp add: scan_code_def Let_def del: not_None_eq split: if_splits)
  moreover from this have "stop = run_end SPACE line (pos + 1)"
    using assms(1) by (simp add: code scan_code_def)
  ultimately show ?thesis
    using assms(2,3) run_end_inside [of "pos + 1" i SPACE line]
    by (cases "i = pos") (auto simp: test_at_def)
qed

lemma line_end_ge: "lineStart \<le> line_end text lineStart"
  by (simp add: line_end_def)

lemma line_end_le: "lineStart \<le> length text \<Longrightarrow> line_end text lineStart \<le> length text"
  by (simp add: line_end_def)

lemma nth_slice: "i < j - from \<Longrightarrow> from + i < length xs \<Longrightarrow> slice xs from j ! i = xs ! (from + i)"
  by (simp add: slice_def)

text \<open>A step, case by case: a token of the line, or the newline to the next.\<close>

lemma lex_scanE:
  assumes "lex_scan (doc, lineStart, pos, state) = Some (t, c')"
  obtains (inline) stop found state' where
      "pos < length (slice doc lineStart (line_end doc lineStart))"
      "scanToken (slice doc lineStart (line_end doc lineStart)) pos state = ((stop, found), state')"
      "t = map_option (\<lambda>kind. \<lparr>from_of = lineStart + pos, to_of = lineStart + stop, style_of = kind,
         text_of = slice (slice doc lineStart (line_end doc lineStart)) pos stop, after = state'\<rparr>) found"
      "c' = (doc, lineStart, stop, state')"
  | (newline) "length (slice doc lineStart (line_end doc lineStart)) \<le> pos"
      "line_end doc lineStart < length doc" "t = None" "c' = (doc, line_end doc lineStart + 1, 0, state)"
  using assms by (auto simp: Let_def split: if_splits prod.splits)

lemma line_length:
  "lex_valid (doc, lineStart, pos, state) \<Longrightarrow>
   length (slice doc lineStart (line_end doc lineStart)) = line_end doc lineStart - lineStart"
  by auto

lemma lex_scan_keeps:
  assumes "lex_valid (doc, lineStart, pos, state)" and "lex_scan (doc, lineStart, pos, state) = Some (t, c')"
  shows "lex_valid c' \<and> fst c' = doc \<and> lineStart + pos < fst (snd c') + fst (snd (snd c'))"
  using assms(2)
proof (cases rule: lex_scanE)
  case (inline stop found state')
  with scanToken_bounds [OF inline(2,1)] line_length [OF assms(1)] assms(1) show ?thesis by auto
next
  case newline
  with line_length [OF assms(1)] assms(1) line_end_ge [of "line_end doc lineStart + 1" doc]
    line_end_le [of "line_end doc lineStart + 1" doc] show ?thesis by auto
qed

lemma lex_scan_span:
  assumes "lex_scan (doc, lineStart, pos, state) = Some (Some p, c')"
  shows "fst (rules_span p) = lineStart + pos \<and> fst (rules_span p) < snd (rules_span p) \<and>
    snd (rules_span p) = fst (snd c') + fst (snd (snd c'))"
  using assms
proof (cases rule: lex_scanE)
  case (inline stop found state')
  with scanToken_bounds [OF inline(2,1)] show ?thesis by (cases found) (auto simp: rules_span_def)
qed simp

lemma lex_scan_blank:
  assumes "lex_valid (doc, lineStart, pos, state)" and "lex_scan (doc, lineStart, pos, state) = Some (None, c')"
    and "lineStart + pos \<le> i" and "i < fst (snd c') + fst (snd (snd c'))"
  shows "SPACE (doc ! i)"
  using assms(2)
proof (cases rule: lex_scanE)
  case (inline stop found state')
  then have none: "scanToken (slice doc lineStart (line_end doc lineStart)) pos state = ((stop, None), state')"
    by simp
  have "SPACE (slice doc lineStart (line_end doc lineStart) ! (i - lineStart))"
    using scanToken_blank [OF none] assms(3,4) inline(4) by auto
  moreover have "i - lineStart < line_end doc lineStart - lineStart" "i < length doc" "lineStart \<le> i"
    using scanToken_bounds [OF none inline(1)] line_length [OF assms(1)] assms inline(4) by auto
  ultimately show ?thesis by (simp add: nth_slice)
next
  case newline
  with line_length [OF assms(1)] assms have "i = line_end doc lineStart" by auto
  with newline(2) run_end_stop [of "\<lambda>c. c \<noteq> NEWLINE" doc lineStart] show ?thesis
    by (simp add: line_end_def SPACE_def)
qed

interpretation rules: forward_scanner lex_scan
  "\<lambda>(text, lineStart, pos, state). lex_loop text lineStart pos state" lex_valid
  "\<lambda>(text, lineStart, pos, state). lineStart + pos" "\<lambda>(text, _). length text"
  "\<lambda>(text, _) i. SPACE (text ! i)" rules_span
proof (unfold_locales, goal_cases)
  case (1 c)
  obtain doc lineStart pos state where c: "c = (doc, lineStart, pos, state)" by (cases c)
  show ?case unfolding c
    by (simp add: lex_loop.simps [of doc lineStart pos state] Let_def split: option.splits prod.splits)
next
  case (2 c)
  then show ?case by (cases c) auto
next
  case (3 c t c')
  obtain doc lineStart pos state where c: "c = (doc, lineStart, pos, state)" by (cases c)
  show ?case using lex_scan_keeps [of doc lineStart pos state t c'] 3 unfolding c by (cases c') auto
next
  case (4 c t c')
  obtain doc lineStart pos state where c: "c = (doc, lineStart, pos, state)" by (cases c)
  show ?case using lex_scan_keeps [of doc lineStart pos state t c'] 4 unfolding c by (cases c') auto
next
  case (5 c p c')
  obtain doc lineStart pos state where c: "c = (doc, lineStart, pos, state)" by (cases c)
  show ?case using lex_scan_span [of doc lineStart pos state p c'] 5 unfolding c by (cases c') auto
next
  case (6 c t c' i)
  obtain doc lineStart pos state where c: "c = (doc, lineStart, pos, state)" by (cases c)
  show ?case
  proof (cases t)
    case None
    with 6 lex_scan_blank [of doc lineStart pos state c' i] show ?thesis unfolding c by (cases c') auto
  next
    case (Some p)
    with 6 lex_scan_span [of doc lineStart pos state p c'] show ?thesis unfolding c by (cases c') auto
  qed
next
  case (7 c i)
  obtain doc lineStart pos state where c: "c = (doc, lineStart, pos, state)" by (cases c)
  with 7 line_length [of doc lineStart pos state] show ?case
    by (auto simp: Let_def split: if_splits prod.splits)
qed

end
