(* ===== verification/Rules_State.thy ===== *)
theory Rules_State
  imports Rules_Scan
begin

text \<open>
  The invariant of the rules scanner's states and what each token does to the bracket stack: the
  facts the outline and the indentation rest on.
\<close>

section \<open>The bracket stack and the state's invariant\<close>

definition pop_stack :: "mark list \<Rightarrow> mark list \<Rightarrow> mark list" where
  "pop_stack closers st =
     (case pop_search closers (rev st) of None \<Rightarrow> st | Some (_, below) \<Rightarrow> rev below)"

text \<open>What a token of each kind does to the stack: opening brackets push, closing ones pop.\<close>

definition moves_stack :: "style option \<Rightarrow> jstring \<Rightarrow> mark list \<Rightarrow> mark list \<Rightarrow> bool" where
  "moves_stack kind written st st' \<longleftrightarrow>
     (if kind = Some Brace
      then if written = js ''{'' then st' = st @ [BlockMark] \<or> st' = st @ [MapMark]
           else st' = pop_stack [BlockMark, MapMark] st
      else if kind = Some Paren
      then if written = js ''('' then st' = st @ [ParenMark]
           else st' = pop_stack [ParenMark, InterpolationMark] st
      else if kind = Some Interpolation
      then if written = js ''$('' then st' = st @ [InterpolationMark]
           else st' = pop_stack [ParenMark, InterpolationMark] st
      else if kind = Some SquareBracket
      then if written = js ''['' then st' = st @ [SquareMark] else st' = pop_stack [SquareMark] st
      else st' = st)"

definition scan_ok :: "scan_state \<Rightarrow> bool" where
  "scan_ok s \<longleftrightarrow> -1 \<le> statement s \<and> statement s \<le> int (length (stack s)) \<and> path s \<le> 2 \<and>
     (path s \<noteq> 0 \<longrightarrow> prev_of s = Operand) \<and> quote s \<in> {[], [34], [39]} \<and>
     (comment s \<longrightarrow> quote s = [])"

lemma scan_ok_initial: "scan_ok initialState"
  by (simp add: scan_ok_def initialState_def)

lemma pop_search_suffix: "pop_search closers ms = Some (m, below) \<Longrightarrow> length below < length ms"
  by (induction ms) (auto split: if_splits)

lemma popTo_facts:
  assumes "popTo s closers = (found, s')"
  shows "stack s' = pop_stack closers (stack s)" and "scan_ok s \<Longrightarrow> scan_ok s'"
    and "prev_of s' = prev_of s \<and> path s' = path s \<and> quote s' = quote s \<and> comment s' = comment s"
  using assms pop_search_suffix [of closers "rev (stack s)"]
  by (auto simp: popTo_def pop_stack_def scan_ok_def Let_def split: option.splits prod.splits if_splits)

text \<open>Every function a token is read by keeps both; the stack changes in \<open>punctuation\<close> and \<open>$(\<close> only.\<close>

definition keeps_state :: "scan_state \<Rightarrow> scan_state \<Rightarrow> bool" where
  "keeps_state s s' \<longleftrightarrow> stack s' = stack s \<and> (scan_ok s \<longrightarrow> scan_ok s')"

lemma keeps_refl [simp]: "keeps_state s s"
  by (simp add: keeps_state_def)

lemma keeps_trans: "keeps_state s t \<Longrightarrow> keeps_state t u \<Longrightarrow> keeps_state s u"
  by (simp add: keeps_state_def)

lemma char_is_slice: "char_is line i c \<Longrightarrow> slice line i (Suc i) = [c]"
  by (auto simp: char_is_def test_at_def slice_def take_Suc_conv_app_nth Cons_nth_drop_Suc [symmetric])

lemma blockComment_keeps:
  "blockComment line pos s from = ((stop, k), s') \<Longrightarrow> keeps_state s s' \<and> k = Some BlockComment"
  by (auto simp: blockComment_def keeps_state_def scan_ok_def split: option.splits)

lemma stringRun_keeps:
  "stringRun line pos from s = ((stop, k), s') \<Longrightarrow> keeps_state s s' \<and> k = Some StringText"
  by (auto simp: stringRun_def keeps_state_def scan_ok_def Let_def split: if_splits)

lemma stringStart_keeps:
  assumes "stringStart line pos at s = ((stop, k), s')" and "char_is line at 34 \<or> char_is line at 39"
    and "path s = 0" "\<not> comment s"
  shows "keeps_state s s' \<and> k = Some StringText"
proof -
  let ?s = "s\<lparr>quote := slice line at (at + 1), prev_of := Operand\<rparr>"
  have "keeps_state s ?s"
    using assms char_is_slice [of line "at"] by (auto simp: keeps_state_def scan_ok_def)
  then show ?thesis
    using stringRun_keeps [OF assms(1) [unfolded stringStart_def]] by (simp add: keeps_state_def)
qed

lemma pathToken_keeps:
  "pathToken line pos s = ((stop, k), s') \<Longrightarrow> keeps_state s s' \<and> k = Some Path"
  by (auto simp: pathToken_def keeps_state_def scan_ok_def Let_def)

lemma wildcard_keeps:
  "wildcard line pos s = ((stop, k), s') \<Longrightarrow> keeps_state s s' \<and> k = Some WildcardText"
  by (auto simp: wildcard_def keeps_state_def scan_ok_def Let_def split: if_splits)

lemma applyKeyword_keeps:
  "path s = 0 \<Longrightarrow> keeps_state s (applyKeyword word s)"
  by (simp add: applyKeyword_def keeps_state_def scan_ok_def Let_def)

lemma KEYWORDS_styles:
  "map_of KEYWORDS word = Some k \<Longrightarrow>
   k \<in> {Keyword, ControlKeyword, DefinitionKeyword, OperatorKeyword}"
  by (drule map_of_SomeD) (auto simp: KEYWORDS_def)

definition bracket_styles :: "style list" where
  "bracket_styles = [Brace, Paren, Interpolation, SquareBracket]"

lemma identifier_token_keeps:
  assumes "identifier_token line pos s = ((stop, k), s')" and "path s = 0"
  shows "keeps_state s s' \<and> k \<notin> Some ` set bracket_styles"
proof -
  have b: "keeps_state s (s\<lparr>prev_of := Operand\<rparr>)" "keeps_state s (s\<lparr>prev_of := Operand, binding := False\<rparr>)"
    using assms(2) by (simp_all add: keeps_state_def scan_ok_def)
  have a: "keeps_state s (applyKeyword word (s\<lparr>prev_of := Operand\<rparr>))" for word
    using assms(2) by (intro keeps_trans [OF b(1)] applyKeyword_keeps) simp
  show ?thesis
    using assms(1) KEYWORDS_styles
    by (auto simp: identifier_token_def Let_def bracket_styles_def a b split: if_splits option.splits)
qed

lemma semicolon_keeps:
  "semicolon pos s = ((stop, k), s') \<Longrightarrow> path s = 0 \<Longrightarrow> keeps_state s s' \<and> k = Some Separator"
  by (cases "statement s \<ge> int (length (stack s))")
    (auto simp: semicolon_def keeps_state_def scan_ok_def Let_def)

lemma colon_keeps:
  "colon pos s = ((stop, k), s') \<Longrightarrow> path s = 0 \<Longrightarrow> keeps_state s s' \<and> k \<in> {Some Punctuation, Some Operator}"
  by (auto simp: colon_def keeps_state_def scan_ok_def Let_def split: if_splits)

lemma keeps_moves:
  "keeps_state s s' \<Longrightarrow> scan_ok s \<Longrightarrow> k \<notin> Some ` set bracket_styles \<Longrightarrow>
   moves_stack k written (stack s) (stack s') \<and> scan_ok s'"
  by (auto simp: keeps_state_def moves_stack_def bracket_styles_def)

lemma punctuation_moves:
  assumes "punctuation line pos (at_opt line pos) s = ((stop, k), s')"
    and "pos < length line" and "path s = 0" and "scan_ok s"
  shows "moves_stack k (slice line pos stop) (stack s) (stack s') \<and> scan_ok s'"
proof -
  have one: "slice line pos (Suc pos) = [c]" if "at_opt line pos = Some c" for c
    using that char_is_slice [of line pos c] by (simp add: char_is_def test_at_def at_opt_Some)
  obtain c where c: "at_opt line pos = Some c" using assms(2) by (auto simp: at_opt_def)
  consider "c = 123" | "c = 125" | "c = 40" | "c = 41" | "c = 91" | "c = 93"
    | (plain) "c \<notin> {123, 125, 40, 41, 91, 93}" by auto
  then show ?thesis
  proof cases
    case 1
    with assms one [OF c] show ?thesis
      by (cases "header_of s = NoHeader \<longrightarrow> prev_of s = Start \<and> (stack s = [] \<or> last (stack s) = BlockMark)")
        (auto simp: c punctuation_def open_brace_def moves_stack_def scan_ok_def Let_def)
  next
    case 2
    obtain found t where t: "popTo s [BlockMark, MapMark] = (found, t)" by fastforce
    from 2 assms one [OF c] popTo_facts [OF t] show ?thesis
      by (cases "found = Some MapMark")
        (auto simp: c punctuation_def close_brace_def moves_stack_def scan_ok_def Let_def t)
  next
    case 3
    with assms one [OF c] show ?thesis
      by (auto simp: c punctuation_def moves_stack_def scan_ok_def Let_def)
  next
    case 4
    obtain found t where t: "popTo s [ParenMark, InterpolationMark] = (found, t)" by fastforce
    from 4 assms one [OF c] popTo_facts [OF t] show ?thesis
      by (auto simp: c punctuation_def close_paren_def moves_stack_def scan_ok_def Let_def t split: if_splits)
  next
    case 5
    with assms one [OF c] show ?thesis
      by (auto simp: c punctuation_def moves_stack_def scan_ok_def Let_def)
  next
    case 6
    obtain found t where t: "popTo s [SquareMark] = (found, t)" by fastforce
    from 6 assms one [OF c] popTo_facts [OF t] show ?thesis
      by (auto simp: c punctuation_def moves_stack_def scan_ok_def Let_def t)
  next
    case plain
    have up: "keeps_state s (s\<lparr>prev_of := p\<rparr>)" for p
      using assms(3) by (simp add: keeps_state_def scan_ok_def)
    from plain assms(1) have "keeps_state s s' \<and> k \<notin> Some ` set bracket_styles"
      using semicolon_keeps [of pos s stop k s'] colon_keeps [of pos s stop k s'] assms(3)
      by (auto simp: c punctuation_def Let_def up bracket_styles_def split: if_splits)
    with keeps_moves assms(4) show ?thesis by blast
  qed
qed

lemma scan_plain_moves:
  assumes "scan_plain line pos (at_opt line pos) s = ((stop, k), s')"
    and "pos < length line" and "path s = 0" and "scan_ok s" and "\<not> comment s"
    and "quote s = []"
  shows "moves_stack k (slice line pos stop) (stack s) (stack s') \<and> scan_ok s'"
proof -
  have quoted: "char_is line pos c" if "at_opt line pos = Some c" for c
    using that by (simp add: char_is_def test_at_def at_opt_Some)
  have up: "keeps_state s (s\<lparr>comment := True\<rparr>)" "keeps_state s (s\<lparr>prev_of := p\<rparr>)" for p
    using assms(3,6) by (simp_all add: keeps_state_def scan_ok_def)
  have "keeps_state s s' \<and> k \<notin> Some ` set bracket_styles \<or>
    punctuation line pos (at_opt line pos) s = ((stop, k), s')"
    using assms(1,3,5) up
    by (auto simp: scan_plain_def bracket_styles_def quoted split: if_splits
        dest: blockComment_keeps stringStart_keeps pathToken_keeps identifier_token_keeps
        intro: keeps_trans)
  then show ?thesis
    using keeps_moves [of s s'] punctuation_moves [OF _ assms(2-4)] assms(4) by blast
qed

lemma scan_code_moves:
  assumes "scan_code line pos s = ((stop, k), s')" and "pos < length line" and "scan_ok s"
    and "\<not> comment s" and "quote s = []"
  shows "moves_stack k (slice line pos stop) (stack s) (stack s') \<and> scan_ok s'"
proof -
  have up: "keeps_state s (s\<lparr>path := 0\<rparr>)" using assms(3) by (simp add: keeps_state_def scan_ok_def)
  consider (blank) "test_at SPACE line pos"
    | (interpolation) "\<not> test_at SPACE line pos" "path s = 1" "at_opt line pos = Some 36" "char_is line (pos + 1) 40"
    | (wild) "wildcard line pos s = ((stop, k), s')"
    | (in_path) "pathToken line pos s = ((stop, k), s')"
    | (plain) "scan_plain line pos (at_opt line pos) (s\<lparr>path := 0\<rparr>) = ((stop, k), s')"
    | (same) "scan_plain line pos (at_opt line pos) s = ((stop, k), s')" "path s = 0"
    using assms(1,3) by (auto simp: scan_code_def scan_ok_def Let_def split: if_splits)
  then show ?thesis
  proof cases
    case blank
    with assms(1) keeps_moves [OF up assms(3), of None] show ?thesis by (auto simp: scan_code_def)
  next
    case interpolation
    from interpolation(3,4) have "slice line pos (pos + 2) = [36, 40]"
      by (auto simp: char_is_def test_at_def at_opt_Some slice_def numeral_2_eq_2
          Cons_nth_drop_Suc [symmetric])
    with interpolation assms(1,3) show ?thesis
      by (auto simp: scan_code_def moves_stack_def scan_ok_def Let_def)
  next
    case wild
    from wildcard_keeps [OF this] assms(3) show ?thesis by (intro keeps_moves) (auto simp: bracket_styles_def)
  next
    case in_path
    from pathToken_keeps [OF this] assms(3) show ?thesis by (intro keeps_moves) (auto simp: bracket_styles_def)
  next
    case plain
    from scan_plain_moves [OF this] assms up show ?thesis by (simp add: keeps_state_def)
  next
    case same
    from scan_plain_moves [OF this(1)] assms same(2) show ?thesis by simp
  qed
qed

lemma scanToken_moves:
  assumes "scanToken line pos s = ((stop, k), s')" and "pos < length line" and "scan_ok s"
  shows "moves_stack k (slice line pos stop) (stack s) (stack s') \<and> scan_ok s'"
proof -
  define t where "t = (if pos = 0 then s\<lparr>quote := [], path := 0\<rparr> else s)"
  have t: "stack t = stack s" "scan_ok t"
    using assms(3) by (auto simp: t_def scan_ok_def)
  consider (comment) "blockComment line pos t pos = ((stop, k), s')"
    | (body) "stringBody line pos t = ((stop, k), s')"
    | (code) "scan_code line pos t = ((stop, k), s')" "\<not> comment t" "quote t = []"
    using assms(1) unfolding scanToken_def t_def [symmetric] Let_def by (auto split: if_splits)
  then show ?thesis
  proof cases
    case comment
    from blockComment_keeps [OF this] t keeps_moves [of t s' k] show ?thesis
      by (auto simp: bracket_styles_def)
  next
    case body
    then have "keeps_state t s' \<and> k \<in> {Some Escape, Some StringText}"
      using stringRun_keeps [of line pos pos t stop k s'] by (auto simp: stringBody_def split: if_splits)
    with t keeps_moves [of t s' k] show ?thesis by (auto simp: bracket_styles_def)
  next
    case code
    from scan_code_moves [OF code(1) assms(2) t(2) code(2,3)] t show ?thesis by simp
  qed
qed

end
