(* ===== verification/Rules_Lex.thy ===== *)
theory Rules_Lex
  imports Rules_State
begin

text \<open>
  The rules scanner over whole texts: the states it reaches, the bracket stack along the tokens of
  \<open>lex\<close>, and reading a line at a time, as the editor does. The properties of \<open>scan.ts\<close> stand at the end.
\<close>

section \<open>The states the scanner reaches\<close>

inductive scanned :: "scan_state \<Rightarrow> bool" where
  initial: "scanned initialState"
| token: "scanned s \<Longrightarrow> pos < length line \<Longrightarrow> scanToken line pos s = (result, s') \<Longrightarrow> scanned s'"

lemma scanned_ok: "scanned s \<Longrightarrow> scan_ok s"
proof (induction rule: scanned.induct)
  case (token s pos line result s')
  then show ?case by (cases result) (auto dest: scanToken_moves)
qed (rule scan_ok_initial)

text \<open>The tokens of a ruleset, each with the stack it finds and the stack it leaves.\<close>

fun stack_chain :: "mark list \<Rightarrow> rules_token list \<Rightarrow> bool" where
  "stack_chain st [] = True"
| "stack_chain st (t # ts) \<longleftrightarrow>
     moves_stack (Some (style_of t)) (text_of t) st (stack (after t)) \<and> scanned (after t) \<and>
     stack_chain (stack (after t)) ts"

lemma lex_loop_chain:
  assumes "lex_valid c" and "scanned (snd (snd (snd c)))"
  shows "stack_chain (stack (snd (snd (snd c))))
    (case c of (text, lineStart, pos, state) \<Rightarrow> lex_loop text lineStart pos state)"
  using assms
proof (induction c rule: rules.scan_induct)
  case (stop c)
  then show ?case by (subst rules.pieces_step) simp
next
  case (step c t c')
  obtain doc lineStart pos state where c: "c = (doc, lineStart, pos, state)" by (cases c)
  have "lex_scan (doc, lineStart, pos, state) = Some (t, c')" using step(2) c by simp
  then show ?case
  proof (cases rule: lex_scanE)
    case (inline stop found state')
    have reach: "scanned state'"
      using scanned.token [OF _ inline(1,2)] step.prems c by simp
    have moves: "moves_stack found (slice (slice doc lineStart (line_end doc lineStart)) pos stop)
        (stack state) (stack state')"
      using scanToken_moves [OF inline(2,1)] scanned_ok step.prems c by simp
    then have "stack_chain (stack state) (case t of None \<Rightarrow> [] | Some p \<Rightarrow> [p])" 
      "found = None \<Longrightarrow> stack state' = stack state"
      using inline(3) reach by (auto simp: moves_stack_def split: option.splits)
    then show ?thesis
      using step.IH reach moves inline(3,4) step(2)
      by (cases found) (auto simp: c rules.pieces_step [of "(doc, lineStart, pos, state)", simplified])
  next
    case newline
    then show ?thesis
      using step.IH step.prems step(2)
      by (simp add: c rules.pieces_step [of "(doc, lineStart, pos, state)", simplified])
  qed
qed

text \<open>A token's text is the ruleset's text at its place.\<close>

lemma slice_slice: "i \<le> j \<Longrightarrow> j \<le> length (slice xs a b) \<Longrightarrow> slice (slice xs a b) i j = slice xs (a + i) (a + j)"
proof -
  assume "i \<le> j" and "j \<le> length (slice xs a b)"
  then have "min (j - i) (b - (a + i)) = j - i" by auto
  then show ?thesis by (simp add: slice_def drop_take add.commute)
qed

lemma lex_loop_text:
  assumes "lex_valid c" and "t \<in> set (case c of (text, lineStart, pos, state) \<Rightarrow> lex_loop text lineStart pos state)"
  shows "text_of t = slice (fst c) (from_of t) (to_of t)"
  using assms
proof (induction c rule: rules.scan_induct)
  case (stop c)
  then show ?case using rules.pieces_step [of c] by simp
next
  case (step c p c')
  obtain doc lineStart pos state where c: "c = (doc, lineStart, pos, state)" by (cases c)
  have scan: "lex_scan (doc, lineStart, pos, state) = Some (p, c')" using step(2) c by simp
  from step(2) step.prems rules.pieces_step [of c] consider "p = Some t"
    | "t \<in> set (case c' of (text, lineStart, pos, state) \<Rightarrow> lex_loop text lineStart pos state)"
    by (auto split: option.splits)
  then show ?case
  proof cases
    case 1
    from scan show ?thesis
    proof (cases rule: lex_scanE)
      case (inline stop found state')
      with 1 scanToken_bounds [OF inline(2,1)] show ?thesis by (auto simp: c slice_slice)
    qed (use 1 in simp)
  next
    case 2
    with step.IH lex_scan_keeps [OF _ scan] step(1) c show ?thesis by simp
  qed
qed

section \<open>Reading a line at a time\<close>

text \<open>
  The editor's highlighter (\<open>rulesStreamLanguage\<close> in \<open>language.ts\<close>): its \<open>token\<close> is called from the
  start of a line until the line's end, and the state it leaves there is where the next line is
  read from. Places are counted from the start of the line.
\<close>

function highlight_line :: "jstring \<Rightarrow> nat \<Rightarrow> scan_state \<Rightarrow> rules_token list \<times> scan_state" where
  "highlight_line line pos state =
     (if pos < length line
      then case scanToken line pos state of ((stop, found), state') \<Rightarrow>
             case highlight_line line stop state' of (tokens, final) \<Rightarrow>
               ((case found of
                   None \<Rightarrow> tokens
                 | Some kind \<Rightarrow> \<lparr>from_of = pos, to_of = stop, style_of = kind, text_of = slice line pos stop,
                     after = state'\<rparr> # tokens),
                final)
      else ([], state))"
  by pat_completeness auto
termination
  by (relation "measure (\<lambda>(line, pos, state). length line - pos)") (auto dest!: scanToken_bounds [OF sym])

declare highlight_line.simps [simp del]

definition shift_token :: "nat \<Rightarrow> rules_token \<Rightarrow> rules_token" where
  "shift_token n t = t\<lparr>from_of := n + from_of t, to_of := n + to_of t\<rparr>"

fun highlight :: "nat \<Rightarrow> scan_state \<Rightarrow> jstring list \<Rightarrow> rules_token list" where
  "highlight start state [] = []"
| "highlight start state (line # lines) =
     (case highlight_line line 0 state of (tokens, final) \<Rightarrow>
        map (shift_token start) tokens @ highlight (start + length line + 1) final lines)"

lemma lex_loop_line:
  assumes "line = slice doc lineStart (line_end doc lineStart)"
  shows "lex_loop doc lineStart pos state =
    map (shift_token lineStart) (fst (highlight_line line pos state)) @
    (if line_end doc lineStart < length doc
     then lex_loop doc (line_end doc lineStart + 1) 0 (snd (highlight_line line pos state)) else [])"
  using assms
proof (induction line pos state rule: highlight_line.induct)
  case (1 line pos state)
  note loop = lex_loop.simps [of doc lineStart pos state, unfolded Let_def, folded "1.prems"]
  note eqs = loop highlight_line.simps [of line pos state]
  show ?case
  proof (cases "pos < length line")
    case True
    obtain stop found state' where r: "scanToken line pos state = ((stop, found), state')" by (metis surj_pair)
    from "1.IH" [OF True r [symmetric] refl "1.prems"] True r show ?thesis
      by (simp add: eqs shift_token_def split: option.split prod.split)
  qed (simp add: eqs)
qed

lemma split_line:
  "split_on NEWLINE (drop lineStart doc) = slice doc lineStart (line_end doc lineStart) #
     (if line_end doc lineStart < length doc then split_on NEWLINE (drop (line_end doc lineStart + 1) doc) else [])"
proof -
  let ?d = "drop lineStart doc" and ?e = "line_end doc lineStart"
  let ?w = "takeWhile (\<lambda>c. c \<noteq> NEWLINE) ?d"
  have e: "?e = lineStart + length ?w" by (simp add: line_end_def run_end_def)
  have w: "slice doc lineStart ?e = ?w" by (simp add: slice_def e takeWhile_eq_take [symmetric])
  have free: "NEWLINE \<notin> set ?w" by (auto dest: set_takeWhileD)
  show ?thesis
  proof (cases "?e < length doc")
    case True
    then have n: "length ?w < length ?d" by (simp add: e)
    then have "?d ! length ?w = NEWLINE" using nth_length_takeWhile by blast
    then have "?d = ?w @ NEWLINE # drop (?e + 1) doc"
      using id_take_nth_drop [OF n] takeWhile_eq_take [of "\<lambda>c. c \<noteq> NEWLINE" ?d] by (simp add: e add.commute)
    then show ?thesis using True split_on_piece [OF free] w by metis
  next
    case False
    then have "length ?d \<le> length ?w" by (simp add: e)
    then have "?w = ?d" by (metis le_antisym length_takeWhile_le takeWhile_eq_all_conv takeWhile_eq_take take_all)
    with False split_on_whole [OF free] w show ?thesis by metis
  qed
qed

lemma lex_loop_highlight:
  "lex_loop doc lineStart 0 state = highlight lineStart state (split_on NEWLINE (drop lineStart doc))"
proof (induction "length doc - lineStart" arbitrary: lineStart state rule: less_induct)
  case less
  let ?e = "line_end doc lineStart" and ?line = "slice doc lineStart (line_end doc lineStart)"
  obtain tokens final where h: "highlight_line ?line 0 state = (tokens, final)" by fastforce
  show ?case
  proof (cases "?e < length doc")
    case True
    have le: "lineStart \<le> ?e" by (simp add: line_end_def)
    then have "lex_loop doc (?e + 1) 0 final = highlight (?e + 1) final (split_on NEWLINE (drop (?e + 1) doc))"
      using True by (intro less.hyps) simp
    moreover have "lineStart + length ?line + 1 = ?e + 1" using True le by simp
    ultimately show ?thesis
      using True h unfolding lex_loop_line [OF refl, of doc lineStart 0] split_line [of lineStart] by simp
  next
    case False
    then show ?thesis
      using h unfolding lex_loop_line [OF refl, of doc lineStart 0] split_line [of lineStart] by simp
  qed
qed

section \<open>Indentation\<close>

definition indentation :: "scan_state \<Rightarrow> jstring \<Rightarrow> nat \<Rightarrow> nat option" where
  "indentation state textAfter unit =
     (if comment state then None
      else let closing = run_end (\<lambda>c. c = 125 \<or> c = 93 \<or> c = 41) textAfter 0;
               depth = length (stack state);
               level = depth - min closing depth
           in Some ((if closing = 0 \<and> statement state \<ge> 0 \<and> statement state = int depth
                     then level + 1 else level) * unit))"

section \<open>Properties\<close>

text \<open>
  C22. The scanner never fails and always moves forward: in every state it reaches, a token begun
  inside a line ends past where it began and within the line, so the loops over a line end. The
  state it leaves keeps the scanner's rules: a path is only being read after an operand, an
  unfinished statement began no deeper than the brackets now open, and the bracket stack changed
  exactly as the token's kind and text say.
\<close>

theorem scan_forward:
  assumes "scanned s" and "pos < length line"
  shows "case scanToken line pos s of ((stop, kind), s') \<Rightarrow>
    pos < stop \<and> stop \<le> length line \<and> scanned s' \<and>
    (path s' \<noteq> 0 \<longrightarrow> prev_of s' = Operand) \<and>
    - 1 \<le> statement s' \<and> statement s' \<le> int (length (stack s')) \<and>
    moves_stack kind (slice line pos stop) (stack s) (stack s')"
proof -
  obtain stop kind s' where r: "scanToken line pos s = ((stop, kind), s')" by (metis surj_pair)
  have "scan_ok s'" and "moves_stack kind (slice line pos stop) (stack s) (stack s')"
    using scanToken_moves [OF r assms(2) scanned_ok [OF assms(1)]] by auto
  then show ?thesis
    using scanToken_bounds [OF r assms(2)] scanned.token [OF assms(1,2) r] by (simp add: r scan_ok_def)
qed

theorem scan_forward_witness:
  "case scanToken (js ''match /users/{uid} {'') 0 initialState of ((stop, kind), s') \<Rightarrow>
    0 < stop \<and> stop \<le> length (js ''match /users/{uid} {'') \<and> scanned s' \<and>
    (path s' \<noteq> 0 \<longrightarrow> prev_of s' = Operand) \<and>
    - 1 \<le> statement s' \<and> statement s' \<le> int (length (stack s')) \<and>
    moves_stack kind (slice (js ''match /users/{uid} {'') 0 stop) (stack initialState) (stack s')"
  by (rule scan_forward [OF scanned.initial]) simp

text \<open>
  C23. The tokens of a ruleset, whatever its text: they stand in order, none empty, none
  overlapping, none past the end; each one's text is the ruleset's text at its place; and every
  character that is not white space is in one of them.
\<close>

theorem lex_cover:
  "spans_in 0 (length text) (map rules_span (lex text)) \<and>
   (\<forall>t\<in>set (lex text). text_of t = slice text (from_of t) (to_of t)) \<and>
   (\<forall>i<length text. \<not> SPACE (text ! i) \<longrightarrow> (\<exists>t\<in>set (lex text). from_of t \<le> i \<and> i < to_of t))"
proof -
  have v: "lex_valid (text, 0, 0, initialState)" using line_end_le [of 0 "text"] by simp
  show ?thesis
    using rules.pieces_in_order [OF v] rules.pieces_cover [OF v] lex_loop_text [OF v]
    by (auto simp: lex_def rules_span_def)
qed

theorem lex_cover_witness:
  "spans_in 0 (length (js ''a /b'')) (map rules_span (lex (js ''a /b''))) \<and>
   (\<exists>t\<in>set (lex (js ''a /b'')). from_of t \<le> 2 \<and> 2 < to_of t)"
proof -
  have "2 < length (js ''a /b'')" "\<not> SPACE (js ''a /b'' ! 2)" by code_simp+
  then show ?thesis using lex_cover [of "js ''a /b''"] by blast
qed


end
