(* ===== verification/Rules_Outline.thy ===== *)
theory Rules_Outline
  imports Rules_Lex
begin

text \<open>
  The shape of a ruleset, \<open>components/code-editor/rules/outline.ts\<close>, and the brace folding of
  \<open>language.ts\<close>. The source's bracket objects are the elements of one list, named by their place
  in it: \<open>parent\<close>, \<open>scope\<close> and \<open>body\<close> are such places, and so are the entries of the stack. The
  lemmas show that the outline keeps the scanner's own books of open brackets, that its brackets
  nest, and that the brackets it answers around a position are exactly those containing it.
\<close>

section \<open>Brackets\<close>

datatype bracket_kind =
    ServiceKind | MatchKind | FunctionKind | BlockKind | MapKind | ParenKind | SquareKind
  | InterpolationKind

record wildcard_info =
  w_name :: jstring
  recursive :: bool

record bracket =
  b_kind :: bracket_kind
  b_open :: nat
  b_start :: nat
  b_end :: "nat option"
  b_parent :: "nat option"
  b_path :: jstring
  b_wildcards :: "wildcard_info list"

record function_info =
  f_name :: jstring
  f_params :: "jstring list"
  f_at :: nat
  f_scope :: "nat option"
  f_body :: "nat option"

record let_binding =
  l_name :: jstring
  l_at :: nat
  l_scope :: "nat option"
  l_end :: "nat option"

record outline =
  tokens :: "rules_token list"
  code :: "rules_token list"
  brackets :: "bracket list"
  function_infos :: "function_info list"
  bindings :: "let_binding list"

definition BRACE_KINDS :: "bracket_kind list" where
  "BRACE_KINDS = [ServiceKind, MatchKind, FunctionKind, BlockKind, MapKind]"

definition BLOCK_KINDS :: "bracket_kind list" where
  "BLOCK_KINDS = [ServiceKind, MatchKind, FunctionKind, BlockKind]"

definition PAREN_KINDS :: "bracket_kind list" where
  "PAREN_KINDS = [ParenKind, InterpolationKind]"

definition SQUARE_KINDS :: "bracket_kind list" where
  "SQUARE_KINDS = [SquareKind]"

definition isBlock :: "bracket option \<Rightarrow> bool" where
  "isBlock b = (case b of None \<Rightarrow> False | Some x \<Rightarrow> b_kind x \<in> set BLOCK_KINDS)"

definition isBrace :: "bracket \<Rightarrow> bool" where
  "isBrace b \<longleftrightarrow> b_kind b \<in> set BRACE_KINDS"

text \<open>\<open>s.endsWith(t)\<close>.\<close>

definition ends_with :: "jstring \<Rightarrow> jstring \<Rightarrow> bool" where
  "ends_with s t \<longleftrightarrow> length t \<le> length s \<and> drop (length s - length t) s = t"

definition parseWildcard :: "jstring \<Rightarrow> wildcard_info" where
  "parseWildcard written =
     (let unopened = (case written of c # r \<Rightarrow> if c = 123 then r else written | [] \<Rightarrow> []);
          inner = (if unopened \<noteq> [] \<and> last unopened = 125 then butlast unopened else unopened);
          rest = ends_with inner (js ''=**'')
      in \<lparr>w_name = if rest then take (length inner - 3) inner else inner, recursive = rest\<rparr>)"

section \<open>Building the outline\<close>

datatype pending =
    PendingService
  | PendingMatch jstring "wildcard_info list"
  | PendingFunction jstring nat "jstring list"

record build_state =
  o_brackets :: "bracket list"
  o_functions :: "function_info list"
  o_bindings :: "let_binding list"
  o_stack :: "nat list"
  o_pending :: "pending option"
  o_binding :: "nat option"

definition start_build :: build_state where
  "start_build = \<lparr>o_brackets = [], o_functions = [], o_bindings = [], o_stack = [],
     o_pending = None, o_binding = None\<rparr>"

text \<open>\<open>stack.at(-1) ?? null\<close>.\<close>

definition top_of :: "build_state \<Rightarrow> nat option" where
  "top_of ol = (if o_stack ol = [] then None else Some (last (o_stack ol)))"

definition open_bracket :: "bracket_kind \<Rightarrow> rules_token \<Rightarrow> build_state \<Rightarrow> build_state" where
  "open_bracket kind t ol =
     ol\<lparr>o_brackets := o_brackets ol @ [\<lparr>b_kind = kind, b_open = from_of t, b_start = to_of t,
         b_end = None, b_parent = top_of ol, b_path = [], b_wildcards = []\<rparr>],
       o_stack := o_stack ol @ [length (o_brackets ol)]\<rparr>"

text \<open>
  \<open>close\<close>: the places from the innermost outwards up to the first of one of the kinds, on the
  reversed stack; each of them gets its end, the others stay open.
\<close>

fun close_search :: "bracket list \<Rightarrow> bracket_kind list \<Rightarrow> nat list \<Rightarrow> (nat list \<times> nat list) option" where
  "close_search bs kinds [] = None"
| "close_search bs kinds (i # is) =
     (if b_kind (bs ! i) \<in> set kinds then Some ([i], is)
      else map_option (\<lambda>(closed, rest). (i # closed, rest)) (close_search bs kinds is))"

definition end_at :: "nat \<Rightarrow> nat \<Rightarrow> bracket list \<Rightarrow> bracket list" where
  "end_at at i bs = bs[i := (bs ! i)\<lparr>b_end := Some at\<rparr>]"

definition close_bracket :: "bracket_kind list \<Rightarrow> rules_token \<Rightarrow> build_state \<Rightarrow> build_state" where
  "close_bracket kinds t ol =
     (case close_search (o_brackets ol) kinds (rev (o_stack ol)) of
        None \<Rightarrow> ol
      | Some (closed, rest) \<Rightarrow>
          ol\<lparr>o_brackets := fold (end_at (from_of t)) closed (o_brackets ol), o_stack := rev rest\<rparr>)"

definition pending_kind :: "pending option \<Rightarrow> bracket_kind" where
  "pending_kind p = (case p of
       Some PendingService \<Rightarrow> ServiceKind
     | Some (PendingMatch _ _) \<Rightarrow> MatchKind
     | Some (PendingFunction _ _ _) \<Rightarrow> FunctionKind
     | None \<Rightarrow> BlockKind)"

text \<open>The \<open>{\<close> of \<open>build\<close>: a block takes what its header gathered, a map literal leaves it pending.\<close>

definition open_block :: "rules_token \<Rightarrow> build_state \<Rightarrow> build_state" where
  "open_block t ol =
     (if stack (after t) \<noteq> [] \<and> last (stack (after t)) = BlockMark
      then let o1 = open_bracket (pending_kind (o_pending ol)) t ol;
               at = length (o_brackets ol)
           in (case o_pending ol of
                 Some (PendingMatch p ws) \<Rightarrow>
                   o1\<lparr>o_brackets := (o_brackets o1)[at := (o_brackets o1 ! at)\<lparr>b_path := p, b_wildcards := ws\<rparr>]\<rparr>
               | Some (PendingFunction name place names) \<Rightarrow>
                   o1\<lparr>o_functions := o_functions o1 @ [\<lparr>f_name = name, f_params = names, f_at = place,
                        f_scope = b_parent (o_brackets o1 ! at), f_body = Some at\<rparr>]\<rparr>
               | _ \<Rightarrow> o1)\<lparr>o_pending := None\<rparr>
      else open_bracket MapKind t ol)"

definition build_keyword :: "rules_token \<Rightarrow> build_state \<Rightarrow> build_state" where
  "build_keyword t ol =
     (if text_of t = js ''service'' then ol\<lparr>o_pending := Some PendingService\<rparr>
      else if text_of t = js ''match'' then ol\<lparr>o_pending := Some (PendingMatch [] [])\<rparr>
      else if text_of t = js ''function'' then ol\<lparr>o_pending := Some (PendingFunction [] (from_of t) [])\<rparr>
      else ol)"

definition build_definition :: "rules_token \<Rightarrow> build_state \<Rightarrow> build_state" where
  "build_definition t ol =
     (if params (after t)
      then (case o_pending ol of
              Some (PendingFunction name place names) \<Rightarrow>
                ol\<lparr>o_pending := Some (PendingFunction name place (names @ [text_of t]))\<rparr>
            | _ \<Rightarrow> ol)
      else ol\<lparr>o_bindings := o_bindings ol @ [\<lparr>l_name = text_of t, l_at = from_of t, l_scope = top_of ol, l_end = None\<rparr>],
             o_binding := Some (length (o_bindings ol))\<rparr>)"

definition build_separator :: "rules_token \<Rightarrow> build_state \<Rightarrow> build_state" where
  "build_separator t ol =
     (if text_of t = js '';''
      then ol\<lparr>o_pending := None,
             o_bindings := (case o_binding ol of
                 None \<Rightarrow> o_bindings ol
               | Some i \<Rightarrow> if l_end (o_bindings ol ! i) = None
                   then (o_bindings ol)[i := (o_bindings ol ! i)\<lparr>l_end := Some (from_of t)\<rparr>]
                   else o_bindings ol),
             o_binding := None\<rparr>
      else ol)"

text \<open>One turn of the loop of \<open>build\<close>.\<close>

definition build_step :: "rules_token \<Rightarrow> build_state \<Rightarrow> build_state" where
  "build_step t ol = (case style_of t of
       Keyword \<Rightarrow> build_keyword t ol
     | DefinitionKeyword \<Rightarrow> build_keyword t ol
     | Path \<Rightarrow> (case o_pending ol of
           Some (PendingMatch p ws) \<Rightarrow> ol\<lparr>o_pending := Some (PendingMatch (p @ text_of t) ws)\<rparr>
         | _ \<Rightarrow> ol)
     | WildcardText \<Rightarrow> (case o_pending ol of
           Some (PendingMatch p ws) \<Rightarrow>
             ol\<lparr>o_pending := Some (PendingMatch (p @ text_of t) (ws @ [parseWildcard (text_of t)]))\<rparr>
         | _ \<Rightarrow> ol)
     | FunctionDef \<Rightarrow> (case o_pending ol of
           Some (PendingFunction name place names) \<Rightarrow>
             ol\<lparr>o_pending := Some (PendingFunction (text_of t) (from_of t) names)\<rparr>
         | _ \<Rightarrow> ol)
     | Definition \<Rightarrow> build_definition t ol
     | Brace \<Rightarrow> if text_of t = js ''{'' then open_block t ol else close_bracket BRACE_KINDS t ol
     | Paren \<Rightarrow> if text_of t = js ''('' then open_bracket ParenKind t ol else close_bracket PAREN_KINDS t ol
     | Interpolation \<Rightarrow>
         if text_of t = js ''$('' then open_bracket InterpolationKind t ol else close_bracket PAREN_KINDS t ol
     | SquareBracket \<Rightarrow>
         if text_of t = js ''['' then open_bracket SquareKind t ol else close_bracket SQUARE_KINDS t ol
     | Separator \<Rightarrow> build_separator t ol
     | _ \<Rightarrow> ol)"

definition is_code :: "rules_token \<Rightarrow> bool" where
  "is_code t \<longleftrightarrow> style_of t \<noteq> LineComment \<and> style_of t \<noteq> BlockComment"

definition build :: "jstring \<Rightarrow> outline" where
  "build text =
     (let all_tokens = lex text; kept = filter is_code all_tokens; ol = fold build_step kept start_build
      in \<lparr>tokens = all_tokens, code = kept, brackets = o_brackets ol, function_infos = o_functions ol,
          bindings = o_bindings ol\<rparr>)"

text \<open>\<open>outline\<close>: the last text asked about and its outline, and the answer.\<close>

type_synonym outline_memo = "(jstring \<times> outline) option"

definition outline :: "jstring \<Rightarrow> outline_memo \<Rightarrow> outline \<times> outline_memo" where
  "outline text memo =
     (case memo of
        Some (lastText, lastOutline) \<Rightarrow>
          if lastText \<noteq> text then (build text, Some (text, build text)) else (lastOutline, memo)
      | None \<Rightarrow> (build text, Some (text, build text)))"

section \<open>Asking the outline\<close>

definition contains :: "bracket \<Rightarrow> nat \<Rightarrow> bool" where
  "contains b pos \<longleftrightarrow> pos \<ge> b_start b \<and> (case b_end b of None \<Rightarrow> True | Some e \<Rightarrow> pos \<le> e)"

fun innermost_loop :: "bracket list \<Rightarrow> nat \<Rightarrow> nat \<Rightarrow> nat option \<Rightarrow> nat option" where
  "innermost_loop [] i pos best = best"
| "innermost_loop (b # bs) i pos best =
     (if b_start b > pos then best
      else innermost_loop bs (i + 1) pos (if contains b pos then Some i else best))"

definition innermostAt :: "outline \<Rightarrow> nat \<Rightarrow> nat option" where
  "innermostAt ol pos = innermost_loop (brackets ol) 0 pos None"

text \<open>
  The loop of \<open>chainAt\<close> along the parents, with as many turns as it is allowed; no answer when
  they run out.
\<close>

fun chain_loop :: "nat \<Rightarrow> bracket list \<Rightarrow> nat option \<Rightarrow> nat list \<Rightarrow> nat list option" where
  "chain_loop fuel bs None chain = Some chain"
| "chain_loop 0 bs (Some b) chain = None"
| "chain_loop (Suc fuel) bs (Some b) chain = chain_loop fuel bs (b_parent (bs ! b)) (b # chain)"

definition chainAt :: "outline \<Rightarrow> nat \<Rightarrow> nat list option" where
  "chainAt ol pos = chain_loop (length (brackets ol)) (brackets ol) (innermostAt ol pos) []"

definition matchesAt :: "outline \<Rightarrow> nat \<Rightarrow> nat list option" where
  "matchesAt ol pos = map_option (filter (\<lambda>b. b_kind (brackets ol ! b) = MatchKind)) (chainAt ol pos)"

text \<open>\<open>path.split('/')\<close> without its empty pieces, and \<open>parts.join('/')\<close>.\<close>

definition segments :: "jstring \<Rightarrow> jstring list" where
  "segments p = filter (\<lambda>s. s \<noteq> []) (split_on 47 p)"

abbreviation join_slash :: "jstring list \<Rightarrow> jstring" where
  "join_slash \<equiv> join_with [47]"

definition matchPathIn :: "outline \<Rightarrow> nat \<Rightarrow> jstring option option" where
  "matchPathIn ol pos = map_option (\<lambda>ms.
     (let all = concat (map (\<lambda>b. segments (b_path (brackets ol ! b))) ms) in
      if length all < 3 \<or> all ! 0 \<noteq> js ''databases'' \<or> all ! 2 \<noteq> js ''documents'' then None
      else let rest = drop 3 all in if rest \<noteq> [] then Some (47 # join_slash rest) else None))
     (matchesAt ol pos)"

definition wildcardInfoAt :: "outline \<Rightarrow> nat \<Rightarrow> wildcard_info list option" where
  "wildcardInfoAt ol pos =
     map_option (\<lambda>ms. concat (map (\<lambda>b. b_wildcards (brackets ol ! b)) ms)) (matchesAt ol pos)"

definition RECURSIVE :: "jstring \<Rightarrow> bool" where
  "RECURSIVE part \<longleftrightarrow> part \<noteq> [] \<and> hd part = 123 \<and>
     (let w = run_end WORD part 1 in drop w part = js ''=**}'')"

definition documentPattern :: "jstring \<Rightarrow> jstring option" where
  "documentPattern matchPath =
     (let parts = segments matchPath in
      if parts = [] \<or> length parts mod 2 \<noteq> 0 then None
      else if list_ex RECURSIVE parts then None
      else Some (join_slash (map (\<lambda>part. if part \<noteq> [] \<and> hd part = 123 then js ''*'' else part)
                               (butlast parts))))"

definition enclosingMatchPath :: "jstring \<Rightarrow> nat \<Rightarrow> outline_memo \<Rightarrow> jstring option option \<times> outline_memo" where
  "enclosingMatchPath text pos memo =
     (case outline text memo of (ol, memo') \<Rightarrow> (matchPathIn ol pos, memo'))"

definition wildcardsAt :: "jstring \<Rightarrow> nat \<Rightarrow> outline_memo \<Rightarrow> jstring list option \<times> outline_memo" where
  "wildcardsAt text pos memo =
     (case outline text memo of (ol, memo') \<Rightarrow> (map_option (map w_name) (wildcardInfoAt ol pos), memo'))"

definition stateBefore :: "outline \<Rightarrow> nat \<Rightarrow> scan_state" where
  "stateBefore ol index = (if index > 0 then after (code ol ! (index - 1)) else initialState)"

section \<open>Folding\<close>

text \<open>\<open>braceFolding\<close>: the first bracket of the line, by bisection, then the first that folds.\<close>

function first_open :: "bracket list \<Rightarrow> nat \<Rightarrow> nat \<Rightarrow> nat \<Rightarrow> nat" where
  "first_open bs lineStart lo hi =
     (if lo < hi
      then let mid = (lo + hi) div 2 in
           if b_open (bs ! mid) < lineStart then first_open bs lineStart (mid + 1) hi
           else first_open bs lineStart lo mid
      else lo)"
  by auto
termination by (relation "measure (\<lambda>(bs, lineStart, lo, hi). hi - lo)") auto

declare first_open.simps [simp del]

fun fold_from :: "bracket list \<Rightarrow> nat \<Rightarrow> (nat \<times> nat) option" where
  "fold_from [] lineEnd = None"
| "fold_from (b # bs) lineEnd =
     (if b_open b \<ge> lineEnd then None
      else case b_end b of
        Some e \<Rightarrow> if isBrace b \<and> e > lineEnd then Some (b_start b, e) else fold_from bs lineEnd
      | None \<Rightarrow> fold_from bs lineEnd)"

definition braceFolding :: "outline \<Rightarrow> nat \<Rightarrow> nat \<Rightarrow> (nat \<times> nat) option" where
  "braceFolding ol lineStart lineEnd =
     (let bs = brackets ol in fold_from (drop (first_open bs lineStart 0 (length bs)) bs) lineEnd)"

section \<open>The brackets nest\<close>

text \<open>
  What the outline's brackets keep while it is built up to a place \<open>p\<close> of the text. The stack holds
  the brackets still open, in order. A bracket opens after the start of every earlier one. One
  that encloses another (it was open when the other opened) closes no earlier than it, and the
  parent is the last bracket that encloses.
\<close>

definition encloses :: "bracket list \<Rightarrow> nat \<Rightarrow> nat \<Rightarrow> bool" where
  "encloses bs j i = (case b_end (bs ! i) of None \<Rightarrow> True | Some e \<Rightarrow> b_open (bs ! j) < e)"

definition last_opt :: "'a list \<Rightarrow> 'a option" where
  "last_opt xs = (if xs = [] then None else Some (last xs))"

definition nests :: "nat \<Rightarrow> bracket list \<Rightarrow> nat list \<Rightarrow> bool" where
  "nests p bs st \<longleftrightarrow>
     st = filter (\<lambda>i. b_end (bs ! i) = None) [0..<length bs] \<and>
     (\<forall>i<length bs. b_open (bs ! i) < b_start (bs ! i) \<and> b_start (bs ! i) \<le> p) \<and>
     (\<forall>j<length bs. \<forall>i<j. b_start (bs ! i) \<le> b_open (bs ! j)) \<and>
     (\<forall>i<length bs. \<forall>e. b_end (bs ! i) = Some e \<longrightarrow> b_start (bs ! i) \<le> e \<and> e < p) \<and>
     (\<forall>j<length bs. \<forall>i<j. \<forall>e. b_end (bs ! i) = Some e \<longrightarrow> encloses bs j i \<longrightarrow>
        (\<exists>e'. b_end (bs ! j) = Some e' \<and> e' \<le> e)) \<and>
     (\<forall>j<length bs. b_parent (bs ! j) = last_opt (filter (encloses bs j) [0..<j]))"

lemma nestsD:
  assumes "nests p bs st"
  shows "st = filter (\<lambda>i. b_end (bs ! i) = None) [0..<length bs]"
    and "i < length bs \<Longrightarrow> b_open (bs ! i) < b_start (bs ! i) \<and> b_start (bs ! i) \<le> p"
    and "j < length bs \<Longrightarrow> i < j \<Longrightarrow> b_start (bs ! i) \<le> b_open (bs ! j)"
    and "i < length bs \<Longrightarrow> b_end (bs ! i) = Some e \<Longrightarrow> b_start (bs ! i) \<le> e \<and> e < p"
    and "j < length bs \<Longrightarrow> i < j \<Longrightarrow> b_end (bs ! i) = Some e \<Longrightarrow> encloses bs j i \<Longrightarrow>
        \<exists>e'. b_end (bs ! j) = Some e' \<and> e' \<le> e"
    and "j < length bs \<Longrightarrow> b_parent (bs ! j) = last_opt (filter (encloses bs j) [0..<j])"
  using assms unfolding nests_def by blast+

lemma nests_weaken: "nests p bs st \<Longrightarrow> p \<le> q \<Longrightarrow> nests q bs st"
  unfolding nests_def by (meson le_trans less_le_trans)

lemma nests_empty: "nests p [] []"
  by (simp add: nests_def)

lemma nests_open:
  assumes n: "nests p bs st" and place: "p \<le> from" "from < to"
    and b: "b_open b = from" "b_start b = to" "b_end b = None" "b_parent b = last_opt st"
  shows "nests to (bs @ [b]) (st @ [length bs])"
proof -
  note d = nestsD [OF n]
  have up: "filter P [0..<Suc m] = filter P [0..<m] @ (if P m then [m] else [])" for P and m :: nat
    by simp
  have late: "\<not> encloses (bs @ [b]) (length bs) i" if "i < length bs" "b_end (bs ! i) = Some e" for i e
    using d(4) [OF that] that b(1) place by (simp add: encloses_def nth_append)
  have old: "encloses (bs @ [b]) j i = encloses bs j i" if "j < length bs" "i < j" for i j
    using that by (simp add: encloses_def nth_append split: option.splits)
  have opens: "filter (encloses (bs @ [b]) (length bs)) [0..<length bs] = st"
    unfolding d(1) using late
    by (intro filter_cong) (auto simp: encloses_def nth_append split: option.splits)
  have 1: "st @ [length bs] = filter (\<lambda>i. b_end ((bs @ [b]) ! i) = None) [0..<length (bs @ [b])]"
    unfolding d(1) by (auto simp: nth_append b(3) intro!: filter_cong)
  have 2: "b_open ((bs @ [b]) ! i) < b_start ((bs @ [b]) ! i) \<and> b_start ((bs @ [b]) ! i) \<le> to"
    if "i < length (bs @ [b])" for i
    using that d(2) [of i] b(1,2) place by (auto simp: nth_append less_Suc_eq)
  have 3: "b_start ((bs @ [b]) ! i) \<le> b_open ((bs @ [b]) ! j)" if "j < length (bs @ [b])" "i < j" for i j
    using that d(3) [of j i] d(2) [of i] b(1) place by (auto simp: nth_append less_Suc_eq)
  have 4: "b_start ((bs @ [b]) ! i) \<le> e \<and> e < to" if "i < length (bs @ [b])" "b_end ((bs @ [b]) ! i) = Some e" for i e
    using that d(4) [of i e] b(3) place by (auto simp: nth_append less_Suc_eq)
  have 5: "\<exists>e'. b_end ((bs @ [b]) ! j) = Some e' \<and> e' \<le> e"
    if "j < length (bs @ [b])" "i < j" "b_end ((bs @ [b]) ! i) = Some e" "encloses (bs @ [b]) j i" for i j e
    using that d(5) [of j i e] late [of i e] old [of j i] by (auto simp: nth_append less_Suc_eq split: if_splits)
  have 6: "b_parent ((bs @ [b]) ! j) = last_opt (filter (encloses (bs @ [b]) j) [0..<j])"
    if "j < length (bs @ [b])" for j
  proof (cases "j = length bs")
    case True
    with opens b(4) show ?thesis by simp
  next
    case False
    with that have "filter (encloses (bs @ [b]) j) [0..<j] = filter (encloses bs j) [0..<j]"
      by (intro filter_cong) (auto simp: old)
    with False that d(6) [of j] show ?thesis by (simp add: nth_append)
  qed
  show ?thesis unfolding nests_def using 1 2 3 4 5 6 by blast
qed

text \<open>Closing: a suffix of the stack ends at one place, the rest of the stack stays open.\<close>

lemma length_end_at [simp]: "length (fold (end_at a) closed bs) = length bs"
  by (induction closed arbitrary: bs) (auto simp: end_at_def)

lemma nth_end_at:
  "i < length bs \<Longrightarrow> fold (end_at a) closed bs ! i =
     (if i \<in> set closed then (bs ! i)\<lparr>b_end := Some a\<rparr> else bs ! i)"
proof (induction closed arbitrary: bs)
  case (Cons k closed)
  then show ?case by (cases "k = i") (auto simp: end_at_def)
qed simp

lemma close_search_split:
  "close_search bs kinds is = Some (closed, rest) \<Longrightarrow> is = closed @ rest"
  by (induction "is" arbitrary: closed) (auto split: if_splits)

lemma nests_close:
  assumes n: "nests p bs st" and place: "p \<le> a" "a < q" and st: "st = rest @ rev closed"
  shows "nests q (fold (end_at a) closed bs) rest"
proof -
  note d = nestsD [OF n]
  let ?bs = "fold (end_at a) closed bs"
  have open_iff: "i \<in> set st \<longleftrightarrow> i < length bs \<and> b_end (bs ! i) = None" for i
    unfolding d(1) by auto
  have sorted: "sorted_wrt (<) st" unfolding d(1) by (intro sorted_wrt_filter) simp
  have upward: "j \<in> set closed" if "i \<in> set closed" "j \<in> set st" "i < j" for i j
    using that sorted unfolding st by (fastforce simp: sorted_wrt_append dest: less_asym)
  have apart: "i \<notin> set rest" if "i \<in> set closed" for i
    using that sorted unfolding st by (auto simp: sorted_wrt_append)
  have was_open: "b_end (bs ! i) = None" "i < length bs" if "i \<in> set closed" for i
    using that open_iff [of i] unfolding st by auto
  have ends: "b_end (?bs ! i) = (if i \<in> set closed then Some a else b_end (bs ! i))" if "i < length bs" for i
    using that by (simp add: nth_end_at)
  have same: "b_open (?bs ! i) = b_open (bs ! i)" "b_start (?bs ! i) = b_start (bs ! i)"
    "b_parent (?bs ! i) = b_parent (bs ! i)" if "i < length bs" for i
    using that by (simp_all add: nth_end_at)
  have enc: "encloses ?bs j i = encloses bs j i" if "j < length bs" "i < j" for i j
  proof (cases "i \<in> set closed")
    case True
    have "b_open (bs ! j) < a" using d(2) [of j] that place(1) by linarith
    with True that show ?thesis by (simp add: encloses_def ends same was_open)
  next
    case False
    with that show ?thesis by (simp add: encloses_def ends same split: option.splits)
  qed
  have "rest = filter (\<lambda>i. i \<notin> set closed) st"
    unfolding st using apart by (auto simp: filter_empty_conv intro!: filter_True [symmetric])
  then have 1: "rest = filter (\<lambda>i. b_end (?bs ! i) = None) [0..<length ?bs]"
    unfolding d(1) by (auto simp: ends split: if_splits intro!: filter_cong)
  have 5: "\<exists>e'. b_end (?bs ! j) = Some e' \<and> e' \<le> e"
    if j: "j < length bs" "i < j" and e: "b_end (?bs ! i) = Some e" and en: "encloses ?bs j i" for i j e
  proof (cases "i \<in> set closed")
    case True
    with e j have "e = a" by (simp add: ends)
    then show ?thesis
      using upward [OF True, of j] j d(4) [of j] open_iff [of j] place
      by (cases "b_end (bs ! j)") (auto simp: ends intro: less_imp_le less_le_trans)
  next
    case False
    with e j have "b_end (bs ! i) = Some e" by (simp add: ends)
    with d(5) [OF j] en enc [OF j] obtain e' where "b_end (bs ! j) = Some e'" "e' \<le> e" by auto
    moreover from this have "j \<notin> set closed" using was_open by auto
    ultimately show ?thesis using j by (simp add: ends)
  qed
  have 4: "b_start (?bs ! i) \<le> e \<and> e < q" if "i < length bs" "b_end (?bs ! i) = Some e" for i e
    using that d(2) [of i] d(4) [of i e] place by (auto simp: ends same split: if_splits)
  have 6: "b_parent (?bs ! j) = last_opt (filter (encloses ?bs j) [0..<j])" if "j < length bs" for j
  proof -
    have "filter (encloses ?bs j) [0..<j] = filter (encloses bs j) [0..<j]"
      using that by (intro filter_cong) (auto simp: enc)
    then show ?thesis using that d(6) by (simp add: same)
  qed
  have 2: "b_open (?bs ! i) < b_start (?bs ! i) \<and> b_start (?bs ! i) \<le> q" if "i < length bs" for i
    using that d(2) [of i] place by (simp add: same)
  have 3: "b_start (?bs ! i) \<le> b_open (?bs ! j)" if "j < length bs" "i < j" for i j
    using that d(3) [of j i] by (simp add: same)
  show ?thesis unfolding nests_def length_end_at using 1 2 3 4 5 6 by simp
qed

lemma nests_close_bracket:
  assumes "nests p (o_brackets ol) (o_stack ol)" and "p \<le> from_of t" and "from_of t < to_of t"
  shows "nests (to_of t) (o_brackets (close_bracket kinds t ol)) (o_stack (close_bracket kinds t ol))"
proof (cases "close_search (o_brackets ol) kinds (rev (o_stack ol))")
  case None
  with assms nests_weaken show ?thesis by (auto simp: close_bracket_def)
next
  case (Some r)
  then obtain closed rest where r: "close_search (o_brackets ol) kinds (rev (o_stack ol)) = Some (closed, rest)"
    by (cases r) auto
  then have "o_stack ol = rev rest @ rev closed"
    using close_search_split [OF r] by (simp add: rev_swap)
  from nests_close [OF assms this] r show ?thesis by (simp add: close_bracket_def)
qed

text \<open>Every turn of the loop keeps the brackets nested; most leave them alone.\<close>

lemma build_step_frame:
  "style_of t \<notin> set bracket_styles \<Longrightarrow>
   o_brackets (build_step t ol) = o_brackets ol \<and> o_stack (build_step t ol) = o_stack ol"
  by (cases "style_of t")
    (auto simp: build_step_def build_keyword_def build_definition_def build_separator_def
      bracket_styles_def split: option.splits pending.splits)

definition opened :: "bracket_kind \<Rightarrow> rules_token \<Rightarrow> build_state \<Rightarrow> build_state \<Rightarrow> bool" where
  "opened kind t ol ol' \<longleftrightarrow> o_stack ol' = o_stack ol @ [length (o_brackets ol)] \<and>
     (\<exists>b. o_brackets ol' = o_brackets ol @ [b] \<and> b_kind b = kind \<and> b_open b = from_of t \<and>
        b_start b = to_of t \<and> b_end b = None \<and> b_parent b = last_opt (o_stack ol))"

lemma open_bracket_opened: "opened kind t ol (open_bracket kind t ol)"
  by (simp add: opened_def open_bracket_def top_of_def last_opt_def)

lemma open_block_opened:
  "opened (if stack (after t) \<noteq> [] \<and> last (stack (after t)) = BlockMark
     then pending_kind (o_pending ol) else MapKind) t ol (open_block t ol)"
  using open_bracket_opened [of MapKind t ol]
  by (auto simp: open_block_def opened_def open_bracket_def top_of_def last_opt_def Let_def
      split: option.splits pending.splits)

lemma nests_opened:
  assumes "opened kind t ol ol'" and "nests p (o_brackets ol) (o_stack ol)"
    and "p \<le> from_of t" and "from_of t < to_of t"
  shows "nests (to_of t) (o_brackets ol') (o_stack ol')"
proof -
  obtain b where b: "o_brackets ol' = o_brackets ol @ [b]" "b_open b = from_of t"
    "b_start b = to_of t" "b_end b = None" "b_parent b = last_opt (o_stack ol)"
    using assms(1) by (auto simp: opened_def)
  from nests_open [OF assms(2-4) b(2-5)] b(1) assms(1) show ?thesis by (simp add: opened_def)
qed

lemma build_step_nests:
  assumes "nests p (o_brackets ol) (o_stack ol)" and "p \<le> from_of t" and "from_of t < to_of t"
  shows "nests (to_of t) (o_brackets (build_step t ol)) (o_stack (build_step t ol))"
proof (cases "style_of t \<in> set bracket_styles")
  case True
  with nests_close_bracket [OF assms] nests_opened [OF open_bracket_opened assms]
    nests_opened [OF open_block_opened assms]
  show ?thesis by (auto simp: build_step_def bracket_styles_def)
next
  case False
  with build_step_frame [OF False] nests_weaken [OF assms(1)] assms(2,3) show ?thesis by simp
qed

lemma fold_build_nests:
  "spans_in p hi (map rules_span ts) \<Longrightarrow> nests p (o_brackets ol) (o_stack ol) \<Longrightarrow>
   nests hi (o_brackets (fold build_step ts ol)) (o_stack (fold build_step ts ol))"
proof (induction ts arbitrary: p ol)
  case Nil
  then show ?case using nests_weaken by simp
next
  case (Cons t ts)
  from Cons.prems build_step_nests [OF Cons.prems(2), of t]
  have "nests (to_of t) (o_brackets (build_step t ol)) (o_stack (build_step t ol))"
    by (simp add: rules_span_def)
  from Cons.IH [OF _ this] Cons.prems(1) show ?case by (simp add: rules_span_def)
qed

lemma spans_in_filter: "spans_in lo hi (map f xs) \<Longrightarrow> spans_in lo hi (map f (filter P xs))"
proof (induction xs arbitrary: lo)
  case (Cons x xs)
  then have "spans_in (snd (f x)) hi (map f (filter P xs))" by simp
  with Cons.prems spans_in_weaken [OF this, of lo hi] show ?case by simp
qed simp

lemma lex_spans: "spans_in 0 (length doc) (map rules_span (lex doc))"
  using rules.pieces_in_order [of "(doc, 0, 0, initialState)"] line_end_le [of 0 doc]
  by (simp add: lex_def)

lemma build_nests: "\<exists>st. nests (length doc) (brackets (build doc)) st"
  using fold_build_nests [OF spans_in_filter [OF lex_spans], of start_build] nests_empty [of 0]
  by (auto simp: build_def start_build_def Let_def)

section \<open>The brackets around a position\<close>

lemma encloses_contains:
  assumes n: "nests p bs st" and j: "j < length bs" "contains (bs ! j) pos" and i: "i < j"
  shows "encloses bs j i = contains (bs ! i) pos"
proof -
  have le: "b_start (bs ! i) \<le> pos" "b_open (bs ! j) < pos"
    using nestsD(2) [OF n j(1)] nestsD(3) [OF n j(1) i] j(2) by (auto simp: contains_def)
  show ?thesis
  proof (cases "b_end (bs ! i)")
    case None
    with le show ?thesis by (simp add: encloses_def contains_def)
  next
    case (Some e)
    show ?thesis
    proof
      assume "encloses bs j i"
      then obtain e' where "b_end (bs ! j) = Some e'" "e' \<le> e"
        using nestsD(5) [OF n j(1) i Some] by blast
      with j(2) le Some show "contains (bs ! i) pos" by (simp add: contains_def)
    next
      assume "contains (bs ! i) pos"
      with le Some show "encloses bs j i" by (auto simp: contains_def encloses_def)
    qed
  qed
qed

lemma filter_upt_last:
  "last_opt (filter P [0..<n]) = Some q \<Longrightarrow> q < n \<and> P q \<and> filter P [0..<n] = filter P [0..<q] @ [q]"
  by (induction n) (auto simp: last_opt_def split: if_splits)

lemma chain_loop_contains:
  assumes n: "nests p bs st"
  shows "j < length bs \<Longrightarrow> contains (bs ! j) pos \<Longrightarrow> j < fuel \<Longrightarrow>
    chain_loop fuel bs (Some j) chain = Some (filter (\<lambda>i. contains (bs ! i) pos) [0..<Suc j] @ chain)"
proof (induction j arbitrary: fuel chain rule: less_induct)
  case (less j)
  obtain f where f: "fuel = Suc f" using less.prems(3) by (cases fuel) auto
  let ?in = "\<lambda>i. contains (bs ! i) pos"
  have "filter (encloses bs j) [0..<j] = filter ?in [0..<j]"
    using encloses_contains [OF n less.prems(1,2)] by (intro filter_cong) auto
  then have parent: "b_parent (bs ! j) = last_opt (filter ?in [0..<j])"
    using nestsD(6) [OF n less.prems(1)] by simp
  show ?case
  proof (cases "b_parent (bs ! j)")
    case None
    with parent less.prems(2) show ?thesis by (simp add: f last_opt_def split: if_splits)
  next
    case (Some q)
    with parent filter_upt_last [of ?in j q] have q: "q < j" "?in q" "filter ?in [0..<j] = filter ?in [0..<q] @ [q]"
      by auto
    with less.IH [of q f "j # chain"] less.prems f Some show ?thesis by simp
  qed
qed

text \<open>The innermost bracket is the last that contains the position, for all the early exit.\<close>

lemma innermost_loop_last:
  assumes "sorted (map b_start bs)"
  shows "innermost_loop bs i pos best =
    (case last_opt (filter (\<lambda>k. contains (bs ! k) pos) [0..<length bs]) of
       None \<Rightarrow> best | Some k \<Rightarrow> Some (i + k))"
  using assms
proof (induction bs arbitrary: i best)
  case (Cons b bs)
  let ?in = "\<lambda>k. contains (bs ! k) pos"
  have step: "filter (\<lambda>k. contains ((b # bs) ! k) pos) [0..<length (b # bs)] =
      (if contains b pos then [0] else []) @ map Suc (filter ?in [0..<length bs])"
    by (simp add: upt_rec [of 0 "Suc (length bs)"] map_Suc_upt [symmetric] filter_map comp_def del: upt_Suc)
  show ?case
  proof (cases "b_start b > pos")
    case True
    have "b_start b \<le> b_start (bs ! k)" if "k < length bs" for k
      using Cons.prems nth_mem [OF that] by simp
    with True have "filter ?in [0..<length bs] = []" "\<not> contains b pos"
      by (fastforce simp: contains_def filter_empty_conv)+
    with True step show ?thesis by (simp add: last_opt_def)
  next
    case False
    with Cons step show ?thesis by (auto simp: last_opt_def last_map split: option.splits)
  qed
qed (simp add: last_opt_def)

lemma nests_sorted: "nests p bs st \<Longrightarrow> sorted (map b_open bs) \<and> sorted (map b_start bs)"
proof -
  assume n: "nests p bs st"
  have "b_open (bs ! i) \<le> b_open (bs ! j) \<and> b_start (bs ! i) \<le> b_start (bs ! j)" if "i \<le> j" "j < length bs" for i j
    using nestsD(2) [OF n, of i] nestsD(2) [OF n, of j] nestsD(3) [OF n, of j i] that
    by (cases "i = j") (auto dest: le_neq_implies_less)
  then show ?thesis by (simp add: sorted_iff_nth_mono)
qed

lemma chainAt_contains:
  assumes "nests p (brackets ol) st"
  shows "chainAt ol pos = Some (filter (\<lambda>i. contains (brackets ol ! i) pos) [0..<length (brackets ol)])"
proof -
  let ?in = "\<lambda>i. contains (brackets ol ! i) pos" and ?n = "length (brackets ol)"
  have inner: "innermostAt ol pos = last_opt (filter ?in [0..<?n])"
    using innermost_loop_last [OF conjunct2 [OF nests_sorted [OF assms]], of 0 pos None]
    by (simp add: innermostAt_def split: option.splits)
  show ?thesis
  proof (cases "innermostAt ol pos")
    case None
    with inner show ?thesis by (simp add: chainAt_def last_opt_def split: if_splits)
  next
    case (Some j)
    with inner filter_upt_last [of ?in ?n j] have j: "j < ?n" "?in j" "filter ?in [0..<?n] = filter ?in [0..<j] @ [j]"
      by auto
    with chain_loop_contains [OF assms j(1,2), of ?n "[]"] Some show ?thesis by (simp add: chainAt_def)
  qed
qed

section \<open>The scanner's books and the outline's\<close>

definition mark_of :: "bracket_kind \<Rightarrow> mark" where
  "mark_of kind = (case kind of MapKind \<Rightarrow> MapMark | ParenKind \<Rightarrow> ParenMark | SquareKind \<Rightarrow> SquareMark
     | InterpolationKind \<Rightarrow> InterpolationMark | _ \<Rightarrow> BlockMark)"

definition marks :: "build_state \<Rightarrow> mark list" where
  "marks ol = map (\<lambda>i. mark_of (b_kind (o_brackets ol ! i))) (o_stack ol)"

definition stack_valid :: "build_state \<Rightarrow> bool" where
  "stack_valid ol \<longleftrightarrow> (\<forall>i\<in>set (o_stack ol). i < length (o_brackets ol))"

lemma mark_kinds:
  "k \<in> set BRACE_KINDS \<longleftrightarrow> mark_of k \<in> set [BlockMark, MapMark]"
  "k \<in> set PAREN_KINDS \<longleftrightarrow> mark_of k \<in> set [ParenMark, InterpolationMark]"
  "k \<in> set SQUARE_KINDS \<longleftrightarrow> mark_of k \<in> set [SquareMark]"
  by (cases k; simp add: BRACE_KINDS_def PAREN_KINDS_def SQUARE_KINDS_def mark_of_def)+

lemma pop_search_close:
  assumes "\<And>k. k \<in> set kinds \<longleftrightarrow> mark_of k \<in> set closers"
  shows "map_option snd (pop_search closers (map (\<lambda>i. mark_of (b_kind (bs ! i))) is)) =
    map_option (\<lambda>(closed, rest). map (\<lambda>i. mark_of (b_kind (bs ! i))) rest) (close_search bs kinds is)"
proof (induction "is")
  case (Cons i "is")
  then show ?case using assms [of "b_kind (bs ! i)"] by (auto simp: option.map_comp comp_def case_prod_beta)
qed simp

lemma marks_close:
  assumes kinds: "\<And>k. k \<in> set kinds \<longleftrightarrow> mark_of k \<in> set closers" and v: "stack_valid ol"
  shows "marks (close_bracket kinds t ol) = pop_stack closers (marks ol) \<and> stack_valid (close_bracket kinds t ol)"
proof -
  let ?mark = "\<lambda>i. mark_of (b_kind (o_brackets ol ! i))"
  note pop = pop_search_close [OF kinds, of "o_brackets ol" "rev (o_stack ol)"]
  show ?thesis
  proof (cases "close_search (o_brackets ol) kinds (rev (o_stack ol))")
    case None
    with pop v show ?thesis by (simp add: close_bracket_def pop_stack_def marks_def rev_map)
  next
    case (Some r)
    then obtain closed rest where r: "close_search (o_brackets ol) kinds (rev (o_stack ol)) = Some (closed, rest)"
      by (cases r) auto
    have stack: "o_stack ol = rev rest @ rev closed" using close_search_split [OF r] by (simp add: rev_swap)
    have "mark_of (b_kind (fold (end_at a) closed (o_brackets ol) ! i)) = ?mark i" if "i \<in> set rest" for i a
      using that v stack by (auto simp: stack_valid_def nth_end_at)
    moreover from pop r obtain m where "pop_search closers (map ?mark (rev (o_stack ol))) = Some (m, map ?mark rest)"
      by auto
    ultimately show ?thesis
      using r v stack by (simp add: close_bracket_def pop_stack_def marks_def rev_map [symmetric] stack_valid_def)
  qed
qed

lemma marks_opened:
  "opened kind t ol ol' \<Longrightarrow> stack_valid ol \<Longrightarrow> marks ol' = marks ol @ [mark_of kind] \<and> stack_valid ol'"
  by (auto simp: opened_def marks_def stack_valid_def nth_append)

lemma mark_of_pending: "mark_of (pending_kind p) = BlockMark"
  by (auto simp: pending_kind_def mark_of_def split: option.splits pending.splits)

lemma build_step_marks:
  assumes v: "stack_valid ol" and m: "moves_stack (Some (style_of t)) (text_of t) (marks ol) (stack (after t))"
  shows "marks (build_step t ol) = stack (after t) \<and> stack_valid (build_step t ol)"
proof (cases "style_of t \<in> set bracket_styles")
  case True
  then consider "style_of t = Brace" | "style_of t = Paren" | "style_of t = Interpolation" | "style_of t = SquareBracket"
    by (auto simp: bracket_styles_def)
  then show ?thesis
  proof cases
    case 1
    with m v marks_close [OF mark_kinds(1) v, of t] marks_opened [OF open_block_opened v, of t]
    show ?thesis
      by (auto simp: build_step_def moves_stack_def mark_of_pending mark_of_def [of MapKind] split: if_splits)
  next
    case 2
    with m v marks_close [OF mark_kinds(2) v, of t] marks_opened [OF open_bracket_opened v, of ParenKind t]
    show ?thesis by (auto simp: build_step_def moves_stack_def mark_of_def [of ParenKind] split: if_splits)
  next
    case 3
    with m v marks_close [OF mark_kinds(2) v, of t] marks_opened [OF open_bracket_opened v, of InterpolationKind t]
    show ?thesis by (auto simp: build_step_def moves_stack_def mark_of_def [of InterpolationKind] split: if_splits)
  next
    case 4
    with m v marks_close [OF mark_kinds(3) v, of t] marks_opened [OF open_bracket_opened v, of SquareKind t]
    show ?thesis by (auto simp: build_step_def moves_stack_def mark_of_def [of SquareKind] split: if_splits)
  qed
next
  case False
  with m v build_step_frame [OF False, of ol] show ?thesis
    by (auto simp: moves_stack_def marks_def stack_valid_def bracket_styles_def)
qed

lemma stack_chain_code: "stack_chain st ts \<Longrightarrow> stack_chain st (filter is_code ts)"
proof (induction ts arbitrary: st)
  case (Cons t ts)
  then have "\<not> is_code t \<Longrightarrow> stack (after t) = st"
    by (auto simp: is_code_def moves_stack_def)
  with Cons show ?case by auto
qed simp

lemma fold_build_marks:
  assumes "stack_chain (marks ol) ts" and "stack_valid ol" and "n \<le> length ts"
  shows "marks (fold build_step (take n ts) ol) = (if n = 0 then marks ol else stack (after (ts ! (n - 1))))"
  using assms
proof (induction ts arbitrary: n ol)
  case (Cons t ts)
  show ?case
  proof (cases n)
    case (Suc k)
    from Cons.prems build_step_marks [of ol t]
    have m: "marks (build_step t ol) = stack (after t)" "stack_valid (build_step t ol)" by auto
    with Cons.IH [of "build_step t ol" k] Cons.prems Suc show ?thesis by (cases k) auto
  qed simp
qed simp

lemma lex_chain: "stack_chain [] (lex doc)"
  using lex_loop_chain [of "(doc, 0, 0, initialState)"] line_end_le [of 0 doc] scanned.initial
  by (simp add: lex_def initialState_def)

section \<open>Folding and paths\<close>

definition foldable :: "nat \<Rightarrow> nat \<Rightarrow> bracket \<Rightarrow> bool" where
  "foldable lineStart lineEnd b \<longleftrightarrow> lineStart \<le> b_open b \<and> b_open b < lineEnd \<and> isBrace b \<and>
     (case b_end b of None \<Rightarrow> False | Some e \<Rightarrow> e > lineEnd)"

lemma first_open_bisects:
  assumes "sorted (map b_open bs)" and "lo \<le> hi" and "hi \<le> length bs"
    and "\<forall>i<lo. b_open (bs ! i) < from" and "\<forall>i. hi \<le> i \<longrightarrow> i < length bs \<longrightarrow> from \<le> b_open (bs ! i)"
  shows "first_open bs from lo hi \<le> length bs \<and> (\<forall>i<first_open bs from lo hi. b_open (bs ! i) < from) \<and>
    (\<forall>i. first_open bs from lo hi \<le> i \<longrightarrow> i < length bs \<longrightarrow> from \<le> b_open (bs ! i))"
  using assms
proof (induction bs "from" lo hi rule: first_open.induct)
  case (1 bs "from" lo hi)
  show ?case
  proof (cases "lo < hi")
    case False
    then have "first_open bs from lo hi = lo" by (simp add: first_open.simps [of bs "from" lo hi])
    with False "1.prems" show ?thesis by auto
  next
    case True
    let ?mid = "(lo + hi) div 2"
    have mid: "lo \<le> ?mid" "?mid < hi" "?mid < length bs" using True "1.prems"(3) by auto
    have mono: "b_open (bs ! i) \<le> b_open (bs ! j)" if "i \<le> j" "j < length bs" for i j
      using sorted_nth_mono [OF "1.prems"(1), of i j] that by simp
    show ?thesis
    proof (cases "b_open (bs ! ?mid) < from")
      case low: True
      have below: "b_open (bs ! i) < from" if "i < ?mid + 1" for i
        using mono [of i ?mid] that mid low by linarith
      have step: "first_open bs from lo hi = first_open bs from (?mid + 1) hi"
        using True low by (simp add: first_open.simps [of bs "from" lo hi])
      show ?thesis unfolding step
        by (rule "1.IH"(1) [OF True refl low "1.prems"(1) _ "1.prems"(3) _ "1.prems"(5)])
          (use mid below in auto)
    next
      case high: False
      have above: "from \<le> b_open (bs ! i)" if "?mid \<le> i" "i < length bs" for i
        using mono [of ?mid i] that high by linarith
      have step: "first_open bs from lo hi = first_open bs from lo ?mid"
        using True high by (simp add: first_open.simps [of bs "from" lo hi])
      show ?thesis unfolding step
        by (rule "1.IH"(2) [OF True refl high "1.prems"(1) mid(1) _ "1.prems"(4)]) (use mid above in auto)
    qed
  qed
qed

lemma fold_from_find:
  assumes "sorted (map b_open bs)" and "\<forall>b\<in>set bs. from \<le> b_open b"
  shows "fold_from bs to = map_option (\<lambda>b. (b_start b, the (b_end b))) (find (foldable from to) bs)"
  using assms
proof (induction bs)
  case (Cons b bs)
  show ?case
  proof (cases "b_open b \<ge> to")
    case True
    with Cons.prems have "\<forall>x\<in>set (b # bs). \<not> foldable from to x" by (auto simp: foldable_def)
    then have "find (foldable from to) (b # bs) = None" by (simp add: find_None_iff)
    with True show ?thesis by simp
  next
    case False
    with Cons show ?thesis by (auto simp: foldable_def split: option.splits)
  qed
qed simp

lemma find_append_none: "\<forall>x\<in>set xs. \<not> P x \<Longrightarrow> find P (xs @ ys) = find P ys"
  by (induction xs) auto

lemma segments_join:
  assumes "\<forall>q\<in>set ps. q \<noteq> [] \<and> 47 \<notin> set q"
  shows "segments (join_slash ps) = ps" and "segments (47 # join_slash ps) = ps"
proof -
  show "segments (join_slash ps) = ps"
  proof (cases ps)
    case (Cons p qs)
    then show ?thesis using assms by (simp add: segments_def split_join)
  qed (simp add: segments_def)
  then show "segments (47 # join_slash ps) = ps" by (simp add: segments_def)
qed

lemma segments_pieces: "q \<in> set (segments p) \<Longrightarrow> q \<noteq> [] \<and> 47 \<notin> set q"
  by (auto simp: segments_def dest: split_on_pieces)

section \<open>Properties\<close>

text \<open>
  C25. The outline keeps the scanner's books: after any number of a ruleset's code tokens, the
  brackets it holds open are, kind by kind from the outermost in, the scanner's bracket stack at
  that place (\<open>stateBefore\<close>), also where closers are missing, stray or mismatched.
\<close>

theorem outline_books:
  assumes "n \<le> length (code (build text))"
  shows "marks (fold build_step (take n (code (build text))) start_build) = stack (stateBefore (build text) n)"
proof -
  have start: "marks start_build = []" "stack_valid start_build"
    by (simp_all add: marks_def start_build_def stack_valid_def)
  have code: "code (build text) = filter is_code (lex text)" by (simp add: build_def Let_def)
  from fold_build_marks [of start_build "filter is_code (lex text)" n] stack_chain_code [OF lex_chain] assms
  show ?thesis by (simp add: code start stateBefore_def initialState_def)
qed

theorem outline_books_witness:
  "3 \<le> length (code (build (js ''match /a { ]''))) \<and>
   marks (fold build_step (take 3 (code (build (js ''match /a { ]'')))) start_build) =
     stack (stateBefore (build (js ''match /a { ]'')) 3) \<and>
   stack (stateBefore (build (js ''match /a { ]'')) 3) = [BlockMark]"
proof -
  have n: "3 \<le> length (code (build (js ''match /a { ]'')))" by code_simp
  have "stack (stateBefore (build (js ''match /a { ]'')) 3) = [BlockMark]" by code_simp
  with n outline_books [OF n] show ?thesis by blast
qed

text \<open>
  C26. The brackets \<open>chainAt\<close> answers for a position are exactly those that contain it, outermost
  first: following the parents from the innermost one always ends and passes over none, and the
  early exit of \<open>innermostAt\<close> misses none. It holds for every text, parsed or half typed.
\<close>

theorem chain_exact:
  "chainAt (build text) pos =
     Some (filter (\<lambda>i. contains (brackets (build text) ! i) pos) [0..<length (brackets (build text))])"
proof -
  obtain st where "nests (length text) (brackets (build text)) st" using build_nests by blast
  then show ?thesis by (rule chainAt_contains)
qed

text \<open>
  C27. The fold offered for a line is the first brace of the outline that opens on the line and
  closes on a later one: bisecting for the line's first bracket and stopping at the line's end
  give what a search through all the brackets gives.
\<close>

theorem folding_exact:
  "braceFolding (build text) lineStart lineEnd =
     map_option (\<lambda>b. (b_start b, the (b_end b))) (find (foldable lineStart lineEnd) (brackets (build text)))"
proof -
  define bs where "bs = brackets (build text)"
  define k where "k = first_open bs lineStart 0 (length bs)"
  have sorted: "sorted (map b_open bs)" using build_nests nests_sorted unfolding bs_def by blast
  have k: "k \<le> length bs" "\<forall>i<k. b_open (bs ! i) < lineStart"
    "\<forall>i. k \<le> i \<longrightarrow> i < length bs \<longrightarrow> lineStart \<le> b_open (bs ! i)"
    using first_open_bisects [OF sorted, of 0 "length bs" lineStart] unfolding k_def by auto
  have "\<forall>b\<in>set (take k bs). \<not> foldable lineStart lineEnd b"
    using k(1,2) by (fastforce simp: foldable_def in_set_conv_nth)
  then have "find (foldable lineStart lineEnd) bs = find (foldable lineStart lineEnd) (drop k bs)"
    using find_append_none [of "take k bs" _ "drop k bs"] by simp
  moreover have "\<forall>b\<in>set (drop k bs). lineStart \<le> b_open b"
    using k(3) by (auto simp: in_set_conv_nth)
  moreover have "sorted (map b_open (drop k bs))" using sorted by (simp add: drop_map [symmetric] sorted_wrt_drop)
  ultimately show ?thesis
    using fold_from_find [of "drop k bs" lineStart lineEnd]
    by (simp add: braceFolding_def bs_def [symmetric] k_def [symmetric] Let_def)
qed

text \<open>
  C28. The match path answered around a position reads back: its segments are the segments of
  every enclosing match header joined outermost first, less the three of the documents root,
  which are there.
\<close>

theorem match_path_segments:
  assumes "matchPathIn (build text) pos = Some (Some p)"
  shows "\<exists>db. concat (map (\<lambda>b. segments (b_path b))
      (filter (\<lambda>b. contains b pos \<and> b_kind b = MatchKind) (brackets (build text)))) =
    js ''databases'' # db # js ''documents'' # segments p"
proof -
  define bs where "bs = brackets (build text)"
  define ms where "ms = filter (\<lambda>b. contains b pos \<and> b_kind b = MatchKind) bs"
  define all where "all = concat (map (\<lambda>b. segments (b_path b)) ms)"
  have "map (\<lambda>i. bs ! i) (filter (\<lambda>i. b_kind (bs ! i) = MatchKind)
      (filter (\<lambda>i. contains (bs ! i) pos) [0..<length bs])) = ms"
    unfolding ms_def using filter_map [of "\<lambda>b. contains b pos \<and> b_kind b = MatchKind" "(!) bs" "[0..<length bs]"]
    by (simp add: map_nth comp_def conj_commute)
  then have "concat (map (\<lambda>i. segments (b_path (bs ! i))) (filter (\<lambda>i. b_kind (bs ! i) = MatchKind)
      (filter (\<lambda>i. contains (bs ! i) pos) [0..<length bs]))) = all"
    unfolding all_def by (metis (no_types, lifting) comp_apply map_map map_eq_conv)
  moreover obtain st where "nests (length text) (brackets (build text)) st" using build_nests by blast
  note chainAt_contains [OF this, of pos]
  ultimately have p: "3 \<le> length all" "all ! 0 = js ''databases''" "all ! 2 = js ''documents''"
    "drop 3 all \<noteq> []" "p = 47 # join_slash (drop 3 all)"
    using assms
    by (simp_all add: matchPathIn_def matchesAt_def bs_def [symmetric] Let_def split: if_splits)
  have "q \<noteq> [] \<and> 47 \<notin> set q" if "q \<in> set (drop 3 all)" for q
    using in_set_dropD [OF that] segments_pieces [of q] unfolding all_def set_concat set_map by blast
  then have "segments p = drop 3 all"
    unfolding p(5) by (intro segments_join(2)) blast
  moreover obtain a b c rest where "all = a # b # c # rest"
    using p(1) by (cases all; cases "tl all"; cases "tl (tl all)") auto
  ultimately have "all = js ''databases'' # b # js ''documents'' # segments p"
    using p(2,3) by simp
  then show ?thesis unfolding all_def ms_def bs_def by blast
qed

theorem match_path_segments_witness:
  "\<exists>db. concat (map (\<lambda>b. segments (b_path b))
      (filter (\<lambda>b. contains b 39 \<and> b_kind b = MatchKind)
        (brackets (build (js ''match /databases/{d}/documents/a/{b} { allow''))))) =
    js ''databases'' # db # js ''documents'' # segments (js ''/a/{b}'')"
  by (rule match_path_segments) code_simp

end
