(* ===== verification/Live_Leader.thy ===== *)
theory Live_Leader
  imports JS_Base
begin

text \<open>
  Who holds the browser's live connection, \<open>lib/live/leader.ts\<close>: one tab's election as a record
  with one definition per method, and the tabs of one browser around the lock manager as a step
  relation. The lemmas show that at most one tab leads, and that the lock manager's own moves
  always end, with a leader whenever some tab wants to lead.
\<close>

section \<open>One tab's election\<close>

definition LEADER_LOCK :: jstring where
  "LEADER_LOCK = js ''firenook.console.live''"

definition TAB_LOCK_PREFIX :: jstring where
  "TAB_LOCK_PREFIX = js ''firenook.console.tab.''"

text \<open>
  The variables of \<open>createElection\<close>. An \<open>AbortController\<close> is the number of the request it was
  made for; the one of the watches is a number that grows when it is aborted and replaced.
  \<open>release\<close> is the request whose promise holds the lock.
\<close>

record election =
  el_tab :: jstring
  shared :: bool
  leader :: bool
  wanting :: bool
  el_closed :: bool
  pending :: "nat option"
  release :: "nat option"
  watches :: nat
  watched :: "jstring list"

text \<open>What a method asks of the lock manager and of the channel it calls back.\<close>

datatype lock_call =
    RequestLeader nat
  | AbortRequest nat
  | ReleaseLock nat
  | LeadMicrotask
  | WatchTab jstring nat
  | AbortWatches nat
  | ReleaseTab
  | OnLead
  | OnTabGone jstring

definition createElection :: "bool \<Rightarrow> jstring \<Rightarrow> election" where
  "createElection both tab = \<lparr>el_tab = tab, shared = both, leader = False, wanting = False,
     el_closed = False, pending = None, release = None, watches = 0, watched = []\<rparr>"

definition stopWatching :: "election \<Rightarrow> election \<times> lock_call list" where
  "stopWatching e = (e\<lparr>watches := watches e + 1, watched := []\<rparr>, [AbortWatches (watches e)])"

definition withdraw :: "election \<Rightarrow> election \<times> lock_call list" where
  "withdraw e =
     (if \<not> wanting e then (e, [])
      else let e1 = e\<lparr>wanting := False, pending := None\<rparr>;
               calls = (case pending e of None \<Rightarrow> [] | Some r \<Rightarrow> [AbortRequest r])
           in if leader e1
              then let calls1 = calls @ (case release e1 of None \<Rightarrow> [] | Some r \<Rightarrow> [ReleaseLock r]);
                       e2 = e1\<lparr>leader := False, release := None\<rparr>
                   in (fst (stopWatching e2), calls1 @ snd (stopWatching e2))
              else (e1, calls))"

text \<open>\<open>want\<close>, with the number \<open>r\<close> of the request it makes.\<close>

definition want :: "nat \<Rightarrow> election \<Rightarrow> election \<times> lock_call list" where
  "want r e =
     (if wanting e \<or> el_closed e then (e, [])
      else if \<not> shared e then (e\<lparr>wanting := True\<rparr>, [LeadMicrotask])
      else (e\<lparr>wanting := True, pending := Some r\<rparr>, [RequestLeader r]))"

text \<open>The microtask of a tab that leads itself.\<close>

definition lead_alone :: "election \<Rightarrow> election \<times> lock_call list" where
  "lead_alone e =
     (if \<not> wanting e \<or> leader e \<or> el_closed e then (e, []) else (e\<lparr>leader := True\<rparr>, [OnLead]))"

text \<open>The callback of the leader's lock, and whether it keeps the lock.\<close>

definition granted :: "nat \<Rightarrow> bool \<Rightarrow> election \<Rightarrow> bool \<times> election \<times> lock_call list" where
  "granted r aborted e =
     (if aborted \<or> \<not> wanting e \<or> el_closed e then (False, e, [])
      else (True, e\<lparr>pending := None, leader := True, release := Some r\<rparr>, [OnLead]))"

definition watch :: "jstring \<Rightarrow> election \<Rightarrow> election \<times> lock_call list" where
  "watch other e =
     (if \<not> shared e \<or> \<not> leader e \<or> other = el_tab e \<or> other \<in> set (watched e) then (e, [])
      else (e\<lparr>watched := watched e @ [other]\<rparr>, [WatchTab other (watches e)]))"

text \<open>The callback of a watched tab's lock: the tab closed or crashed.\<close>

definition tab_free :: "jstring \<Rightarrow> nat \<Rightarrow> election \<Rightarrow> election \<times> lock_call list" where
  "tab_free other signal e =
     (e\<lparr>watched := removeAll other (watched e)\<rparr>,
      if leader e \<and> \<not> signal < watches e then [OnTabGone other] else [])"

definition close_election :: "election \<Rightarrow> election \<times> lock_call list" where
  "close_election e =
     (let w = withdraw e; e1 = (fst w)\<lparr>el_closed := True\<rparr>; s = stopWatching e1
      in (fst s, snd w @ snd s @ [ReleaseTab]))"

section \<open>The tabs of one browser\<close>

text \<open>
  The lock manager's part, as the Web Locks API documents it: requests for one name wait in a
  queue, the first is granted when the lock is free, the lock is free again when the callback's
  promise is done, an aborted request may leave the queue, and a tab that is gone takes its
  requests and its lock with it. Only the leader's lock is kept here. A request is known by its tab
  and the tab's own number for it; these are the tabs of a browser that has Web Locks, without
  which a tab leads itself (\<open>lead_alone\<close>) and asks for no lock.
\<close>

record browser =
  tabs :: "jstring \<rightharpoonup> election"
  held :: "(jstring \<times> nat) option"
  queue :: "(jstring \<times> nat) list"
  aborted :: "(jstring \<times> nat) set"
  resolved :: "(jstring \<times> nat) set"
  next_request :: "jstring \<Rightarrow> nat"

definition no_tabs :: browser where
  "no_tabs = \<lparr>tabs = Map.empty, held = None, queue = [], aborted = {}, resolved = {}, next_request = (\<lambda>_. 0)\<rparr>"

text \<open>What the lock manager does with the calls of a tab's method.\<close>

fun obey :: "jstring \<Rightarrow> lock_call list \<Rightarrow> browser \<Rightarrow> browser" where
  "obey t [] b = b"
| "obey t (RequestLeader r # cs) b = obey t cs (b\<lparr>queue := queue b @ [(t, r)], next_request := (next_request b)(t := r + 1)\<rparr>)"
| "obey t (AbortRequest r # cs) b = obey t cs (b\<lparr>aborted := insert (t, r) (aborted b)\<rparr>)"
| "obey t (ReleaseLock r # cs) b = obey t cs (b\<lparr>resolved := insert (t, r) (resolved b)\<rparr>)"
| "obey t (_ # cs) b = obey t cs b"

definition tab_call :: "jstring \<Rightarrow> election \<times> lock_call list \<Rightarrow> browser \<Rightarrow> browser" where
  "tab_call t r b = obey t (snd r) (b\<lparr>tabs := (tabs b)(t \<mapsto> fst r)\<rparr>)"

text \<open>A tab that is closed by the browser or crashes, at any moment.\<close>

definition tab_gone :: "jstring \<Rightarrow> browser \<Rightarrow> browser" where
  "tab_gone t b = b\<lparr>tabs := (tabs b)(t := None), queue := filter (\<lambda>q. fst q \<noteq> t) (queue b),
     held := (case held b of Some (u, r) \<Rightarrow> if u = t then None else held b | None \<Rightarrow> None),
     aborted := {q \<in> aborted b. fst q \<noteq> t}, resolved := {q \<in> resolved b. fst q \<noteq> t},
     next_request := (next_request b)(t := 0)\<rparr>"

text \<open>The lock manager's own moves.\<close>

inductive lock_step :: "browser \<Rightarrow> browser \<Rightarrow> bool" where
  keep: "held b = None \<Longrightarrow> queue b = (t, r) # rest \<Longrightarrow> tabs b t = Some e \<Longrightarrow>
    granted r ((t, r) \<in> aborted b) e = (True, e', calls) \<Longrightarrow>
    lock_step b (tab_call t (e', calls) (b\<lparr>queue := rest, held := Some (t, r)\<rparr>))"
| hand_on: "held b = None \<Longrightarrow> queue b = (t, r) # rest \<Longrightarrow> tabs b t = Some e \<Longrightarrow>
    granted r ((t, r) \<in> aborted b) e = (False, e', calls) \<Longrightarrow>
    lock_step b (tab_call t (e', calls) (b\<lparr>queue := rest\<rparr>))"
| free: "held b = Some (t, r) \<Longrightarrow> (t, r) \<in> resolved b \<Longrightarrow> lock_step b (b\<lparr>held := None\<rparr>)"
| leave: "(t, r) \<in> set (queue b) \<Longrightarrow> (t, r) \<in> aborted b \<Longrightarrow>
    lock_step b (b\<lparr>queue := filter (\<lambda>q. q \<noteq> (t, r)) (queue b)\<rparr>)"

text \<open>Every move: the lock manager's, and the tabs' in any order.\<close>

inductive browser_step :: "browser \<Rightarrow> browser \<Rightarrow> bool" where
  locks: "lock_step b b' \<Longrightarrow> browser_step b b'"
| open_tab: "tabs b t = None \<Longrightarrow> browser_step b (b\<lparr>tabs := (tabs b)(t \<mapsto> createElection True t)\<rparr>)"
| wants: "tabs b t = Some e \<Longrightarrow> next_request b t \<le> r \<Longrightarrow> browser_step b (tab_call t (want r e) b)"
| withdraws: "tabs b t = Some e \<Longrightarrow> browser_step b (tab_call t (withdraw e) b)"
| watching: "tabs b t = Some e \<Longrightarrow> browser_step b (tab_call t (watch other e) b)"
| tab_freed: "tabs b t = Some e \<Longrightarrow> browser_step b (tab_call t (tab_free other n e) b)"
| closes: "tabs b t = Some e \<Longrightarrow> browser_step b (tab_call t (close_election e) b)"
| gone: "tabs b t = Some e \<Longrightarrow> browser_step b (tab_gone t b)"

inductive browsing :: "browser \<Rightarrow> bool" where
  start: "browsing no_tabs"
| step: "browsing b \<Longrightarrow> browser_step b b' \<Longrightarrow> browsing b'"

section \<open>The invariant\<close>

text \<open>
  Of one tab: a leading tab holds the lock with a request not released, a waiting one has a live
  request in the queue; of the lock: who holds it leads with that request or has released it.
\<close>

definition tab_ok :: "browser \<Rightarrow> jstring \<Rightarrow> election \<Rightarrow> bool" where
  "tab_ok b t e \<longleftrightarrow>
     shared e \<and> (el_closed e \<longrightarrow> \<not> wanting e) \<and> (leader e \<longrightarrow> wanting e) \<and>
     (leader e \<longrightarrow> pending e = None \<and> (\<exists>r. release e = Some r \<and> held b = Some (t, r) \<and> (t, r) \<notin> resolved b)) \<and>
     (\<not> leader e \<longrightarrow> release e = None) \<and>
     (wanting e \<and> \<not> leader e \<longrightarrow> (\<exists>r. pending e = Some r \<and> (t, r) \<in> set (queue b) \<and> (t, r) \<notin> aborted b)) \<and>
     (\<not> wanting e \<longrightarrow> pending e = None)"

text \<open>Of one request in the queue: it is not aborted exactly when its tab still waits for it.\<close>

definition locks_ok :: "browser \<Rightarrow> bool" where
  "locks_ok b \<longleftrightarrow>
     (\<forall>(t, r)\<in>set (queue b). r < next_request b t \<and> (t, r) \<notin> resolved b \<and>
        (\<exists>e. tabs b t = Some e \<and> ((t, r) \<in> aborted b \<or> pending e = Some r))) \<and>
     distinct (queue b) \<and>
     (\<forall>t r. held b = Some (t, r) \<longrightarrow> r < next_request b t \<and> (t, r) \<notin> set (queue b) \<and>
        (\<exists>e. tabs b t = Some e \<and> ((t, r) \<in> resolved b \<or> leader e \<and> release e = Some r))) \<and>
     (\<forall>(t, r)\<in>aborted b \<union> resolved b. r < next_request b t) \<and>
     (\<forall>t. tabs b t = None \<longrightarrow> next_request b t = 0)"

definition browser_ok :: "browser \<Rightarrow> bool" where
  "browser_ok b \<longleftrightarrow> locks_ok b \<and> (\<forall>t e. tabs b t = Some e \<longrightarrow> tab_ok b t e)"

lemma no_tabs_ok: "browser_ok no_tabs"
  by (simp add: browser_ok_def locks_ok_def no_tabs_def)

lemma browser_okD:
  assumes "browser_ok b"
  shows "(t, r) \<in> set (queue b) \<Longrightarrow> r < next_request b t \<and> (t, r) \<notin> resolved b \<and>
        (\<exists>e. tabs b t = Some e \<and> ((t, r) \<in> aborted b \<or> pending e = Some r))"
    and "distinct (queue b)"
    and "held b = Some (t, r) \<Longrightarrow> r < next_request b t \<and> (t, r) \<notin> set (queue b) \<and>
        (\<exists>e. tabs b t = Some e \<and> ((t, r) \<in> resolved b \<or> leader e \<and> release e = Some r))"
    and "(t, r) \<in> aborted b \<or> (t, r) \<in> resolved b \<Longrightarrow> r < next_request b t"
    and "tabs b t = Some e \<Longrightarrow> tab_ok b t e"
    and "tabs b t = None \<Longrightarrow> next_request b t = 0"
  using assms unfolding browser_ok_def locks_ok_def by blast+

lemma locks_okI:
  assumes "\<And>t r. (t, r) \<in> set (queue b) \<Longrightarrow> r < next_request b t \<and> (t, r) \<notin> resolved b \<and>
        (\<exists>e. tabs b t = Some e \<and> ((t, r) \<in> aborted b \<or> pending e = Some r))"
    and "distinct (queue b)"
    and "\<And>t r. held b = Some (t, r) \<Longrightarrow> r < next_request b t \<and> (t, r) \<notin> set (queue b) \<and>
        (\<exists>e. tabs b t = Some e \<and> ((t, r) \<in> resolved b \<or> leader e \<and> release e = Some r))"
    and "\<And>t r. (t, r) \<in> aborted b \<or> (t, r) \<in> resolved b \<Longrightarrow> r < next_request b t"
    and "\<And>t. tabs b t = None \<Longrightarrow> next_request b t = 0"
  shows "locks_ok b"
  unfolding locks_ok_def using assms by blast

text \<open>What \<open>withdraw\<close> asks for, on the three branches.\<close>

lemma withdraw_cases:
  assumes "tab_ok b t e"
  obtains (idle) "\<not> wanting e" "withdraw e = (e, [])"
  | (waiting) r where "wanting e" "\<not> leader e" "pending e = Some r"
      "withdraw e = (e\<lparr>wanting := False, pending := None\<rparr>, [AbortRequest r])"
  | (leading) r where "leader e" "release e = Some r" "held b = Some (t, r)" "(t, r) \<notin> resolved b" "pending e = None"
      "withdraw e = (e\<lparr>wanting := False, pending := None, leader := False, release := None,
         watches := watches e + 1, watched := []\<rparr>, [ReleaseLock r, AbortWatches (watches e)])"
  using assms by (auto simp: tab_ok_def withdraw_def stopWatching_def Let_def)

text \<open>
  A move of one tab leaves the others as they are, when it adds to the aborted and released
  requests only numbers that are not theirs.
\<close>

lemma tab_ok_mono:
  assumes "tab_ok b t e" and "held b' = held b" and "set (queue b) \<subseteq> set (queue b')"
    and "\<And>r. (t, r) \<notin> resolved b \<Longrightarrow> (t, r) \<notin> resolved b'"
    and "\<And>r. (t, r) \<notin> aborted b \<Longrightarrow> (t, r) \<notin> aborted b'"
  shows "tab_ok b' t e"
  using assms unfolding tab_ok_def by (metis subsetD)

text \<open>To check a move of one tab, it is enough to check that tab and the locks.\<close>

lemma browser_okI:
  assumes "\<And>u f. u \<noteq> t \<Longrightarrow> tabs b u = Some f \<Longrightarrow> tab_ok b' u f" and "tab_ok b' t e'" and "locks_ok b'"
    and "tabs b' = (tabs b)(t \<mapsto> e')"
  shows "browser_ok b'"
  using assms unfolding browser_ok_def by (metis fun_upd_apply option.inject)

lemma wants_ok:
  assumes ok: "browser_ok b" and t: "tabs b t = Some e" and r: "next_request b t \<le> r"
  shows "browser_ok (tab_call t (want r e) b)"
proof (cases "wanting e \<or> el_closed e")
  case True
  with ok t show ?thesis by (simp add: want_def tab_call_def map_upd_triv)
next
  case False
  note d = browser_okD [OF ok]
  from d(5) [OF t] False have e: "shared e" "\<not> leader e" "release e = None" "pending e = None"
    by (auto simp: tab_ok_def)
  let ?e = "e\<lparr>wanting := True, pending := Some r\<rparr>"
  let ?b = "b\<lparr>tabs := (tabs b)(t \<mapsto> ?e), queue := queue b @ [(t, r)], next_request := (next_request b)(t := r + 1)\<rparr>"
  have call: "tab_call t (want r e) b = ?b" using False e by (simp add: want_def tab_call_def)
  have new: "(t, r) \<notin> set (queue b)" "(t, r) \<notin> aborted b" "(t, r) \<notin> resolved b"
    using d(1,4) [of t r] r by auto
  have late: "q < next_request b u \<Longrightarrow> q < next_request ?b u" for q u using r by auto
  have old: "(t, q) \<in> set (queue b) \<Longrightarrow> (t, q) \<in> aborted b" for q using d(1) [of t q] t e by auto
  have "locks_ok ?b"
  proof (rule locks_okI)
    fix u q assume q: "(u, q) \<in> set (queue ?b)"
    then consider "u = t" "q = r" | "(u, q) \<in> set (queue b)" by auto
    then show "q < next_request ?b u \<and> (u, q) \<notin> resolved ?b \<and>
        (\<exists>f. tabs ?b u = Some f \<and> ((u, q) \<in> aborted ?b \<or> pending f = Some q))"
    proof cases
      case 2
      with d(1) [OF 2] late [of q u] old [of q] show ?thesis by (cases "u = t") auto
    qed (use new in auto)
  next
    fix u q assume h: "held ?b = Some (u, q)"
    then have "held b = Some (u, q)" by simp
    from d(3) [OF this] late [of q u] t e(2,3) r show "q < next_request ?b u \<and> (u, q) \<notin> set (queue ?b) \<and>
        (\<exists>f. tabs ?b u = Some f \<and> ((u, q) \<in> resolved ?b \<or> leader f \<and> release f = Some q))" by (cases "u = t") auto
  next
    fix u q assume "(u, q) \<in> aborted ?b \<or> (u, q) \<in> resolved ?b"
    then show "q < next_request ?b u" using d(4) [of u q] late [of q u] by simp
  qed (use d(2,6) new in \<open>auto split: if_splits\<close>)
  then show ?thesis unfolding call
  proof (rule browser_okI [rotated 2])
    show "tab_ok ?b u f" if "u \<noteq> t" "tabs b u = Some f" for u f using d(5) [OF that(2)] by (rule tab_ok_mono) auto
    show "tab_ok ?b t ?e" using e False new by (auto simp: tab_ok_def)
  qed simp
qed

lemma withdraw_ok:
  assumes ok: "browser_ok b" and t: "tabs b t = Some e"
  shows "browser_ok (tab_call t (withdraw e) b)" and "\<not> wanting (fst (withdraw e))"
proof -
  note d = browser_okD [OF ok]
  from d(5) [OF t] show "\<not> wanting (fst (withdraw e))" by (cases rule: withdraw_cases) auto
  from d(5) [OF t] show "browser_ok (tab_call t (withdraw e) b)"
  proof (cases rule: withdraw_cases)
    case idle
    with ok t show ?thesis by (simp add: tab_call_def map_upd_triv)
  next
    case (waiting r)
    let ?e = "e\<lparr>wanting := False, pending := None\<rparr>"
    let ?b = "b\<lparr>tabs := (tabs b)(t \<mapsto> ?e), aborted := insert (t, r) (aborted b)\<rparr>"
    have call: "tab_call t (withdraw e) b = ?b" using waiting by (simp add: tab_call_def)
    have r: "(t, r) \<in> set (queue b)" using d(5) [OF t] waiting by (simp add: tab_ok_def)
    have "locks_ok ?b"
    proof (rule locks_okI)
      fix u q assume "(u, q) \<in> set (queue ?b)"
      then show "q < next_request ?b u \<and> (u, q) \<notin> resolved ?b \<and>
          (\<exists>f. tabs ?b u = Some f \<and> ((u, q) \<in> aborted ?b \<or> pending f = Some q))"
        using d(1) [of u q] t waiting(3) by auto
    next
      fix u q assume "held ?b = Some (u, q)"
      then have "held b = Some (u, q)" by simp
      from d(3) [OF this] t waiting(2) show "q < next_request ?b u \<and> (u, q) \<notin> set (queue ?b) \<and>
        (\<exists>f. tabs ?b u = Some f \<and> ((u, q) \<in> resolved ?b \<or> leader f \<and> release f = Some q))" by auto
    qed (use d(1) [OF r] d(2,4,6) in \<open>auto split: if_splits\<close>)
    then show ?thesis unfolding call
    proof (rule browser_okI [rotated 2])
      show "tab_ok ?b u f" if "u \<noteq> t" "tabs b u = Some f" for u f
        using d(5) [OF that(2)] by (rule tab_ok_mono) (use that(1) in auto)
      show "tab_ok ?b t ?e" using d(5) [OF t] waiting by (auto simp: tab_ok_def)
    qed simp
  next
    case (leading r)
    let ?e = "e\<lparr>wanting := False, pending := None, leader := False, release := None,
      watches := watches e + 1, watched := []\<rparr>"
    let ?b = "b\<lparr>tabs := (tabs b)(t \<mapsto> ?e), resolved := insert (t, r) (resolved b)\<rparr>"
    have call: "tab_call t (withdraw e) b = ?b" using leading by (simp add: tab_call_def)
    have "locks_ok ?b"
    proof (rule locks_okI)
      fix u q assume "(u, q) \<in> set (queue ?b)"
      then show "q < next_request ?b u \<and> (u, q) \<notin> resolved ?b \<and>
          (\<exists>f. tabs ?b u = Some f \<and> ((u, q) \<in> aborted ?b \<or> pending f = Some q))"
        using d(1) [of u q] d(3) [OF leading(3)] t leading(5) by auto
    qed (use d(2,4,6) d(3) [OF leading(3)] leading(3) in \<open>auto split: if_splits\<close>)
    then show ?thesis unfolding call
    proof (rule browser_okI [rotated 2])
      show "tab_ok ?b u f" if "u \<noteq> t" "tabs b u = Some f" for u f
        using d(5) [OF that(2)] by (rule tab_ok_mono) (use that(1) in auto)
      show "tab_ok ?b t ?e" using d(5) [OF t] by (auto simp: tab_ok_def)
    qed simp
  qed
qed

text \<open>Changes of a tab's record the invariant does not read, and closing one that does not want.\<close>

lemma tab_update_ok:
  assumes ok: "browser_ok b" and t: "tabs b t = Some e"
    and e': "shared e' = shared e" "leader e' = leader e" "wanting e' = wanting e" "pending e' = pending e"
      "release e' = release e" "el_closed e' \<Longrightarrow> \<not> wanting e"
  shows "browser_ok (b\<lparr>tabs := (tabs b)(t \<mapsto> e')\<rparr>)"
proof -
  note d = browser_okD [OF ok]
  let ?b = "b\<lparr>tabs := (tabs b)(t \<mapsto> e')\<rparr>"
  have "locks_ok ?b"
  proof (rule locks_okI)
    fix u q assume "(u, q) \<in> set (queue ?b)"
    then have "(u, q) \<in> set (queue b)" by simp
    from d(1) [OF this] t e' show "q < next_request ?b u \<and> (u, q) \<notin> resolved ?b \<and>
        (\<exists>f. tabs ?b u = Some f \<and> ((u, q) \<in> aborted ?b \<or> pending f = Some q))" by auto
  next
    fix u q assume "held ?b = Some (u, q)"
    then have "held b = Some (u, q)" by simp
    from d(3) [OF this] t e' show "q < next_request ?b u \<and> (u, q) \<notin> set (queue ?b) \<and>
      (\<exists>f. tabs ?b u = Some f \<and> ((u, q) \<in> resolved ?b \<or> leader f \<and> release f = Some q))" by auto
  qed (use d(2,4,6) in \<open>auto split: if_splits\<close>)
  then show ?thesis
  proof (rule browser_okI [rotated 2])
    show "tab_ok ?b u f" if "u \<noteq> t" "tabs b u = Some f" for u f using d(5) [OF that(2)] by (simp add: tab_ok_def)
    show "tab_ok ?b t e'" using d(5) [OF t] e' by (auto simp: tab_ok_def)
  qed simp
qed

lemma obey_append: "obey t (xs @ ys) b = obey t ys (obey t xs b)"
  by (induction t xs b rule: obey.induct) auto

lemma tabs_last:
  "b\<lparr>tabs := ts, queue := q, next_request := n\<rparr> = b\<lparr>queue := q, next_request := n, tabs := ts\<rparr>"
  "b\<lparr>tabs := ts, aborted := a\<rparr> = b\<lparr>aborted := a, tabs := ts\<rparr>"
  "b\<lparr>tabs := ts, resolved := d\<rparr> = b\<lparr>resolved := d, tabs := ts\<rparr>"
  by simp_all

lemma obey_tabs: "obey t cs (b\<lparr>tabs := ts\<rparr>) = (obey t cs b)\<lparr>tabs := ts\<rparr>"
  by (induction t cs b rule: obey.induct) (auto simp: tabs_last)

lemma closes_ok:
  assumes ok: "browser_ok b" and t: "tabs b t = Some e"
  shows "browser_ok (tab_call t (close_election e) b)"
proof -
  let ?b = "tab_call t (withdraw e) b" and ?e = "fst (close_election e)"
  have tabs: "tabs ?b t = Some (fst (withdraw e))" by (simp add: tab_call_def obey_tabs)
  have "tab_call t (close_election e) b = ?b\<lparr>tabs := (tabs ?b)(t \<mapsto> ?e)\<rparr>"
    by (simp add: tab_call_def close_election_def stopWatching_def Let_def obey_append obey_tabs)
  then show ?thesis
    using tab_update_ok [OF withdraw_ok(1) [OF ok t] tabs, of ?e] withdraw_ok(2) [OF ok t]
    by (simp add: close_election_def stopWatching_def Let_def)
qed

lemma gone_ok:
  assumes ok: "browser_ok b"
  shows "browser_ok (tab_gone t b)"
proof -
  note d = browser_okD [OF ok]
  let ?b = "tab_gone t b"
  have held: "held ?b = Some (u, r) \<longleftrightarrow> held b = Some (u, r) \<and> u \<noteq> t" for u r
    by (auto simp: tab_gone_def split: option.splits)
  have queue: "(u, r) \<in> set (queue ?b) \<longleftrightarrow> (u, r) \<in> set (queue b) \<and> u \<noteq> t" for u r
    by (auto simp: tab_gone_def)
  have parts: "tabs ?b = (tabs b)(t := None)" "(u, r) \<in> aborted ?b \<longleftrightarrow> (u, r) \<in> aborted b \<and> u \<noteq> t"
    "(u, r) \<in> resolved ?b \<longleftrightarrow> (u, r) \<in> resolved b \<and> u \<noteq> t" "next_request ?b = (next_request b)(t := 0)" for u r
    by (auto simp: tab_gone_def)
  have "tab_ok ?b u f" if "tabs ?b u = Some f" for u f
  proof -
    have u: "u \<noteq> t" "tabs b u = Some f" using that by (auto simp: parts split: if_splits)
    from d(5) [OF u(2)] u(1) show ?thesis unfolding tab_ok_def held queue parts by simp
  qed
  moreover have "locks_ok ?b"
  proof (rule locks_okI)
    show "distinct (queue ?b)" using d(2) by (simp add: tab_gone_def)
  qed (use d(1,3,4,6) in \<open>auto simp: held queue parts\<close>)
  ultimately show ?thesis unfolding browser_ok_def by blast
qed

lemma open_ok:
  assumes ok: "browser_ok b" and t: "tabs b t = None"
  shows "browser_ok (b\<lparr>tabs := (tabs b)(t \<mapsto> createElection True t)\<rparr>)" (is "browser_ok ?b")
proof -
  note d = browser_okD [OF ok]
  have "tab_ok ?b u f" if "tabs ?b u = Some f" for u f
    using that d(5) [of u f] by (auto simp: tab_ok_def createElection_def split: if_splits)
  moreover have "locks_ok ?b"
  proof (rule locks_okI)
    fix u q assume "(u, q) \<in> set (queue ?b)"
    then have "(u, q) \<in> set (queue b)" by simp
    from d(1) [OF this] t show "q < next_request ?b u \<and> (u, q) \<notin> resolved ?b \<and>
        (\<exists>f. tabs ?b u = Some f \<and> ((u, q) \<in> aborted ?b \<or> pending f = Some q))" by auto
  next
    fix u q assume "held ?b = Some (u, q)"
    then have "held b = Some (u, q)" by simp
    from d(3) [OF this] t show "q < next_request ?b u \<and> (u, q) \<notin> set (queue ?b) \<and>
      (\<exists>f. tabs ?b u = Some f \<and> ((u, q) \<in> resolved ?b \<or> leader f \<and> release f = Some q))" by auto
  qed (use d(2,4,6) in \<open>auto split: if_splits\<close>)
  ultimately show ?thesis unfolding browser_ok_def by blast
qed

lemma grantedD:
  assumes "granted r stale e = (kept, e', calls)"
  shows "kept \<Longrightarrow> \<not> stale \<and> wanting e \<and> e' = e\<lparr>pending := None, leader := True, release := Some r\<rparr> \<and> calls = [OnLead]"
    and "\<not> kept \<Longrightarrow> (stale \<or> \<not> wanting e \<or> el_closed e) \<and> e' = e \<and> calls = []"
  using assms by (auto simp: granted_def split: if_splits)

lemma keep_ok:
  assumes ok: "browser_ok b" and free: "held b = None" and q: "queue b = (t, r) # rest"
    and t: "tabs b t = Some e" and w: "wanting e" and live: "(t, r) \<notin> aborted b"
  shows "browser_ok (b\<lparr>queue := rest, held := Some (t, r),
    tabs := (tabs b)(t \<mapsto> e\<lparr>pending := None, leader := True, release := Some r\<rparr>)\<rparr>)" (is "browser_ok ?b")
proof -
  note d = browser_okD [OF ok]
  have r: "r < next_request b t" "(t, r) \<notin> resolved b" "(t, r) \<notin> set rest" "pending e = Some r"
    using d(1) [of t r] d(2) q t live by auto
  have "locks_ok ?b"
  proof (rule locks_okI)
    fix u n assume "(u, n) \<in> set (queue ?b)"
    then have "(u, n) \<in> set (queue b)" "(u, n) \<noteq> (t, r)" using q r(3) by auto
    from d(1) [OF this(1)] this(2) t r(4) show "n < next_request ?b u \<and> (u, n) \<notin> resolved ?b \<and>
        (\<exists>f. tabs ?b u = Some f \<and> ((u, n) \<in> aborted ?b \<or> pending f = Some n))" by (cases "u = t") auto
  qed (use d(2,4,6) q r t in \<open>auto split: if_splits\<close>)
  then show ?thesis
  proof (rule browser_okI [rotated 2])
    show "tab_ok ?b u f" if "u \<noteq> t" "tabs b u = Some f" for u f
      using d(5) [OF that(2)] that(1) free q by (auto simp: tab_ok_def)
    show "tab_ok ?b t (e\<lparr>pending := None, leader := True, release := Some r\<rparr>)"
      using d(5) [OF t] w r by (auto simp: tab_ok_def)
  qed simp
qed

lemma shrink_ok:
  assumes ok: "browser_ok b" and sub: "set rest \<subseteq> set (queue b)" and dist: "distinct rest"
    and live: "\<And>t r e. (t, r) \<in> set (queue b) \<Longrightarrow> (t, r) \<notin> set rest \<Longrightarrow> tabs b t = Some e \<Longrightarrow>
      pending e = Some r \<Longrightarrow> (t, r) \<in> aborted b"
  shows "browser_ok (b\<lparr>queue := rest\<rparr>)" (is "browser_ok ?b")
proof -
  note d = browser_okD [OF ok]
  have "tab_ok ?b u f" if "tabs ?b u = Some f" for u f
    using that d(5) [of u f] live [of u _ f] by (auto simp: tab_ok_def)
  moreover have "locks_ok ?b"
  proof (rule locks_okI)
    fix u q assume "(u, q) \<in> set (queue ?b)"
    then have "(u, q) \<in> set (queue b)" using sub by auto
    from d(1) [OF this] show "q < next_request ?b u \<and> (u, q) \<notin> resolved ?b \<and>
        (\<exists>f. tabs ?b u = Some f \<and> ((u, q) \<in> aborted ?b \<or> pending f = Some q))" by auto
  next
    fix u q assume "held ?b = Some (u, q)"
    then have "held b = Some (u, q)" by simp
    from d(3) [OF this] sub show "q < next_request ?b u \<and> (u, q) \<notin> set (queue ?b) \<and>
      (\<exists>f. tabs ?b u = Some f \<and> ((u, q) \<in> resolved ?b \<or> leader f \<and> release f = Some q))" by auto
  qed (use d(4,6) dist in auto)
  ultimately show ?thesis unfolding browser_ok_def by blast
qed

lemma lock_step_ok:
  assumes "lock_step b b'" and ok: "browser_ok b"
  shows "browser_ok b'"
  using assms(1)
proof cases
  case (keep t r rest e e' calls)
  from keep_ok [OF ok keep(2-4)] grantedD(1) [OF keep(5)] keep(1) show ?thesis by (simp add: tab_call_def)
next
  case (hand_on t r rest e e' calls)
  have stale: "(t, r) \<in> aborted b \<or> \<not> wanting e \<or> el_closed e" "e' = e" "calls = []"
    using grantedD(2) [OF hand_on(5)] by auto
  have "browser_ok (b\<lparr>queue := rest\<rparr>)"
  proof (rule shrink_ok [OF ok])
    fix u q f
    assume "(u, q) \<in> set (queue b)" "(u, q) \<notin> set rest" "tabs b u = Some f" "pending f = Some q"
    then show "(u, q) \<in> aborted b"
      using stale(1) hand_on(3,4) browser_okD(5) [OF ok hand_on(4)] by (auto simp: tab_ok_def)
  qed (use hand_on(3) browser_okD(2) [OF ok] in auto)
  with stale(2,3) hand_on(1,4) show ?thesis by (simp add: tab_call_def map_upd_triv)
next
  case (free t r)
  note d = browser_okD [OF ok]
  have "tab_ok b' u f" if "tabs b' u = Some f" for u f
    using that d(5) [of u f] free by (auto simp: tab_ok_def)
  moreover have "locks_ok b'"
    by (rule locks_okI) (use d(1,2,4,6) free in auto)
  ultimately show ?thesis unfolding browser_ok_def by blast
next
  case (leave t r)
  show ?thesis unfolding leave(1)
    by (rule shrink_ok [OF ok]) (use leave(3) browser_okD(2) [OF ok] in auto)
qed

lemma browsing_ok: "browsing b \<Longrightarrow> browser_ok b"
proof (induction rule: browsing.induct)
  case start
  show ?case by (rule no_tabs_ok)
next
  case (step b b')
  from step.hyps(2) show ?case
  proof cases
    case locks
    then show ?thesis using lock_step_ok step.IH by blast
  next
    case (open_tab t)
    then show ?thesis using open_ok [OF step.IH] by simp
  next
    case (wants t e r)
    then show ?thesis using wants_ok [OF step.IH] by simp
  next
    case (withdraws t e)
    then show ?thesis using withdraw_ok(1) [OF step.IH] by simp
  next
    case (watching t e other)
    then show ?thesis using tab_update_ok [OF step.IH watching(2), of "fst (watch other e)"]
        browser_okD(5) [OF step.IH watching(2)]
      by (auto simp: tab_call_def watch_def tab_ok_def)
  next
    case (tab_freed t e other n)
    then show ?thesis using tab_update_ok [OF step.IH tab_freed(2), of "fst (tab_free other n e)"]
        browser_okD(5) [OF step.IH tab_freed(2)]
      by (auto simp: tab_call_def tab_free_def tab_ok_def)
  next
    case (closes t e)
    then show ?thesis using closes_ok [OF step.IH] by simp
  next
    case (gone t e)
    then show ?thesis using gone_ok [OF step.IH] by simp
  qed
qed

text \<open>The lock manager's moves end: each hands on a request, or frees the lock.\<close>

definition lock_work :: "browser \<Rightarrow> nat" where
  "lock_work b = 2 * length (queue b) + (if held b = None then 0 else 1)"

lemma obey_quiet: "obey t [] b = b" "obey t [OnLead] b = b"
  by simp_all

lemma lock_step_works: "lock_step b b' \<Longrightarrow> lock_work b' < lock_work b"
proof (induction rule: lock_step.induct)
  case (keep b t r rest e e' calls)
  from grantedD(1) [OF keep(4)] keep(1,2) show ?case by (simp add: lock_work_def tab_call_def)
next
  case (hand_on b t r rest e e' calls)
  from grantedD(2) [OF hand_on(4)] hand_on(1,2) show ?case by (simp add: lock_work_def tab_call_def)
next
  case (leave t r b)
  have "length (filter (\<lambda>q. q \<noteq> (t, r)) (queue b)) < length (queue b)"
    using leave(1) by (intro length_filter_less) auto
  then show ?case by (simp add: lock_work_def)
qed (simp add: lock_work_def)

lemma lock_step_wants:
  assumes "lock_step b b'" and "tabs b t = Some e" and "wanting e"
  shows "\<exists>e'. tabs b' t = Some e' \<and> wanting e'"
  using assms(1)
proof cases
  case (keep u r rest f f' calls)
  with grantedD(1) [OF keep(5)] assms(2,3) show ?thesis by (auto simp: tab_call_def)
next
  case (hand_on u r rest f f' calls)
  with grantedD(2) [OF hand_on(5)] assms(2,3) show ?thesis by (auto simp: tab_call_def)
qed (use assms in auto)

text \<open>Two tabs, the first leading and the second waiting.\<close>

definition lone_tab :: browser where
  "lone_tab = no_tabs\<lparr>tabs := [js ''a'' \<mapsto> createElection True (js ''a'')]\<rparr>"

definition waiting_tab :: browser where
  "waiting_tab = tab_call (js ''a'') (want 0 (createElection True (js ''a''))) lone_tab"

definition leading_tab :: browser where
  "leading_tab = tab_call (js ''a'')
     (snd (granted 0 False (fst (want 0 (createElection True (js ''a''))))))
     (waiting_tab\<lparr>queue := [], held := Some (js ''a'', 0)\<rparr>)"

lemmas sample_tabs = lone_tab_def waiting_tab_def leading_tab_def no_tabs_def tab_call_def want_def
  granted_def createElection_def

lemma browsing_waiting: "browsing waiting_tab"
proof -
  have "browsing lone_tab"
    using browsing.step [OF browsing.start browser_step.open_tab [of no_tabs "js ''a''"]]
    by (simp add: lone_tab_def no_tabs_def)
  from browsing.step [OF this browser_step.wants [of lone_tab "js ''a''" _ 0]] show ?thesis
    by (simp add: waiting_tab_def lone_tab_def no_tabs_def)
qed

lemma leads_sample: "lock_step waiting_tab leading_tab"
proof -
  let ?g = "snd (granted 0 False (fst (want 0 (createElection True (js ''a'')))))"
  have "lock_step waiting_tab (tab_call (js ''a'') (fst ?g, snd ?g)
      (waiting_tab\<lparr>queue := [], held := Some (js ''a'', 0)\<rparr>))"
    by (rule lock_step.keep [of _ _ _ _ "fst (want 0 (createElection True (js ''a'')))"])
      (simp_all add: sample_tabs)
  then show ?thesis by (simp add: leading_tab_def)
qed

text \<open>The leading tab and a second one, which wants to lead.\<close>

definition two_tabs :: browser where
  "two_tabs = tab_call (js ''b'') (want 0 (createElection True (js ''b'')))
     (leading_tab\<lparr>tabs := (tabs leading_tab)(js ''b'' \<mapsto> createElection True (js ''b''))\<rparr>)"

lemma browsing_two: "browsing two_tabs"
proof -
  have "browsing leading_tab"
    by (rule browsing.step [OF browsing_waiting browser_step.locks [OF leads_sample]])
  moreover have "tabs leading_tab (js ''b'') = None" by (simp add: sample_tabs)
  ultimately have "browsing (leading_tab\<lparr>tabs := (tabs leading_tab)(js ''b'' \<mapsto> createElection True (js ''b''))\<rparr>)"
    (is "browsing ?b")
    using browsing.step browser_step.open_tab by blast
  moreover have "tabs ?b (js ''b'') = Some (createElection True (js ''b''))" "next_request ?b (js ''b'') \<le> 0"
    by (simp_all add: sample_tabs)
  ultimately show ?thesis unfolding two_tabs_def using browsing.step browser_step.wants by blast
qed

section \<open>Properties\<close>

text \<open>
  C29. At most one tab of a browser that has Web Locks leads, whatever the tabs do and in whatever order: open, want
  the lead, give it back, close, crash, and requests granted late, after they were given up.
\<close>

theorem one_leader:
  assumes "browsing b" and "tabs b t = Some e" and "leader e" and "tabs b u = Some f" and "leader f"
  shows "t = u"
  using browser_okD(5) [OF browsing_ok [OF assms(1)] assms(2)]
    browser_okD(5) [OF browsing_ok [OF assms(1)] assms(4)] assms(3,5)
  by (auto simp: tab_ok_def)

theorem one_leader_witness:
  "browsing two_tabs \<and> leader (the (tabs two_tabs (js ''a''))) \<and> wanting (the (tabs two_tabs (js ''b''))) \<and>
   \<not> leader (the (tabs two_tabs (js ''b'')))"
proof -
  have t: "tabs two_tabs (js ''a'') = Some (the (tabs two_tabs (js ''a'')))"
      "tabs two_tabs (js ''b'') = Some (the (tabs two_tabs (js ''b'')))"
    and l: "leader (the (tabs two_tabs (js ''a'')))" "wanting (the (tabs two_tabs (js ''b'')))"
    by (simp_all add: two_tabs_def sample_tabs)
  have "js ''a'' \<noteq> js ''b''" by simp
  then show ?thesis using one_leader [OF browsing_two t(1) l(1) t(2)] browsing_two l by blast
qed

text \<open>
  C30. The lead is always taken: the lock manager's own moves cannot go on for ever, and where
  none is left to make, one tab leads if any tab wanted to. So when a leader lets go or crashes,
  the next tab in the queue is granted the lead without anything more from the tabs.
\<close>

theorem lead_taken:
  assumes "browsing b" and "tabs b t = Some e" and "wanting e"
  shows "wfP (\<lambda>c' c. lock_step c c') \<and>
    (\<forall>b'. lock_step\<^sup>*\<^sup>* b b' \<longrightarrow> (\<forall>c. \<not> lock_step b' c) \<longrightarrow> (\<exists>u f. tabs b' u = Some f \<and> leader f))"
proof (intro conjI allI impI)
  show "wfP (\<lambda>c' c. lock_step c c')"
    by (rule wfp_if_convertible_to_nat [of _ lock_work]) (rule lock_step_works)
next
  fix b' assume "lock_step\<^sup>*\<^sup>* b b'" and stuck: "\<forall>c. \<not> lock_step b' c"
  from this(1) assms have reach: "browsing b' \<and> (\<exists>e'. tabs b' t = Some e' \<and> wanting e')"
    by (induction rule: rtranclp_induct) (auto intro: browsing.step browser_step.locks dest: lock_step_wants)
  then obtain e' where e': "tabs b' t = Some e'" "wanting e'" by blast
  note ok = browsing_ok [OF conjunct1 [OF reach]]
  show "\<exists>u f. tabs b' u = Some f \<and> leader f"
  proof (cases "held b'")
    case None
    have "queue b' = []"
    proof (rule ccontr)
      assume "queue b' \<noteq> []"
      then obtain u r rest where q: "queue b' = (u, r) # rest" by (cases "queue b'") auto
      then obtain f where f: "tabs b' u = Some f" using browser_okD(1) [OF ok, of u r] by auto
      obtain kept f' calls where "granted r ((u, r) \<in> aborted b') f = (kept, f', calls)" by (metis prod_cases3)
      then show False using stuck lock_step.keep [OF None q f, of f' calls] lock_step.hand_on [OF None q f, of f' calls]
        by (cases kept) simp_all
    qed
    with browser_okD(5) [OF ok e'(1)] e' show ?thesis by (auto simp: tab_ok_def)
  next
    case (Some h)
    obtain u r where h: "held b' = Some (u, r)" using Some by (cases h) auto
    then have "(u, r) \<notin> resolved b'" using stuck lock_step.free by blast
    with browser_okD(3) [OF ok h] show ?thesis by blast
  qed
qed

theorem lead_taken_witness:
  "lock_step\<^sup>*\<^sup>* waiting_tab leading_tab \<and> (\<exists>u f. tabs leading_tab u = Some f \<and> leader f)"
proof -
  have "\<not> lock_step leading_tab c" for c
    by (auto simp: sample_tabs elim: lock_step.cases)
  moreover have "lock_step\<^sup>*\<^sup>* waiting_tab leading_tab" using leads_sample by blast
  moreover have "tabs waiting_tab (js ''a'') = Some (the (tabs waiting_tab (js ''a'')))"
    "wanting (the (tabs waiting_tab (js ''a'')))" by (simp_all add: sample_tabs)
  ultimately show ?thesis using lead_taken [OF browsing_waiting] by blast
qed

end
