(* ===== verification/JS_Json.thy ===== *)
theory JS_Json
  imports JS_Number
begin

text \<open>
  The language's JSON: values, \<open>JSON.parse\<close>, the quoted text of a string and the decimal text of a
  number, as the components use them. An object is the list of its properties in the order the
  language enumerates them: the keys that are array indices first, ascending, then the others as
  they were added. The lemmas show that text written here reads back to what was written.
\<close>

section \<open>Values\<close>

datatype json =
    JUndefined
  | JNull
  | JBool bool
  | JNum jsnum
  | JStr jstring
  | JArr "json list"
  | JObj "(jstring \<times> json) list"

text \<open>An array index: the decimal text of a number below \<open>2\<^sup>3\<^sup>2 - 1\<close>.\<close>

definition is_digit :: "nat \<Rightarrow> bool" where
  "is_digit c \<longleftrightarrow> 48 \<le> c \<and> c \<le> 57"

definition index_key :: "jstring \<Rightarrow> bool" where
  "index_key k \<longleftrightarrow> k \<noteq> [] \<and> list_all is_digit k \<and> (hd k = 48 \<longrightarrow> k = [48]) \<and> read_nat k < 4294967295"

text \<open>\<open>o[k] = v\<close>.\<close>

fun insert_index :: "jstring \<Rightarrow> 'a \<Rightarrow> (jstring \<times> 'a) list \<Rightarrow> (jstring \<times> 'a) list" where
  "insert_index k v [] = [(k, v)]"
| "insert_index k v ((k', v') # ps) =
     (if index_key k' \<and> read_nat k' < read_nat k then (k', v') # insert_index k v ps
      else (k, v) # (k', v') # ps)"

definition obj_set :: "jstring \<Rightarrow> 'a \<Rightarrow> (jstring \<times> 'a) list \<Rightarrow> (jstring \<times> 'a) list" where
  "obj_set k v ps =
     (if k \<in> fst ` set ps then map (\<lambda>p. if fst p = k then (k, v) else p) ps
      else if index_key k then insert_index k v ps
      else ps @ [(k, v)])"

definition obj_of :: "(jstring \<times> 'a) list \<Rightarrow> (jstring \<times> 'a) list" where
  "obj_of ps = fold (\<lambda>(k, v). obj_set k v) ps []"

section \<open>Numbers in decimal\<close>

definition exp10 :: "int \<Rightarrow> rat" where
  "exp10 k = (if 0 \<le> k then 10 ^ nat k else 1 / 10 ^ nat (- k))"

text \<open>The number of digits before the point: \<open>exp10 (n - 1) \<le> x < exp10 n\<close> for a positive \<open>x\<close>.\<close>

definition decimal_exponent :: "rat \<Rightarrow> int" where
  "decimal_exponent x =
     (let (p, q) = quotient_of x;
          n = int (floorlog 10 (nat p)) - int (floorlog 10 (nat q))
      in if x < exp10 n then n else n + 1)"

text \<open>
  The digits of a number's text: the fewest, \<open>k\<close>, whose decimal rounds to the number, as the integer
  \<open>s\<close> and the place \<open>n\<close> of the point. The search goes up to a count at which the decimal is exact.
\<close>

definition digits_at :: "rat \<Rightarrow> int \<Rightarrow> nat \<Rightarrow> int \<times> int" where
  "digits_at x n k =
     (let s = round_even (x * exp10 (int k - n))
      in if s = 10 ^ k then (10 ^ (k - 1), n + 1) else (s, n))"

fun search_digits :: "rat \<Rightarrow> int \<Rightarrow> nat \<Rightarrow> nat \<Rightarrow> nat \<times> int \<times> int" where
  "search_digits x n k 0 = (k, digits_at x n k)"
| "search_digits x n k (Suc fuel) =
     (case digits_at x n k of (s, m) \<Rightarrow>
        if toDouble (of_int s * exp10 (m - int k)) = Fin x then (k, s, m)
        else search_digits x n (k + 1) fuel)"

definition shortest_digits :: "rat \<Rightarrow> nat \<times> int \<times> int" where
  "shortest_digits x =
     (let n = decimal_exponent x in search_digits x n 1 (nat (n + 1074) - 1))"

definition zeros :: "nat \<Rightarrow> jstring" where
  "zeros n = replicate n 48"

text \<open>\<open>Number::toString\<close> of a positive finite number.\<close>

definition positive_text :: "rat \<Rightarrow> jstring" where
  "positive_text x =
     (case shortest_digits x of (k, s, n) \<Rightarrow>
        let ds = show_nat (nat s); e = n - 1;
            sign = (if 0 \<le> e then 43 else 45)
        in if int k \<le> n \<and> n \<le> 21 then ds @ zeros (nat (n - int k))
           else if 0 < n \<and> n \<le> 21 then take (nat n) ds @ 46 # drop (nat n) ds
           else if - 6 < n \<and> n \<le> 0 then 48 # 46 # zeros (nat (- n)) @ ds
           else if k = 1 then ds @ 101 # sign # show_nat (nat \<bar>e\<bar>)
           else take 1 ds @ 46 # drop 1 ds @ 101 # sign # show_nat (nat \<bar>e\<bar>))"

fun num_text :: "jsnum \<Rightarrow> jstring" where
  "num_text (Fin x) = (if x = 0 then [48] else if x < 0 then 45 # positive_text (- x) else positive_text x)"
| "num_text PInf = js ''Infinity''"
| "num_text NInf = js ''-Infinity''"
| "num_text NaN = js ''NaN''"

section \<open>Writing\<close>

definition hex_digit :: "nat \<Rightarrow> nat" where
  "hex_digit n = (if n < 10 then 48 + n else 87 + n)"

definition unit_escape :: "nat \<Rightarrow> jstring" where
  "unit_escape u = [92, 117, hex_digit (u div 4096 mod 16), hex_digit (u div 256 mod 16),
     hex_digit (u div 16 mod 16), hex_digit (u mod 16)]"

definition plain_escape :: "nat \<Rightarrow> jstring" where
  "plain_escape u =
     (if u = 8 then [92, 98] else if u = 9 then [92, 116] else if u = 10 then [92, 110]
      else if u = 12 then [92, 102] else if u = 13 then [92, 114] else if u = 34 then [92, 34]
      else if u = 92 then [92, 92] else if u < 32 then unit_escape u else [u])"

text \<open>The quoted string; a surrogate without its other half is escaped.\<close>

fun quote_units :: "jstring \<Rightarrow> jstring" where
  "quote_units [] = []"
| "quote_units [u] = (if high_surrogate u \<or> low_surrogate u then unit_escape u else plain_escape u)"
| "quote_units (u # v # r) =
     (if high_surrogate u \<and> low_surrogate v then u # v # quote_units r
      else (if high_surrogate u \<or> low_surrogate u then unit_escape u else plain_escape u) @ quote_units (v # r))"

definition quote_json :: "jstring \<Rightarrow> jstring" where
  "quote_json s = 34 # quote_units s @ [34]"

text \<open>\<open>JSON.stringify\<close> of a value that is neither an array nor an object; none for \<open>undefined\<close>.\<close>

fun scalar_text :: "json \<Rightarrow> jstring option" where
  "scalar_text JNull = Some (js ''null'')"
| "scalar_text (JBool b) = Some (if b then js ''true'' else js ''false'')"
| "scalar_text (JNum x) = Some (if is_finite x then num_text x else js ''null'')"
| "scalar_text (JStr s) = Some (quote_json s)"
| "scalar_text _ = None"

section \<open>Reading\<close>

definition json_space :: "nat \<Rightarrow> bool" where
  "json_space c \<longleftrightarrow> c = 32 \<or> c = 9 \<or> c = 10 \<or> c = 13"

definition skip_space :: "jstring \<Rightarrow> jstring" where
  "skip_space s = dropWhile json_space s"

definition hex_value :: "nat \<Rightarrow> nat option" where
  "hex_value c = (if is_digit c then Some (c - 48)
     else if 97 \<le> c \<and> c \<le> 102 then Some (c - 87)
     else if 65 \<le> c \<and> c \<le> 70 then Some (c - 55) else None)"

definition read_hex4 :: "nat \<Rightarrow> nat \<Rightarrow> nat \<Rightarrow> nat \<Rightarrow> nat option" where
  "read_hex4 a b c d = (case (hex_value a, hex_value b, hex_value c, hex_value d) of
       (Some w, Some x, Some y, Some z) \<Rightarrow> Some (4096 * w + 256 * x + 16 * y + z)
     | _ \<Rightarrow> None)"

definition read_escape :: "nat \<Rightarrow> nat option" where
  "read_escape c = (if c = 34 \<or> c = 92 \<or> c = 47 then Some c else if c = 98 then Some 8
     else if c = 102 then Some 12 else if c = 110 then Some 10 else if c = 114 then Some 13
     else if c = 116 then Some 9 else None)"

text \<open>The rest of a string after its opening quote.\<close>

fun read_string :: "jstring \<Rightarrow> (jstring \<times> jstring) option" where
  "read_string [] = None"
| "read_string (c # r) =
     (if c = 34 then Some ([], r)
      else if c < 32 then None
      else if c = 92
      then (case r of
              [] \<Rightarrow> None
            | e # r1 \<Rightarrow>
                if e = 117
                then (case r1 of
                        h1 # h2 # h3 # h4 # r2 \<Rightarrow>
                          (case read_hex4 h1 h2 h3 h4 of
                             None \<Rightarrow> None
                           | Some u \<Rightarrow> map_option (\<lambda>(s, rest). (u # s, rest)) (read_string r2))
                      | _ \<Rightarrow> None)
                else (case read_escape e of
                        None \<Rightarrow> None
                      | Some u \<Rightarrow> map_option (\<lambda>(s, rest). (u # s, rest)) (read_string r1)))
      else map_option (\<lambda>(s, rest). (c # s, rest)) (read_string r))"

text \<open>A number: its parts, then its value.\<close>

definition read_exponent :: "jstring \<Rightarrow> (int \<times> jstring) option" where
  "read_exponent s =
     (case s of
        c # r \<Rightarrow>
          if c = 101 \<or> c = 69
          then let negative = r \<noteq> [] \<and> hd r = 45;
                   body = (if r \<noteq> [] \<and> (hd r = 45 \<or> hd r = 43) then tl r else r);
                   ds = takeWhile is_digit body
               in if ds = [] then None
                  else Some ((if negative then - 1 else 1) * int (read_nat ds), dropWhile is_digit body)
          else Some (0, s)
      | [] \<Rightarrow> Some (0, s))"

definition read_unsigned :: "jstring \<Rightarrow> (rat \<times> jstring) option" where
  "read_unsigned s =
     (let whole = takeWhile is_digit s; r = dropWhile is_digit s in
      if whole = [] \<or> (hd whole = 48 \<and> whole \<noteq> [48]) then None
      else let pointed = r \<noteq> [] \<and> hd r = 46;
               fraction = (if pointed then takeWhile is_digit (tl r) else []);
               r1 = (if pointed then dropWhile is_digit (tl r) else r)
           in if pointed \<and> fraction = [] then None
              else map_option (\<lambda>(e, rest).
                     (of_nat (read_nat (whole @ fraction)) * exp10 (e - int (length fraction)), rest))
                   (read_exponent r1))"

definition read_number :: "jstring \<Rightarrow> (jsnum \<times> jstring) option" where
  "read_number s =
     (if s \<noteq> [] \<and> hd s = 45 then map_option (\<lambda>(x, rest). (toDouble (- x), rest)) (read_unsigned (tl s))
      else map_option (\<lambda>(x, rest). (toDouble x, rest)) (read_unsigned s))"

definition read_word :: "jstring \<Rightarrow> (json \<times> jstring) option" where
  "read_word s =
     (if take 4 s = js ''null'' then Some (JNull, drop 4 s)
      else if take 4 s = js ''true'' then Some (JBool True, drop 4 s)
      else if take 5 s = js ''false'' then Some (JBool False, drop 5 s)
      else None)"

text \<open>
  One value, the rest of an array after an element's start, and the rest of an object after a
  key's start. The first argument bounds the depth and the number of elements still to read.
\<close>

fun read_value :: "nat \<Rightarrow> jstring \<Rightarrow> (json \<times> jstring) option"
  and read_items :: "nat \<Rightarrow> jstring \<Rightarrow> (json list \<times> jstring) option"
  and read_members :: "nat \<Rightarrow> jstring \<Rightarrow> ((jstring \<times> json) list \<times> jstring) option" where
  "read_value 0 s = None"
| "read_value (Suc fuel) s =
     (case s of
        [] \<Rightarrow> None
      | c # r \<Rightarrow>
          if c = 34 then map_option (\<lambda>(t, rest). (JStr t, rest)) (read_string r)
          else if c = 91
          then (case skip_space r of
                  [] \<Rightarrow> None
                | d # r1 \<Rightarrow> if d = 93 then Some (JArr [], r1)
                    else map_option (\<lambda>(vs, rest). (JArr vs, rest)) (read_items fuel (d # r1)))
          else if c = 123
          then (case skip_space r of
                  [] \<Rightarrow> None
                | d # r1 \<Rightarrow> if d = 125 then Some (JObj [], r1)
                    else map_option (\<lambda>(ps, rest). (JObj (obj_of ps), rest)) (read_members fuel (d # r1)))
          else if c = 45 \<or> is_digit c then map_option (\<lambda>(x, rest). (JNum x, rest)) (read_number (c # r))
          else read_word (c # r))"
| "read_items 0 s = None"
| "read_items (Suc fuel) s =
     (case read_value fuel s of
        None \<Rightarrow> None
      | Some (v, r) \<Rightarrow>
          (case skip_space r of
             [] \<Rightarrow> None
           | d # r1 \<Rightarrow>
               if d = 93 then Some ([v], r1)
               else if d = 44
               then map_option (\<lambda>(vs, rest). (v # vs, rest)) (read_items fuel (skip_space r1))
               else None))"
| "read_members 0 s = None"
| "read_members (Suc fuel) s =
     (case s of
        [] \<Rightarrow> None
      | c # r \<Rightarrow>
          if c \<noteq> 34 then None
          else (case read_string r of
             None \<Rightarrow> None
           | Some (k, r1) \<Rightarrow>
               (case skip_space r1 of
                  [] \<Rightarrow> None
                | d # r2 \<Rightarrow>
                    if d \<noteq> 58 then None
                    else (case read_value fuel (skip_space r2) of
                       None \<Rightarrow> None
                     | Some (v, r3) \<Rightarrow>
                         (case skip_space r3 of
                            [] \<Rightarrow> None
                          | e # r4 \<Rightarrow>
                              if e = 125 then Some ([(k, v)], r4)
                              else if e = 44
                              then map_option (\<lambda>(ps, rest). ((k, v) # ps, rest)) (read_members fuel (skip_space r4))
                              else None)))))"

text \<open>\<open>JSON.parse\<close>: none where it throws.\<close>

definition parse_json :: "jstring \<Rightarrow> json option" where
  "parse_json s =
     (case read_value (length s + 1) (skip_space s) of
        Some (v, rest) \<Rightarrow> if skip_space rest = [] then Some v else None
      | None \<Rightarrow> None)"


section \<open>Strings read back\<close>

lemma hex_value_digit: "n < 16 \<Longrightarrow> hex_value (hex_digit n) = Some n"
  by (auto simp: hex_value_def hex_digit_def is_digit_def)

lemma hex_sum: "16 * a + p = u \<Longrightarrow> 16 * b + q = a \<Longrightarrow> 16 * c + r = b \<Longrightarrow>
    4096 * c + 256 * r + 16 * q + p = (u :: nat)"
  by simp

lemma read_unit_escape:
  assumes "u < 0x10000"
  shows "read_string (unit_escape u @ r) = map_option (\<lambda>(s, rest). (u # s, rest)) (read_string r)"
proof -
  have "4096 * (u div 4096 mod 16) + 256 * (u div 256 mod 16) + 16 * (u div 16 mod 16) + u mod 16 = u"
  proof -
    have d: "u div 256 = u div 16 div 16" "u div 4096 = u div 16 div 16 div 16"
      by (simp_all add: div_mult2_eq [symmetric])
    have "u div 16 div 16 div 16 < 16" using assms by (simp add: div_mult2_eq [symmetric] less_mult_imp_div_less)
    then have "u div 16 div 16 div 16 mod 16 = u div 16 div 16 div 16" by simp
    then show ?thesis unfolding d by (simp only: hex_sum [OF mult_div_mod_eq mult_div_mod_eq mult_div_mod_eq])
  qed
  moreover have "hex_value (hex_digit (x mod 16)) = Some (x mod 16)" for x by (simp add: hex_value_digit)
  ultimately have "read_hex4 (hex_digit (u div 4096 mod 16)) (hex_digit (u div 256 mod 16))
      (hex_digit (u div 16 mod 16)) (hex_digit (u mod 16)) = Some u"
    by (simp only: read_hex4_def prod.case option.case)
  then show ?thesis unfolding unit_escape_def by simp
qed

lemma read_plain_escape:
  assumes "u < 0x10000"
  shows "read_string (plain_escape u @ r) = map_option (\<lambda>(s, rest). (u # s, rest)) (read_string r)"
  using read_unit_escape [OF assms, of r] by (auto simp: plain_escape_def read_escape_def)

lemma read_surrogate:
  "high_surrogate u \<or> low_surrogate u \<Longrightarrow>
   read_string (u # r) = map_option (\<lambda>(s, rest). (u # s, rest)) (read_string r)"
  by (auto simp: high_surrogate_def low_surrogate_def)

lemma read_quoted: "units_ok s \<Longrightarrow> read_string (quote_units s @ 34 # rest) = Some (s, rest)"
proof (induction s rule: quote_units.induct)
  case (2 u)
  then show ?case by (simp add: read_unit_escape read_plain_escape)
next
  case (3 u v r)
  show ?case
  proof (cases "high_surrogate u \<and> low_surrogate v")
    case True
    with 3 show ?thesis by (simp add: read_surrogate del: read_string.simps(2))
  next
    case False
    with 3 show ?thesis
      by (auto simp: read_unit_escape read_plain_escape simp del: read_string.simps(2))
  qed
qed simp

section \<open>Numbers read back\<close>

lemma exp10_pos [simp]: "0 < exp10 k"
  by (simp add: exp10_def)

lemma exp10_nonzero [simp]: "exp10 k \<noteq> 0"
  by (simp add: exp10_def)

lemma exp10_nat [simp]: "exp10 (int n) = 10 ^ n"
  by (simp add: exp10_def)

lemma exp10_0 [simp]: "exp10 0 = 1"
  by (simp add: exp10_def)

lemma exp10_powi: "exp10 k = 10 powi k"
  by (simp add: exp10_def power_int_def power_one_over inverse_eq_divide)

lemma exp10_add: "exp10 (a + b) = exp10 a * exp10 b"
  by (simp add: exp10_powi power_int_add)

lemma exp10_diff: "exp10 (a - b) = exp10 a / exp10 b"
  by (simp add: exp10_powi power_int_diff)

lemma exp10_mono: "a \<le> b \<Longrightarrow> exp10 a \<le> exp10 b"
  by (simp add: exp10_powi power_int_increasing)

lemma exp10_less_iff: "exp10 a < exp10 b \<longleftrightarrow> a < b"
proof
  assume "exp10 a < exp10 b"
  then show "a < b" using exp10_mono [of b a] by (meson not_le)
next
  assume "a < b"
  then show "exp10 a < exp10 b" unfolding exp10_powi by (intro power_int_strict_increasing) auto
qed

lemma floorlog10_bounds: "0 < n \<Longrightarrow> 10 ^ (floorlog 10 n - 1) \<le> n \<and> n < 10 ^ floorlog 10 n \<and> 0 < floorlog 10 n"
  using floorlog_bounds [of n 10] by (auto simp: floorlog_def)

lemma decimal_exponent_bounds:
  assumes "0 < x"
  shows "exp10 (decimal_exponent x - 1) \<le> x \<and> x < exp10 (decimal_exponent x)"
proof -
  obtain p q where pq: "quotient_of x = (p, q)" by fastforce
  have q: "0 < q" and x: "x = of_int p / of_int q"
    using quotient_of_denom_pos [OF pq] quotient_of_div [OF pq] by auto
  with assms have p: "0 < p" by (simp add: zero_less_divide_iff)
  let ?a = "floorlog 10 (nat p)" and ?b = "floorlog 10 (nat q)"
  have a: "10 ^ (?a - 1) \<le> nat p" "nat p < 10 ^ ?a" "0 < ?a" using floorlog10_bounds [of "nat p"] p by auto
  have b: "10 ^ (?b - 1) \<le> nat q" "nat q < 10 ^ ?b" "0 < ?b" using floorlog10_bounds [of "nat q"] q by auto
  have cast: "(of_nat (nat z) :: rat) = of_int z" if "0 < z" for z using that by simp
  have pr: "10 ^ (?a - 1) \<le> (of_int p :: rat)" "of_int p < (10 ^ ?a :: rat)"
    using a(1,2) cast [OF p] by (metis of_nat_le_iff of_nat_less_iff of_nat_numeral of_nat_power)+
  have qr: "10 ^ (?b - 1) \<le> (of_int q :: rat)" "of_int q < (10 ^ ?b :: rat)"
    using b(1,2) cast [OF q] by (metis of_nat_le_iff of_nat_less_iff of_nat_numeral of_nat_power)+
  have lo: "exp10 (int ?a - int ?b - 1) \<le> x"
  proof -
    have "int ?a - int ?b - 1 = int (?a - 1) - int ?b" using a(3) by simp
    then have "exp10 (int ?a - int ?b - 1) = 10 ^ (?a - 1) / 10 ^ ?b"
      by (simp only: exp10_diff exp10_nat)
    also have "\<dots> \<le> of_int p / of_int q"
      using pr qr q p by (intro frac_le) auto
    finally show ?thesis by (simp add: x)
  qed
  have hi: "x < exp10 (int ?a - int ?b + 1)"
  proof -
    have "of_int p / of_int q < (10 ^ ?a :: rat) / 10 ^ (?b - 1)"
      using pr qr p by (intro frac_less) auto
    moreover have "int ?a - int ?b + 1 = int ?a - int (?b - 1)" using b(3) by simp
    then have "exp10 (int ?a - int ?b + 1) = 10 ^ ?a / 10 ^ (?b - 1)"
      by (simp only: exp10_diff exp10_nat)
    ultimately show ?thesis by (simp only: x)
  qed
  show ?thesis using lo hi by (auto simp: decimal_exponent_def pq Let_def)
qed

text \<open>A number the language can hold.\<close>

definition is_double :: "rat \<Rightarrow> bool" where
  "is_double x \<longleftrightarrow> toDouble x = Fin x"

lemma exp2_powi: "exp2 k = 2 powi k"
  by (simp add: exp2_def power_int_def power_one_over inverse_eq_divide)

lemma scaled_integer:
  assumes "- int m \<le> u"
  shows "of_int y * exp2 u * 10 ^ m = of_int (y * 2 ^ nat (u + int m) * 5 ^ m)"
proof -
  have "exp2 u * 2 ^ m = exp2 (u + int m)" by (simp add: exp2_powi power_int_add)
  also have "\<dots> = of_int (2 ^ nat (u + int m))" using assms by (simp add: exp2_def)
  finally have u: "exp2 u * 2 ^ m = of_int (2 ^ nat (u + int m))" .
  have "of_int y * exp2 u * 10 ^ m = of_int y * (exp2 u * 2 ^ m) * 5 ^ m"
    by (simp add: power_mult_distrib [symmetric] mult.assoc)
  then show ?thesis unfolding u by simp
qed

lemma double_scaled:
  assumes "is_double x" and "0 < x"
  obtains z where "x * exp10 1074 = of_int z" and "1 \<le> z"
proof -
  let ?u = "max (exponent x - 52) (- 1074)"
  have "x = round_pos x" using assms by (auto simp: is_double_def toDouble_def Let_def split: if_splits)
  then obtain y :: int where y: "x = of_int y * exp2 ?u" unfolding round_pos_def Let_def by metis
  define m :: nat where "m = 1074"
  have "int m = 1074" by (simp add: m_def)
  with exp10_nat [of m] have m: "exp10 1074 = 10 ^ m" by (simp only:)
  have "- int m \<le> ?u" by (simp add: m_def)
  from scaled_integer [OF this, of y] have z: "x * exp10 1074 = of_int (y * 2 ^ nat (?u + int m) * 5 ^ m)"
    unfolding m y [symmetric] .
  have "0 < of_int y * exp2 ?u" unfolding y [symmetric] by (rule assms(2))
  then have "0 < y" using exp2_pos [of ?u] by (simp add: zero_less_mult_iff less_asym)
  then have "1 \<le> y * 2 ^ nat (?u + int m) * 5 ^ m" by (simp add: zero_less_mult_iff int_one_le_iff_zero_less)
  with z that show thesis by blast
qed

text \<open>What the search answers: digits in range, whose decimal rounds to the number.\<close>

definition digits_of :: "rat \<Rightarrow> nat \<times> int \<times> int \<Rightarrow> bool" where
  "digits_of x r \<longleftrightarrow> (case r of (k, s, n) \<Rightarrow>
     0 < k \<and> 10 ^ (k - 1) \<le> s \<and> s < 10 ^ k \<and> toDouble (of_int s * exp10 (n - int k)) = Fin x)"

lemma round_even_near: "\<lfloor>x\<rfloor> \<le> round_even x \<and> round_even x \<le> \<lceil>x\<rceil>"
proof (cases "x = of_int \<lfloor>x\<rfloor>")
  case True
  then show ?thesis by (metis ceiling_of_int order_refl round_even_int)
next
  case False
  then have "\<lceil>x\<rceil> = \<lfloor>x\<rfloor> + 1" by (simp add: ceiling_altdef)
  then show ?thesis by (simp add: round_even_def Let_def)
qed

lemma digits_at_range:
  assumes x: "exp10 (n - 1) \<le> x" "x < exp10 n" and k: "0 < k" and d: "digits_at x n k = (s, m)"
  shows "10 ^ (k - 1) \<le> s \<and> s < 10 ^ k"
proof -
  let ?y = "x * exp10 (int k - n)" and ?r = "round_even (x * exp10 (int k - n))"
  have "exp10 (n - 1) * exp10 (int k - n) \<le> ?y" using x(1) by (simp add: mult_right_mono less_imp_le)
  moreover have "exp10 (n - 1) * exp10 (int k - n) = 10 ^ (k - 1)"
    using k exp10_nat [of "k - 1"] by (simp add: exp10_add [symmetric] of_nat_diff)
  ultimately have lo: "of_int (10 ^ (k - 1)) \<le> ?y" by simp
  have "?y < exp10 n * exp10 (int k - n)" using x(2) by (simp add: mult_strict_right_mono)
  moreover have "exp10 n * exp10 (int k - n) = 10 ^ k" by (simp add: exp10_add [symmetric])
  ultimately have hi: "?y < of_int (10 ^ k)" by simp
  have "10 ^ (k - 1) \<le> \<lfloor>?y\<rfloor>" using lo by (simp only: le_floor_iff)
  moreover have "\<lceil>?y\<rceil> \<le> 10 ^ k" using hi by (simp only: ceiling_le_iff less_imp_le)
  ultimately have "10 ^ (k - 1) \<le> ?r" "?r \<le> 10 ^ k" using round_even_near [of ?y] by linarith+
  moreover have "(10 :: int) ^ (k - 1) < 10 ^ k" using k by (intro power_strict_increasing) auto
  ultimately show ?thesis using d by (auto simp: digits_at_def Let_def split: if_splits)
qed

lemma search_digits_ok:
  assumes x: "exp10 (n - 1) \<le> x" "x < exp10 n" and k: "0 < k"
    and exact: "x * exp10 (int (k + fuel) - n) = of_int z" and double: "is_double x"
  shows "digits_of x (search_digits x n k fuel)"
  using k exact
proof (induction fuel arbitrary: k)
  case 0
  obtain s m where d: "digits_at x n k = (s, m)" by fastforce
  have z: "z < 10 ^ k" 
  proof -
    have "x * exp10 (int k - n) < exp10 n * exp10 (int k - n)" using x(2) by (simp add: mult_strict_right_mono)
    also have "\<dots> = of_int (10 ^ k)" by (simp add: exp10_add [symmetric])
    finally have "of_int z < (of_int (10 ^ k) :: rat)" using 0 by simp
    then show ?thesis by (simp only: of_int_less_iff)
  qed
  then have "s = z" "m = n" using d 0 by (auto simp: digits_at_def Let_def)
  moreover have "of_int z * exp10 (n - int k) = x"
  proof -
    have "of_int z * exp10 (n - int k) = x * (exp10 (int k - n) * exp10 (n - int k))" using 0 by simp
    also have "exp10 (int k - n) * exp10 (n - int k) = 1" by (simp add: exp10_add [symmetric] exp10_def)
    finally show ?thesis by simp
  qed
  ultimately show ?case
    using digits_at_range [OF x 0(1) d] d 0(1) double by (simp add: digits_of_def is_double_def)
next
  case (Suc fuel)
  obtain s m where d: "digits_at x n k = (s, m)" by fastforce
  show ?case
  proof (cases "toDouble (of_int s * exp10 (m - int k)) = Fin x")
    case True
    with digits_at_range [OF x Suc.prems(1) d] d Suc.prems(1) show ?thesis by (simp add: digits_of_def)
  next
    case False
    with Suc.IH [of "k + 1"] Suc.prems d show ?thesis by (simp add: algebra_simps)
  qed
qed

lemma shortest_digits_ok:
  assumes "is_double x" and "0 < x"
  shows "digits_of x (shortest_digits x)"
proof -
  let ?n = "decimal_exponent x"
  note b = decimal_exponent_bounds [OF assms(2)]
  obtain z where z: "x * exp10 1074 = of_int z" "1 \<le> z" using double_scaled [OF assms] .
  have "exp10 (- 1074) * exp10 1074 = 1" by (simp add: exp10_add [symmetric])
  also have "1 \<le> x * exp10 1074" using z by simp
  finally have "exp10 (- 1074) \<le> x" by (rule mult_right_le_imp_le) simp
  then have "exp10 (- 1074) < exp10 ?n" using b by simp
  then have n: "- 1074 < ?n" by (simp only: exp10_less_iff)
  then have "int (1 + (nat (?n + 1074) - 1)) - ?n = 1074" by simp
  then have "x * exp10 (int (1 + (nat (?n + 1074) - 1)) - ?n) = of_int z" using z(1) by (simp only:)
  then show ?thesis
    unfolding shortest_digits_def Let_def using b by (intro search_digits_ok assms) auto
qed

text \<open>The text's digits, and reading the five layouts.\<close>

lemma show_nat_is_digit [simp]: "list_all is_digit (show_nat n)"
  using show_nat_digits by (auto simp: list_all_iff is_digit_def)

lemma zeros_digits [simp]: "list_all is_digit (zeros n)" "length (zeros n) = n"
  by (simp_all add: zeros_def list_all_iff is_digit_def)

lemma length_show_nat: "0 < k \<Longrightarrow> 10 ^ (k - 1) \<le> n \<Longrightarrow> n < 10 ^ k \<Longrightarrow> length (show_nat n) = k"
proof (induction k arbitrary: n)
  case (Suc k)
  show ?case
  proof (cases k)
    case 0
    with Suc.prems show ?thesis by (simp add: show_nat.simps [of n])
  next
    case (Suc j)
    with Suc.prems have "10 * 10 ^ j \<le> n" by simp
    moreover have "1 \<le> (10 :: nat) ^ j" by simp
    ultimately have "10 \<le> n" by linarith
    moreover have "10 ^ (k - 1) \<le> n div 10" "n div 10 < 10 ^ k"
      using Suc.prems Suc by (auto simp: less_eq_div_iff_mult_less_eq less_mult_imp_div_less mult.commute)
    ultimately show ?thesis using Suc.IH [of "n div 10"] Suc by (simp add: show_nat.simps [of n])
  qed
qed simp

lemma hd_show_nat: "0 < n \<Longrightarrow> hd (show_nat n) \<noteq> 48"
proof (induction n rule: show_nat.induct)
  case (1 n)
  then show ?case by (cases "n < 10") (auto simp: show_nat.simps [of n])
qed

lemma foldl_digits: "foldl (\<lambda>acc u. 10 * acc + (u - 48)) a s = a * 10 ^ length s + read_nat s"
proof (induction s arbitrary: a)
  case (Cons u s)
  have "read_nat (u # s) = foldl (\<lambda>acc u. 10 * acc + (u - 48)) (u - 48) s" by (simp add: read_nat_def)
  then have "read_nat (u # s) = (u - 48) * 10 ^ length s + read_nat s" by (simp only: Cons.IH)
  then show ?case by (simp only: foldl_Cons Cons.IH length_Cons power_Suc) (simp only: algebra_simps)
qed (simp add: read_nat_def)

lemma read_nat_append: "read_nat (a @ b) = read_nat a * 10 ^ length b + read_nat b"
proof -
  have "read_nat (a @ b) = foldl (\<lambda>acc u. 10 * acc + (u - 48)) (read_nat a) b" by (simp add: read_nat_def)
  then show ?thesis by (simp only: foldl_digits)
qed

lemma read_nat_zero: "read_nat (48 # s) = read_nat s"
  by (simp add: read_nat_def)

lemma read_nat_zeros [simp]: "read_nat (zeros n) = 0"
  by (induction n) (auto simp: zeros_def read_nat_def)

definition digits_end :: "jstring \<Rightarrow> bool" where
  "digits_end r \<longleftrightarrow> r = [] \<or> \<not> is_digit (hd r)"

lemma take_digits:
  assumes "list_all is_digit w" and "digits_end r"
  shows "takeWhile is_digit (w @ r) = w" and "dropWhile is_digit (w @ r) = r"
  using assms by (cases r; auto simp: list_all_iff digits_end_def takeWhile_append)+

lemma read_unsigned_whole:
  assumes "list_all is_digit w" "w \<noteq> []" "hd w = 48 \<Longrightarrow> w = [48]" and "digits_end r" "r = [] \<or> hd r \<noteq> 46"
  shows "read_unsigned (w @ r) = map_option (\<lambda>(e, rest). (of_nat (read_nat w) * exp10 e, rest)) (read_exponent r)"
  using assms(2,3,5) unfolding read_unsigned_def Let_def take_digits [OF assms(1,4)] by auto

lemma read_unsigned_fraction:
  assumes "list_all is_digit w" "w \<noteq> []" "hd w = 48 \<Longrightarrow> w = [48]"
    and "list_all is_digit f" "f \<noteq> []" and "digits_end r"
  shows "read_unsigned (w @ 46 # f @ r) =
    map_option (\<lambda>(e, rest). (of_nat (read_nat (w @ f)) * exp10 (e - int (length f)), rest)) (read_exponent r)"
proof -
  have "digits_end (46 # f @ r)" by (simp add: digits_end_def is_digit_def)
  note t = take_digits [OF assms(1) this] take_digits [OF assms(4,6)]
  show ?thesis using assms(2,3,5) unfolding read_unsigned_def Let_def t by (auto simp: t)
qed

definition number_end :: "jstring \<Rightarrow> bool" where
  "number_end r \<longleftrightarrow> r = [] \<or> \<not> is_digit (hd r) \<and> hd r \<notin> {46, 101, 69}"

lemma read_exponent_none: "number_end r \<Longrightarrow> read_exponent r = Some (0, r)"
  by (cases r) (auto simp: number_end_def read_exponent_def)

lemma read_exponent_some:
  assumes "digits_end r"
  shows "read_exponent (101 # (if 0 \<le> e then 43 else 45) # show_nat (nat \<bar>e\<bar>) @ r) = Some (e, r)"
  using take_digits [OF show_nat_is_digit assms, of "nat \<bar>e\<bar>"] by (auto simp: read_exponent_def Let_def)

lemma read_positive_text:
  assumes x: "is_double x" "0 < x" and r: "number_end r"
  shows "\<exists>y. read_unsigned (positive_text x @ r) = Some (y, r) \<and> toDouble y = Fin x"
proof -
  obtain k s n where d: "shortest_digits x = (k, s, n)" by (cases "shortest_digits x")
  have k: "0 < k" "10 ^ (k - 1) \<le> s" "s < 10 ^ k" and y: "toDouble (of_int s * exp10 (n - int k)) = Fin x"
    using shortest_digits_ok [OF x] by (auto simp: d digits_of_def)
  define ds where "ds = show_nat (nat s)"
  have s: "0 < s" using k(2) by (meson less_le_trans zero_less_numeral zero_less_power)
  have "10 ^ (k - 1) \<le> nat s" "nat s < 10 ^ k"
    using k(2,3) s by (simp_all add: le_nat_iff nat_less_iff)
  then have len: "length ds = k" unfolding ds_def by (intro length_show_nat k(1))
  have ds: "ds \<noteq> []" "hd ds \<noteq> 48" "list_all is_digit ds" "read_nat ds = nat s"
    using hd_show_nat [of "nat s"] s by (simp_all add: ds_def)
  have val: "(of_nat (nat s) :: rat) = of_int s" using s by simp
  have ends: "digits_end r" "r = [] \<or> hd r \<noteq> 46" "digits_end (101 # q)" for q
    using r by (auto simp: number_end_def digits_end_def is_digit_def)
  have tk: "list_all is_digit (take j ds)" "list_all is_digit (drop j ds)" for j
    using ds(3) by (auto simp: list_all_iff dest: in_set_takeD in_set_dropD)
  have hdt: "0 < j \<Longrightarrow> hd (take j ds) \<noteq> 48" "0 < j \<Longrightarrow> take j ds \<noteq> []" for j using ds(1,2) by (cases ds; cases j; simp)+
  define e where "e = n - 1"
  let ?t = "positive_text x"
  note shown = positive_text_def d prod.case Let_def ds_def [symmetric] e_def [symmetric]
  consider (whole) "int k \<le> n" "n \<le> 21" | (point) "n < int k" "0 < n" "n \<le> 21" | (small) "n < int k" "- 6 < n" "n \<le> 0"
    | (one) "n > 21 \<or> n \<le> - 6" "k = 1" | (many) "n > 21 \<or> n \<le> - 6" "1 < k" using k(1) by linarith
  then have "read_unsigned (?t @ r) = Some (of_int s * exp10 (n - int k), r)"
  proof cases
    case whole
    then have "exp10 (n - int k) = 10 ^ nat (n - int k)" using exp10_nat [of "nat (n - int k)"] by simp
    with whole read_unsigned_whole [of "ds @ zeros (nat (n - int k))" r] ds ends read_exponent_none [OF r] val
    show ?thesis by (simp add: shown read_nat_append)
  next
    case point
    with read_unsigned_fraction [of "take (nat n) ds" "drop (nat n) ds" r] ds(4) tk hdt [of "nat n"] ends len
      read_exponent_none [OF r] val show ?thesis by (simp add: shown)
  next
    case small
    with read_unsigned_fraction [of "[48]" "zeros (nat (- n)) @ ds" r] ds ends len read_exponent_none [OF r] val
    show ?thesis by (simp add: shown read_nat_append read_nat_zero is_digit_def algebra_simps)
  next
    case one
    then have t: "?t = ds @ 101 # (if 0 \<le> e then 43 else 45) # show_nat (nat \<bar>e\<bar>)"
      by (auto simp: shown)
    from one read_unsigned_whole [of ds "101 # (if 0 \<le> e then 43 else 45) # show_nat (nat \<bar>e\<bar>) @ r"]
      read_exponent_some [OF ends(1), of e] ds ends val
    show ?thesis unfolding t by (simp add: e_def)
  next
    case many
    then have t: "?t = take 1 ds @ 46 # drop 1 ds @ 101 # (if 0 \<le> e then 43 else 45) # show_nat (nat \<bar>e\<bar>)"
      by (auto simp: shown)
    have "drop 1 ds \<noteq> []" using many(2) len by simp
    with read_unsigned_fraction [of "take 1 ds" "drop 1 ds" "101 # (if 0 \<le> e then 43 else 45) # show_nat (nat \<bar>e\<bar>) @ r"]
      read_exponent_some [OF ends(1), of e] ds(4) tk hdt [of 1] ends len val many(2)
    show ?thesis unfolding t by (simp add: e_def of_nat_diff)
  qed
  with y show ?thesis by blast
qed

lemma toDouble_minus: "toDouble y = Fin z \<Longrightarrow> toDouble (- y) = Fin (- z)"
  by (auto simp: toDouble_def Let_def split: if_splits)

lemma positive_text_head: "0 < x \<Longrightarrow> is_double x \<Longrightarrow> positive_text x \<noteq> [] \<and> is_digit (hd (positive_text x))"
proof -
  assume x: "0 < x" "is_double x"
  obtain k s n where d: "shortest_digits x = (k, s, n)" by (cases "shortest_digits x")
  have hd: "is_digit (hd (show_nat m))" for m
    using show_nat_is_digit [of m] by (cases "show_nat m") (auto dest: arg_cong [of "show_nat m" "[]" length])
  have "take (nat n) (show_nat m) \<noteq> [] \<and> is_digit (hd (take (nat n) (show_nat m)))" if "0 < n" for m
    using hd [of m] that by (cases "show_nat m"; cases "nat n") auto
  moreover have "take 1 (show_nat m) \<noteq> [] \<and> is_digit (hd (take 1 (show_nat m)))" for m
    using hd [of m] by (cases "show_nat m") auto
  ultimately show ?thesis
    using hd by (auto simp: positive_text_def d Let_def is_digit_def [of 48])
qed

lemma read_number_text:
  assumes x: "is_double x" and r: "number_end r"
  shows "read_number (num_text (Fin x) @ r) = Some (Fin x, r)"
proof -
  consider "x = 0" | "0 < x" | "x < 0" by linarith
  then show ?thesis
  proof cases
    case 1
    have "read_unsigned ([48] @ r) = Some (0, r)"
      using read_unsigned_whole [of "[48]" r] r read_exponent_none [OF r]
      by (simp add: is_digit_def number_end_def digits_end_def read_nat_def) auto
    with 1 show ?thesis by (simp add: read_number_def toDouble_def)
  next
    case 2
    with read_positive_text [OF x 2 r] positive_text_head [OF 2 x] show ?thesis
      by (auto simp: read_number_def is_digit_def)
  next
    case 3
    have "is_double (- x)" using toDouble_minus x by (simp add: is_double_def)
    with read_positive_text [of "- x" r] 3 r toDouble_minus show ?thesis
      by (fastforce simp: read_number_def)
  qed
qed

lemma num_text_head: "is_double x \<Longrightarrow> num_text (Fin x) \<noteq> [] \<and> (hd (num_text (Fin x)) = 45 \<or> is_digit (hd (num_text (Fin x))))"
  using positive_text_head [of x] by (auto simp: is_digit_def [of 48])

end
