(* ===== verification/JS_Object.thy ===== *)
theory JS_Object
  imports JS_Json
begin

text \<open>
  Objects as the language enumerates them. The lemmas show that building an object always gives
  its properties in the order of enumeration, each key once, and that a list already in that order
  is built unchanged.
\<close>

definition enumerated :: "jstring list \<Rightarrow> bool" where
  "enumerated ks \<longleftrightarrow>
     sorted_wrt (\<lambda>a b. a \<noteq> b \<and> (index_key b \<longrightarrow> index_key a \<and> read_nat a < read_nat b)) ks"

lemma enumerated_distinct: "enumerated ks \<Longrightarrow> distinct ks"
  by (induction ks) (auto simp: enumerated_def)

lemma obj_set_last:
  assumes "\<forall>q\<in>set qs. fst q \<noteq> k \<and> (index_key k \<longrightarrow> index_key (fst q) \<and> read_nat (fst q) < read_nat k)"
  shows "obj_set k v qs = qs @ [(k, v)]"
proof -
  have "index_key k \<Longrightarrow> insert_index k v qs = qs @ [(k, v)]"
    using assms by (induction qs) auto
  with assms show ?thesis by (auto simp: obj_set_def)
qed

lemma obj_of_snoc: "obj_of (ps @ [(k, v)]) = obj_set k v (obj_of ps)"
  by (simp add: obj_of_def)

lemma obj_of_enumerated: "enumerated (map fst ps) \<Longrightarrow> obj_of ps = ps"
proof (induction ps rule: rev_induct)
  case (snoc p ps)
  obtain k v where p: "p = (k, v)" by (cases p)
  from snoc have "obj_of ps = ps" by (auto simp: enumerated_def sorted_wrt_append)
  with snoc.prems show ?case by (auto simp: p obj_of_snoc enumerated_def sorted_wrt_append intro!: obj_set_last)
qed (simp add: obj_of_def)

section \<open>The order of enumeration\<close>

lemma show_read_nat:
  assumes "list_all is_digit k" and "k \<noteq> []" and "hd k = 48 \<longrightarrow> k = [48]"
  shows "show_nat (read_nat k) = k"
  using assms
proof (induction k rule: rev_induct)
  case (snoc c k)
  obtain e where c: "c = 48 + e" "e < 10"
    using snoc.prems by (auto simp: is_digit_def dest!: le_Suc_ex)
  have r: "read_nat (k @ [c]) = 10 * read_nat k + e" by (simp add: read_nat_def c)
  show ?case
  proof (cases k)
    case Nil
    with c r show ?thesis by (simp add: show_nat.simps [of e] read_nat_def)
  next
    case (Cons d ds)
    then have k: "show_nat (read_nat k) = k" using snoc by auto
    have "hd k \<noteq> 48" using snoc.prems Cons by auto
    then have "read_nat k \<noteq> 0" using k by (metis list.sel(1) show_nat.simps zero_less_numeral add_0_right)
    then have "show_nat (10 * read_nat k + e) = show_nat (read_nat k) @ [48 + e]"
      using c(2) by (subst show_nat.simps) simp
    with c k r show ?thesis by simp
  qed
qed simp

lemma index_key_inj: "index_key a \<Longrightarrow> index_key b \<Longrightarrow> read_nat a = read_nat b \<Longrightarrow> a = b"
  by (metis index_key_def show_read_nat)

lemma insert_index_set: "set (insert_index k v ps) = insert (k, v) (set ps)"
  by (induction k v ps rule: insert_index.induct) (simp, simp, blast)

lemma enumerated_insert:
  assumes "index_key k" and "k \<notin> fst ` set ps" and "enumerated (map fst ps)"
  shows "enumerated (map fst (insert_index k v ps))"
  using assms(2,3)
proof (induction ps)
  case (Cons p ps)
  obtain k' v' where p: "p = (k', v')" by (cases p)
  show ?case
  proof (cases "index_key k' \<and> read_nat k' < read_nat k")
    case True
    with Cons p show ?thesis by (auto simp: enumerated_def insert_index_set)
  next
    case False
    have "read_nat k < read_nat b" if "b \<in> insert k' (fst ` set ps)" "index_key b" for b
    proof -
      have "index_key k'" and le: "read_nat k' \<le> read_nat b" using that Cons.prems(2) p by (auto simp: enumerated_def)
      moreover have "k \<noteq> k'" using Cons.prems(1) p by auto
      ultimately have "read_nat k \<noteq> read_nat k'" using assms(1) index_key_inj by blast
      with False \<open>index_key k'\<close> le show ?thesis by linarith
    qed
    with False Cons.prems p assms(1) show ?thesis by (auto simp: enumerated_def)
  qed
qed (simp add: enumerated_def)

lemma enumerated_obj_set: "enumerated (map fst ps) \<Longrightarrow> enumerated (map fst (obj_set k v ps))"
proof -
  assume e: "enumerated (map fst ps)"
  consider "k \<in> fst ` set ps" | "k \<notin> fst ` set ps" "index_key k" | "k \<notin> fst ` set ps" "\<not> index_key k" by blast
  then show ?thesis
  proof cases
    case 1
    then have "map fst (obj_set k v ps) = map fst ps" by (auto simp: obj_set_def)
    with e show ?thesis by simp
  next
    case 2
    with e show ?thesis by (simp add: obj_set_def enumerated_insert)
  next
    case 3
    with e show ?thesis by (auto simp: obj_set_def enumerated_def sorted_wrt_append)
  qed
qed

lemma enumerated_obj_of: "enumerated (map fst (obj_of ps))"
proof (induction ps rule: rev_induct)
  case (snoc p ps)
  then show ?case by (cases p) (simp add: obj_of_snoc enumerated_obj_set)
qed (simp add: obj_of_def enumerated_def)

lemma obj_of_in: "p \<in> set (obj_of ps) \<Longrightarrow> p \<in> set ps"
proof (induction ps rule: rev_induct)
  case (snoc q ps)
  then show ?case by (cases q) (auto simp: obj_of_snoc obj_set_def insert_index_set split: if_splits)
qed (simp add: obj_of_def)

lemma obj_set_keys: "fst ` set (obj_set k v ps) = insert k (fst ` set ps)"
proof (cases "k \<in> fst ` set ps")
  case True
  then have "map fst (obj_set k v ps) = map fst ps" by (auto simp: obj_set_def)
  then have "fst ` set (obj_set k v ps) = fst ` set ps" by (metis set_map)
  with True show ?thesis by (simp add: insert_absorb)
next
  case False
  then show ?thesis by (simp add: obj_set_def insert_index_set)
qed

lemma obj_of_keys: "fst ` set (obj_of ps) = fst ` set ps"
proof (induction ps rule: rev_induct)
  case (snoc q ps)
  then show ?case by (cases q) (simp add: obj_of_snoc obj_set_keys)
qed (simp add: obj_of_def)

end
