(* ===== verification/JS_Spelling.thy ===== *)
theory JS_Spelling
  imports JS_Object
begin

text \<open>
  The texts that spell a JSON value, whatever white space stands between its marks, and the proof
  that the language reads each of them back to that value. A component that writes JSON shows that
  what it writes spells what it means.
\<close>

definition blank :: "jstring \<Rightarrow> bool" where
  "blank w \<longleftrightarrow> list_all json_space w"

inductive spells :: "jstring \<Rightarrow> json \<Rightarrow> bool"
  and spells_items :: "jstring \<Rightarrow> json list \<Rightarrow> bool"
  and spells_members :: "jstring \<Rightarrow> (jstring \<times> json) list \<Rightarrow> bool" where
  spells_null: "spells (js ''null'') JNull"
| spells_true: "spells (js ''true'') (JBool True)"
| spells_false: "spells (js ''false'') (JBool False)"
| spells_number: "is_double x \<Longrightarrow> spells (num_text (Fin x)) (JNum (Fin x))"
| spells_string: "units_ok s \<Longrightarrow> spells (quote_json s) (JStr s)"
| spells_no_items: "blank w \<Longrightarrow> spells (91 # w @ [93]) (JArr [])"
| spells_array: "blank w \<Longrightarrow> spells_items ts vs \<Longrightarrow> spells (91 # w @ ts @ [93]) (JArr vs)"
| spells_no_members: "blank w \<Longrightarrow> spells (123 # w @ [125]) (JObj [])"
| spells_object: "blank w \<Longrightarrow> spells_members ts ps \<Longrightarrow> spells (123 # w @ ts @ [125]) (JObj (obj_of ps))"
| spells_item: "spells t v \<Longrightarrow> blank w \<Longrightarrow> spells_items (t @ w) [v]"
| spells_more_items: "spells t v \<Longrightarrow> blank w \<Longrightarrow> spells_items ts vs \<Longrightarrow> spells_items (t @ 44 # w @ ts) (v # vs)"
| spells_member: "units_ok k \<Longrightarrow> blank w' \<Longrightarrow> spells t v \<Longrightarrow> blank w \<Longrightarrow>
    spells_members (quote_json k @ 58 # w' @ t @ w) [(k, v)]"
| spells_more_members: "units_ok k \<Longrightarrow> blank w' \<Longrightarrow> spells t v \<Longrightarrow> blank w \<Longrightarrow> spells_members ts ps \<Longrightarrow>
    spells_members (quote_json k @ 58 # w' @ t @ 44 # w @ ts) ((k, v) # ps)"

text \<open>What may follow a value, and what a value starts with.\<close>

definition value_end :: "jstring \<Rightarrow> bool" where
  "value_end r \<longleftrightarrow> r = [] \<or> hd r \<in> {44, 93, 125} \<or> json_space (hd r)"

definition value_head :: "jstring \<Rightarrow> bool" where
  "value_head s \<longleftrightarrow> s \<noteq> [] \<and> \<not> json_space (hd s) \<and> hd s \<notin> {93, 125}"

lemma value_end_number: "value_end r \<Longrightarrow> number_end r"
  by (auto simp: value_end_def number_end_def is_digit_def json_space_def)

lemma value_end_blank: "blank w \<Longrightarrow> value_end r \<Longrightarrow> value_end (w @ r)"
  by (cases w) (auto simp: blank_def value_end_def)

lemma value_end_marks [simp]: "value_end (44 # r)" "value_end (93 # r)" "value_end (125 # r)" "value_end []"
  by (simp_all add: value_end_def)

lemma value_head_append [simp]: "value_head s \<Longrightarrow> value_head (s @ t)"
  by (cases s) (auto simp: value_head_def)

lemma value_head_quote [simp]: "value_head (quote_json k @ t)"
  by (simp add: value_head_def quote_json_def json_space_def)

lemma skip_blank: "blank w \<Longrightarrow> skip_space (w @ r) = skip_space r"
  by (auto simp: blank_def skip_space_def list_all_iff dropWhile_append1 dropWhile_append)

lemma skip_head: "value_head s \<Longrightarrow> skip_space (s @ r) = s @ r"
  by (cases s) (auto simp: value_head_def skip_space_def)

lemma skip_marks [simp]:
  "skip_space (44 # r) = 44 # r" "skip_space (93 # r) = 93 # r" "skip_space (125 # r) = 125 # r"
  "skip_space (58 # r) = 58 # r" "skip_space [] = []"
  by (simp_all add: skip_space_def json_space_def)

definition read_as :: "jstring \<Rightarrow> json \<Rightarrow> bool" where
  "read_as t v \<longleftrightarrow> value_head t \<and> (\<forall>fuel r. length t \<le> fuel \<longrightarrow> value_end r \<longrightarrow> read_value fuel (t @ r) = Some (v, r))"

definition read_as_items :: "jstring \<Rightarrow> json list \<Rightarrow> bool" where
  "read_as_items t vs \<longleftrightarrow> value_head t \<and> (\<forall>fuel r. length t < fuel \<longrightarrow> read_items fuel (t @ 93 # r) = Some (vs, r))"

definition read_as_members :: "jstring \<Rightarrow> (jstring \<times> json) list \<Rightarrow> bool" where
  "read_as_members t ps \<longleftrightarrow> value_head t \<and> (\<forall>fuel r. length t < fuel \<longrightarrow> read_members fuel (t @ 125 # r) = Some (ps, r))"

lemma read_asI:
  assumes "value_head t" and "\<And>f r. length t \<le> Suc f \<Longrightarrow> value_end r \<Longrightarrow> read_value (Suc f) (t @ r) = Some (v, r)"
  shows "read_as t v"
proof -
  have "read_value fuel (t @ r) = Some (v, r)" if "length t \<le> fuel" "value_end r" for fuel r
    using assms that by (cases fuel) (auto simp: value_head_def simp del: read_value.simps(2))
  with assms(1) show ?thesis by (simp add: read_as_def)
qed

lemma read_as_number: "is_double x \<Longrightarrow> read_as (num_text (Fin x)) (JNum (Fin x))"
proof -
  assume x: "is_double x"
  obtain c s where s: "num_text (Fin x) = c # s" and c: "c = 45 \<or> is_digit c"
    using num_text_head [OF x] by (cases "num_text (Fin x)") auto
  have "c \<notin> {34, 91, 123}" using c by (auto simp: is_digit_def)
  then have "read_value (Suc f) (num_text (Fin x) @ r) = Some (JNum (Fin x), r)" if "value_end r" for f r
    using read_number_text [OF x value_end_number [OF that]] s c by (auto simp del: num_text.simps)
  moreover have "value_head (num_text (Fin x))"
    using s c by (auto simp: value_head_def json_space_def is_digit_def simp del: num_text.simps)
  ultimately show ?thesis by (intro read_asI) (auto simp del: num_text.simps read_value.simps)
qed

lemma read_as_quoted: "units_ok s \<Longrightarrow> read_as (quote_json s) (JStr s)"
  using read_quoted [of s] by (intro read_asI) (simp_all add: value_head_def json_space_def quote_json_def)

lemma read_as_array:
  assumes "blank w" and "read_as_items ts vs"
  shows "read_as (91 # w @ ts @ [93]) (JArr vs)"
proof (rule read_asI)
  fix f r assume "length (91 # w @ ts @ [93]) \<le> Suc f"
  then have items: "read_items f (ts @ 93 # r) = Some (vs, r)" and h: "value_head ts"
    using assms(2) by (auto simp: read_as_items_def)
  obtain c s where "ts @ 93 # r = c # s" "c \<noteq> 93" using h by (cases ts) (auto simp: value_head_def)
  with items skip_head [OF h, of "93 # r"] show "read_value (Suc f) ((91 # w @ ts @ [93]) @ r) = Some (JArr vs, r)"
    by (simp add: skip_blank [OF assms(1)])
qed (simp add: value_head_def json_space_def)

lemma read_as_object:
  assumes "blank w" and "read_as_members ts ps"
  shows "read_as (123 # w @ ts @ [125]) (JObj (obj_of ps))"
proof (rule read_asI)
  fix f r assume "length (123 # w @ ts @ [125]) \<le> Suc f"
  then have members: "read_members f (ts @ 125 # r) = Some (ps, r)" and h: "value_head ts"
    using assms(2) by (auto simp: read_as_members_def)
  obtain c s where "ts @ 125 # r = c # s" "c \<noteq> 125" using h by (cases ts) (auto simp: value_head_def)
  with members skip_head [OF h, of "125 # r"] show "read_value (Suc f) ((123 # w @ ts @ [125]) @ r) = Some (JObj (obj_of ps), r)"
    by (simp add: skip_blank [OF assms(1)])
qed (simp add: value_head_def json_space_def)

lemma read_as_item: "read_as t v \<Longrightarrow> blank w \<Longrightarrow> read_as_items (t @ w) [v]"
  unfolding read_as_items_def read_as_def
proof (intro conjI allI impI)
  fix fuel r
  assume t: "value_head t \<and> (\<forall>fuel r. length t \<le> fuel \<longrightarrow> value_end r \<longrightarrow> read_value fuel (t @ r) = Some (v, r))"
    and w: "blank w" and fuel: "length (t @ w) < fuel"
  obtain f where f: "fuel = Suc f" using fuel by (cases fuel) auto
  have "read_value f (t @ w @ 93 # r) = Some (v, w @ 93 # r)"
    using t fuel f value_end_blank [OF w] by simp
  then show "read_items fuel ((t @ w) @ 93 # r) = Some ([v], r)" by (simp add: f skip_blank [OF w])
qed simp

lemma read_as_more_items:
  assumes t: "read_as t v" and w: "blank w" and ts: "read_as_items ts vs"
  shows "read_as_items (t @ 44 # w @ ts) (v # vs)"
  unfolding read_as_items_def
proof (intro conjI allI impI)
  fix fuel r assume fuel: "length (t @ 44 # w @ ts) < fuel"
  then obtain f where f: "fuel = Suc f" by (cases fuel) auto
  have "read_value f (t @ 44 # w @ ts @ 93 # r) = Some (v, 44 # w @ ts @ 93 # r)"
    using t fuel f by (simp add: read_as_def)
  moreover have "read_items f (ts @ 93 # r) = Some (vs, r)" and "skip_space (ts @ 93 # r) = ts @ 93 # r"
    using ts fuel f by (simp_all add: read_as_items_def skip_head)
  ultimately show "read_items fuel ((t @ 44 # w @ ts) @ 93 # r) = Some (v # vs, r)"
    by (simp add: f skip_blank [OF w])
qed (use t in \<open>simp add: read_as_def\<close>)

lemma read_key:
  assumes "units_ok k" and "blank w'" and "value_head t" and "read_value f (t @ r) = Some (v, r)"
  shows "read_members (Suc f) (quote_json k @ 58 # w' @ t @ r) =
    (case skip_space r of [] \<Rightarrow> None
     | e # r' \<Rightarrow> if e = 125 then Some ([(k, v)], r')
         else if e = 44 then map_option (\<lambda>(ps, rest). ((k, v) # ps, rest)) (read_members f (skip_space r')) else None)"
  using assms read_quoted [OF assms(1)] by (simp add: quote_json_def skip_blank skip_head)

lemma read_as_member:
  assumes k: "units_ok k" "blank w'" and t: "read_as t v" and w: "blank w"
  shows "read_as_members (quote_json k @ 58 # w' @ t @ w) [(k, v)]"
  unfolding read_as_members_def
proof (intro conjI allI impI)
  fix fuel r assume fuel: "length (quote_json k @ 58 # w' @ t @ w) < fuel"
  then obtain f where f: "fuel = Suc f" by (cases fuel) auto
  have h: "value_head t" and v: "read_value f (t @ w @ 125 # r) = Some (v, w @ 125 # r)"
    using t fuel f value_end_blank [OF w] by (simp_all add: read_as_def)
  show "read_members fuel ((quote_json k @ 58 # w' @ t @ w) @ 125 # r) = Some ([(k, v)], r)"
    using read_key [OF k h v] by (simp add: f skip_blank [OF w] del: read_members.simps)
qed simp

lemma read_as_more_members:
  assumes k: "units_ok k" "blank w'" and t: "read_as t v" and w: "blank w" and ts: "read_as_members ts ps"
  shows "read_as_members (quote_json k @ 58 # w' @ t @ 44 # w @ ts) ((k, v) # ps)"
  unfolding read_as_members_def
proof (intro conjI allI impI)
  fix fuel r assume fuel: "length (quote_json k @ 58 # w' @ t @ 44 # w @ ts) < fuel"
  then obtain f where f: "fuel = Suc f" by (cases fuel) auto
  have h: "value_head t" and v: "read_value f (t @ 44 # w @ ts @ 125 # r) = Some (v, 44 # w @ ts @ 125 # r)"
    using t fuel f by (simp_all add: read_as_def)
  have "read_members f (ts @ 125 # r) = Some (ps, r)" and "skip_space (ts @ 125 # r) = ts @ 125 # r"
    using ts fuel f by (simp_all add: read_as_members_def skip_head)
  then show "read_members fuel ((quote_json k @ 58 # w' @ t @ 44 # w @ ts) @ 125 # r) = Some ((k, v) # ps, r)"
    using read_key [OF k h v] by (simp add: f skip_blank [OF w] del: read_members.simps)
qed simp

lemma spells_read:
  "spells t v \<Longrightarrow> read_as t v"
  "spells_items ts vs \<Longrightarrow> read_as_items ts vs"
  "spells_members ts ps \<Longrightarrow> read_as_members ts ps"
proof (induction rule: spells_spells_items_spells_members.inducts)
  case spells_null
  show ?case by (rule read_asI) (simp_all add: value_head_def json_space_def read_word_def is_digit_def)
next
  case spells_true
  show ?case by (rule read_asI) (simp_all add: value_head_def json_space_def read_word_def is_digit_def)
next
  case spells_false
  show ?case by (rule read_asI) (simp_all add: value_head_def json_space_def read_word_def is_digit_def)
next
  case (spells_no_items w)
  then show ?case by (intro read_asI) (simp_all add: value_head_def json_space_def skip_blank)
next
  case (spells_no_members w)
  then show ?case by (intro read_asI) (simp_all add: value_head_def json_space_def skip_blank)
qed (simp_all only: read_as_number read_as_quoted read_as_array read_as_object read_as_item read_as_more_items
    read_as_member read_as_more_members)

theorem parse_spelled: "spells t v \<Longrightarrow> parse_json t = Some v"
proof -
  assume "spells t v"
  then have "read_as t v" by (rule spells_read)
  then have "read_value (length t + 1) (t @ []) = Some (v, [])" and "skip_space (t @ []) = t @ []"
    by (simp_all add: read_as_def skip_head del: read_value.simps append_Nil2)
  then show ?thesis by (simp add: parse_json_def del: read_value.simps)
qed

section \<open>Joined texts\<close>

lemma blank_simps [simp]: "blank []" "blank (c # w) \<longleftrightarrow> json_space c \<and> blank w" "blank (w @ w') \<longleftrightarrow> blank w \<and> blank w'"
  by (simp_all add: blank_def)

lemma spells_join_items:
  assumes "vs \<noteq> []" and "\<forall>v\<in>set vs. spells (f v) (g v)" and w: "blank w" "blank e"
  shows "spells_items (join_with (44 # w) (map f vs) @ e) (map g vs)"
  using assms(1,2)
proof (induction vs rule: list_nonempty_induct)
  case (single v)
  then show ?case using spells_item w(2) by simp
next
  case (cons v vs)
  then show ?case
    using spells_more_items [of "f v" "g v" w "join_with (44 # w) (map f vs) @ e"] w by (cases vs) simp_all
qed

lemma spells_join_members:
  assumes "ps \<noteq> []" and "\<forall>p\<in>set ps. units_ok (fst p) \<and> spells (f (snd p)) (g (snd p))"
    and w: "blank w'" "blank w" "blank e"
  shows "spells_members (join_with (44 # w) (map (\<lambda>p. quote_json (fst p) @ 58 # w' @ f (snd p)) ps) @ e)
    (map (\<lambda>p. (fst p, g (snd p))) ps)"
  using assms(1,2)
proof (induction ps rule: list_nonempty_induct)
  case (single p)
  then show ?case using spells_member w by simp
next
  case (cons p ps)
  then show ?case
    using spells_more_members [of "fst p" w' "f (snd p)" "g (snd p)" w] w by (cases ps) simp_all
qed

section \<open>Writers of JSON\<close>

text \<open>
  A component that writes JSON: on the values it is meant for, the text it writes spells what the
  value means on the wire. Its text then parses to that meaning, and two values written alike
  mean the same.
\<close>

locale json_writer =
  fixes writes :: "json \<Rightarrow> jstring"
    and means :: "json \<Rightarrow> json"
    and accepts :: "json \<Rightarrow> bool"
  assumes written: "accepts v \<Longrightarrow> spells (writes v) (means v)"
begin

lemma parse_written: "accepts v \<Longrightarrow> parse_json (writes v) = Some (means v)"
  by (rule parse_spelled [OF written])

lemma written_alike: "accepts v \<Longrightarrow> accepts w \<Longrightarrow> writes v = writes w \<Longrightarrow> means v = means w"
  using parse_written by (metis option.inject)

end

end
