(* ===== verification/Live_Topics.thy ===== *)
theory Live_Topics
  imports JS_Spelling "HOL-Library.List_Lexorder" "HOL-Library.AList" "HOL-Library.Multiset"
begin

text \<open>
  The live channel's topics, \<open>lib/live/topics.ts\<close>: how each resumes, and the key that names a topic
  with its parameters. The lemmas show that the key's text always reads back as JSON, and that
  two keys are one exactly when the topics and the parameters on the wire are.
\<close>

section \<open>Resuming\<close>

datatype resume_kind = Replay | Compare | NoResume

type_synonym resume_table = "(jstring \<times> resume_kind) list"

definition RESUME :: resume_table where
  "RESUME = [(js ''shell'', Compare), (js ''jobs'', Replay), (js ''firestore.changes'', Replay),
     (js ''firestore.rules'', Compare)]"

definition declareTopic :: "jstring \<Rightarrow> resume_kind \<Rightarrow> resume_table \<Rightarrow> resume_table" where
  "declareTopic topic resume table = AList.update topic resume table"

definition resumeOf :: "resume_table \<Rightarrow> jstring \<Rightarrow> resume_kind" where
  "resumeOf table topic = (case map_of table topic of Some k \<Rightarrow> k | None \<Rightarrow> Replay)"

section \<open>Keys\<close>

text \<open>\<open>parts.join(',')\<close>.\<close>

abbreviation join_comma :: "jstring list \<Rightarrow> jstring" where
  "join_comma \<equiv> join_with [44]"

definition wire_entries :: "(jstring \<times> json) list \<Rightarrow> (jstring \<times> json) list" where
  "wire_entries ps = sort_key fst (filter (\<lambda>p. snd p \<noteq> JUndefined) ps)"

function canonical :: "json \<Rightarrow> jstring" where
  "canonical (JArr vs) = 91 # join_comma (map canonical vs) @ [93]"
| "canonical (JObj ps) =
     123 # join_comma (map (\<lambda>p. quote_json (fst p) @ 58 # canonical (snd p)) (wire_entries ps)) @ [125]"
| "canonical JUndefined = js ''null''"
| "canonical JNull = js ''null''"
| "canonical (JBool b) = (if b then js ''true'' else js ''false'')"
| "canonical (JNum x) = (if is_finite x then num_text x else js ''null'')"
| "canonical (JStr s) = quote_json s"
  by pat_completeness auto
termination
proof (relation "measure size", goal_cases)
  case (2 vs x)
  then show ?case by (induction vs) auto
next
  case (3 ps p)
  then have "p \<in> set ps" by (simp add: wire_entries_def)
  then show ?case by (induction ps) auto
qed simp

definition topicKey :: "jstring \<Rightarrow> json \<Rightarrow> jstring" where
  "topicKey topic params = topic @ 32 # canonical params"

text \<open>\<open>wireParams\<close>; none where \<open>JSON.parse\<close> would throw.\<close>

definition wireParams :: "json \<Rightarrow> json option" where
  "wireParams params = parse_json (canonical params)"

section \<open>The text reads back\<close>

text \<open>What a value is on the wire: \<open>undefined\<close> fields left out, other values JSON has no word for as null.\<close>

function wire :: "json \<Rightarrow> json" where
  "wire (JArr vs) = JArr (map wire vs)"
| "wire (JObj ps) = JObj (obj_of (map (\<lambda>p. (fst p, wire (snd p))) (wire_entries ps)))"
| "wire JUndefined = JNull"
| "wire JNull = JNull"
| "wire (JBool b) = JBool b"
| "wire (JNum x) = (if is_finite x then JNum x else JNull)"
| "wire (JStr s) = JStr s"
  by pat_completeness auto
termination
proof (relation "measure size", goal_cases)
  case (2 vs x)
  then show ?case by (induction vs) auto
next
  case (3 ps p)
  then have "p \<in> set ps" by (simp add: wire_entries_def)
  then show ?case by (induction ps) auto
qed simp

text \<open>A value the language can hold: numbers that are doubles, UTF-16 units, an object's keys apart.\<close>

function json_ok :: "json \<Rightarrow> bool" where
  "json_ok (JArr vs) \<longleftrightarrow> (\<forall>v\<in>set vs. json_ok v)"
| "json_ok (JObj ps) \<longleftrightarrow> distinct (map fst ps) \<and> (\<forall>p\<in>set ps. units_ok (fst p) \<and> json_ok (snd p))"
| "json_ok (JNum (Fin x)) \<longleftrightarrow> is_double x"
| "json_ok (JStr s) \<longleftrightarrow> units_ok s"
| "json_ok (JNum PInf) \<longleftrightarrow> True"
| "json_ok (JNum NInf) \<longleftrightarrow> True"
| "json_ok (JNum NaN) \<longleftrightarrow> True"
| "json_ok JUndefined \<longleftrightarrow> True"
| "json_ok JNull \<longleftrightarrow> True"
| "json_ok (JBool b) \<longleftrightarrow> True"
  by pat_completeness auto
termination
proof (relation "measure size", goal_cases)
  case (2 vs x)
  then show ?case by (induction vs) auto
next
  case (3 ps p)
  then show ?case by (induction ps) auto
qed simp

lemma set_wire_entries: "p \<in> set (wire_entries ps) \<longleftrightarrow> p \<in> set ps \<and> snd p \<noteq> JUndefined"
  by (auto simp: wire_entries_def)

lemma spells_scalar:
  assumes "json_ok v" and "\<And>vs. v \<noteq> JArr vs" and "\<And>ps. v \<noteq> JObj ps"
  shows "spells (canonical v) (wire v)"
proof (cases v)
  case (JNum x)
  with assms(1) show ?thesis
    using spells_null by (cases x) (auto intro: spells_number simp: is_finite_def simp del: num_text.simps)
qed (use assms spells_null spells_true spells_false in \<open>auto intro: spells_string\<close>)

lemma spells_canonical: "json_ok v \<Longrightarrow> spells (canonical v) (wire v)"
proof (induction v rule: canonical.induct)
  case (1 vs)
  show ?case
  proof (cases "vs = []")
    case True
    then show ?thesis using spells_no_items [of "[]"] by simp
  next
    case False
    with 1 spells_array [of "[]", OF _ spells_join_items [of vs canonical wire "[]" "[]"]] show ?thesis by simp
  qed
next
  case (2 ps)
  show ?case
  proof (cases "wire_entries ps = []")
    case True
    then show ?thesis using spells_no_members [of "[]"] by (simp add: obj_of_def)
  next
    case False
    moreover have "\<forall>p\<in>set (wire_entries ps). units_ok (fst p) \<and> spells (canonical (snd p)) (wire (snd p))"
      using 2 by (auto simp: set_wire_entries)
    ultimately show ?thesis
      using spells_object [of "[]", OF _ spells_join_members [of "wire_entries ps" canonical wire "[]" "[]" "[]"]] by simp
  qed
qed (rule spells_scalar; simp)+

interpretation topic_text: json_writer canonical wire json_ok
  by unfold_locales (rule spells_canonical)

section \<open>One text for one meaning\<close>

lemma insert_index_mset: "mset (insert_index k v ps) = add_mset (k, v) (mset ps)"
  by (induction ps) auto

lemma obj_set_mset: "k \<notin> fst ` set ps \<Longrightarrow> mset (obj_set k v ps) = add_mset (k, v) (mset ps)"
  by (simp add: obj_set_def insert_index_mset)

lemma obj_of_mset: "distinct (map fst ps) \<Longrightarrow> mset (obj_of ps) = mset ps"
proof -
  have "distinct (map fst (qs @ ps)) \<Longrightarrow> mset (fold (\<lambda>(k, v). obj_set k v) ps qs) = mset ps + mset qs" for qs
  proof (induction ps arbitrary: qs)
    case (Cons p ps)
    obtain k v where p: "p = (k, v)" by (cases p)
    have m: "mset (obj_set k v qs) = add_mset (k, v) (mset qs)" using Cons.prems p by (intro obj_set_mset) auto
    then have "mset (map fst (obj_set k v qs @ ps)) = mset (map fst (qs @ p # ps))" by (simp add: p)
    then have "distinct (map fst (obj_set k v qs @ ps))" using Cons.prems by (metis mset_eq_imp_distinct_iff)
    with Cons.IH m p show ?case by simp
  qed simp
  then show "distinct (map fst ps) \<Longrightarrow> ?thesis" by (simp add: obj_of_def)
qed

lemma sort_key_same:
  fixes f :: "'a \<Rightarrow> 'b :: linorder"
  assumes "mset xs = mset ys" and "distinct (map f ys)" and "sorted (map f ys)"
  shows "sort_key f xs = ys"
proof (rule sort_key_inj_key_eq [OF assms(1) _ assms(3)])
  show "inj_on f (set xs)" using assms(2) mset_eq_setD [OF assms(1)] by (simp add: distinct_map)
qed

lemma wire_defined: "wire v \<noteq> JUndefined"
  by (cases v) auto

lemma distinct_wire_entries: "distinct (map fst ps) \<Longrightarrow> distinct (map fst (wire_entries ps))"
  unfolding wire_entries_def by (metis distinct_map_filter distinct_map mset_sort mset_map mset_eq_imp_distinct_iff)

lemma sorted_wire_entries: "sorted (map fst (wire_entries ps))"
  by (simp add: wire_entries_def)

lemma wire_entries_wire:
  assumes "distinct (map fst ps)"
  shows "wire_entries (obj_of (map (\<lambda>p. (fst p, wire (snd p))) (wire_entries ps))) =
    map (\<lambda>p. (fst p, wire (snd p))) (wire_entries ps)" (is "wire_entries (obj_of ?es) = ?es")
proof -
  have keys: "map fst ?es = map fst (wire_entries ps)" by simp
  have d: "distinct (map fst ?es)" unfolding keys by (rule distinct_wire_entries [OF assms])
  have m: "mset (obj_of ?es) = mset ?es" by (rule obj_of_mset [OF d])
  have "p \<in> set (obj_of ?es) \<Longrightarrow> snd p \<noteq> JUndefined" for p
    using mset_eq_setD [OF m] wire_defined by auto
  then have "filter (\<lambda>p. snd p \<noteq> JUndefined) (obj_of ?es) = obj_of ?es" by (intro filter_True) blast
  then show ?thesis
    unfolding wire_entries_def [of "obj_of ?es"]
    using sort_key_same [OF m d, unfolded keys, OF sorted_wire_entries] by simp
qed

lemma canonical_wire: "json_ok v \<Longrightarrow> canonical (wire v) = canonical v"
proof (induction v rule: canonical.induct)
  case (2 ps)
  have "map (\<lambda>p. quote_json (fst p) @ 58 # canonical (wire (snd p))) (wire_entries ps) =
      map (\<lambda>p. quote_json (fst p) @ 58 # canonical (snd p)) (wire_entries ps)"
    using 2 by (intro map_cong) (auto simp: set_wire_entries)
  then show ?case using 2(2) by (simp add: wire_entries_wire comp_def del: map_eq_conv)
next
  case (1 vs)
  then have "map (\<lambda>v. canonical (wire v)) vs = map canonical vs" by simp
  then show ?case by (simp add: comp_def del: map_eq_conv)
qed auto

section \<open>Properties\<close>

text \<open>
  C31. Parameters survive the wire: \<open>wireParams\<close> never throws on a value the language can hold,
  and what it answers names the same subscription. Two subscriptions have one key exactly when
  their topics are one and their parameters are the same on the wire, whatever the order of
  their fields and whichever of them are undefined.
\<close>

theorem topic_key_exact:
  assumes "json_ok p" and "json_ok q" and "32 \<notin> set t" and "32 \<notin> set u"
  shows "(\<exists>w. wireParams p = Some w \<and> topicKey t w = topicKey t p) \<and>
    (topicKey t p = topicKey u q \<longleftrightarrow> t = u \<and> wireParams p = wireParams q)"
proof -
  have split: "t @ 32 # a = u @ 32 # b \<longleftrightarrow> t = u \<and> a = b" for a b :: jstring
  proof
    assume e: "t @ 32 # a = u @ 32 # b"
    have "takeWhile (\<lambda>c. c \<noteq> 32) (t @ 32 # a) = t" using assms(3) by (auto simp: takeWhile_append)
    moreover have "takeWhile (\<lambda>c. c \<noteq> 32) (u @ 32 # b) = u" using assms(4) by (auto simp: takeWhile_append)
    ultimately show "t = u \<and> a = b" using e by auto
  qed auto
  have "canonical p = canonical q \<longleftrightarrow> wire p = wire q"
    using topic_text.written_alike [OF assms(1,2)] canonical_wire [OF assms(1)] canonical_wire [OF assms(2)] by metis
  then show ?thesis
    using topic_text.parse_written [OF assms(1)] topic_text.parse_written [OF assms(2)] canonical_wire [OF assms(1)]
    by (auto simp: topicKey_def wireParams_def split)
qed

theorem topic_key_exact_witness:
  "topicKey (js ''jobs'') (JObj [(js ''b'', JStr (js ''y'')), (js ''a'', JUndefined)]) =
     topicKey (js ''jobs'') (JObj [(js ''b'', JStr (js ''y''))]) \<and>
   wireParams (JObj [(js ''b'', JStr (js ''y'')), (js ''a'', JUndefined)]) =
     wireParams (JObj [(js ''b'', JStr (js ''y''))])"
proof -
  let ?p = "JObj [(js ''b'', JStr (js ''y'')), (js ''a'', JUndefined)]" and ?q = "JObj [(js ''b'', JStr (js ''y''))]"
  have "json_ok ?p" "json_ok ?q" "32 \<notin> set (js ''jobs'')" by simp_all
  then have "topicKey (js ''jobs'') ?p = topicKey (js ''jobs'') ?q \<longleftrightarrow> js ''jobs'' = js ''jobs'' \<and> wireParams ?p = wireParams ?q"
    using topic_key_exact by blast
  moreover have "topicKey (js ''jobs'') ?p = topicKey (js ''jobs'') ?q"
    by (simp add: topicKey_def wire_entries_def)
  ultimately show ?thesis by blast
qed

end
