(* ===== verification/Live_Channel.thy ===== *)
theory Live_Channel
  imports Live_Leader Live_Topics
begin

text \<open>
  One tab's live channel, \<open>lib/live/channel.ts\<close>, as a record of the variables \<open>createLiveChannel\<close>
  closes over and one definition per function. What the source calls outside (listeners, the
  relay, the lock manager, the engine, the connection) is appended to an output log in order; a
  timer holds the delay it was set with and may fire at any later moment. Every moment at which
  the source's code runs is an input, and \<open>running\<close> collects the states any sequence of inputs
  reaches.
\<close>

section \<open>Data\<close>

datatype live_status = Connecting | Live | Reconnecting | Offline | Paused | TooMany

datatype subscription_state = Pending | Active | Refused | Ended | Finished

datatype message_kind = Ev | Reset | End

record hello_facts =
  hello_instance :: jstring
  consoleBuild :: jstring
  engineRevision :: "jstring option"

datatype relay_message =
    RelaySub jstring jstring jstring json "jstring option"
  | RelayUnsub jstring jstring
  | RelayWho jstring
  | RelayHello jstring hello_facts
  | RelayEv message_kind jstring "jstring list"
  | RelayAccepted "jstring list"
  | RelayRefused "jstring list" json
  | RelayStatus jstring live_status
  | RelayStopping jstring
  | RelayBye jstring

text \<open>The delays timers are set with: the four of \<open>timing()\<close>, the backoff of an attempt, a number.\<close>

datatype delay = ReleaseMs | ConnectingMs | OfflineMs | IdleMs | Backoff nat | Milliseconds nat

record local_sub =
  l_id :: jstring
  l_topic :: jstring
  l_params :: json
  l_cursor :: "jstring option"
  l_state :: subscription_state
  l_attempt :: nat
  l_retry :: "delay option"
  resync :: bool

record tab_sub =
  t_tab :: jstring
  t_id :: jstring
  t_topic :: jstring
  t_params :: json
  after :: "jstring option"
  engine :: "jstring option"

record engine_sub =
  e_id :: jstring
  e_topic :: jstring
  e_params :: json
  e_key :: jstring
  e_shared :: bool
  compare :: bool
  members :: "jstring list"
  e_cursor :: "jstring option"
  last_raw :: "(jstring \<times> jstring) list"
  sent :: bool
  accepted :: bool

text \<open>One POST that has not been answered: what it was asked with, and the subscriptions it holds.\<close>

record post_call =
  asked :: jstring
  leading :: nat
  post_adds :: "jstring list"
  post_removes :: "jstring list"

text \<open>What the channel calls, in order.\<close>

datatype channel_call =
    OnState jstring subscription_state
  | OnReset jstring json json
  | OnTaken jstring
  | OnEvent jstring json json "jstring option"
  | OnEnd jstring "json option"
  | OnRefused jstring json
  | OnRestart
  | RestartCallback nat
  | OnRestarted
  | Send relay_message
  | Lock lock_call
  | Post jstring "(jstring \<times> jstring \<times> json \<times> jstring option) list" "jstring list"
  | OpenSource nat
  | CloseSource nat
  | Probe

text \<open>
  The channel. The store's fields carry a prefix; \<open>election\<close> is \<open>elect\<close>, \<open>instance\<close> is
  \<open>engineInstance\<close>. A connection object is the number it was opened as, \<open>readying\<close> counts the
  waits for the tab's lock, \<open>inflight\<close> holds the POSTs not answered and \<open>probes\<close> the probes, with
  whether the answer was handled.
\<close>

record chan =
  tab :: jstring
  table :: resume_table
  now :: int
  visible :: bool
  st_status :: live_status
  st_instance :: "jstring option"
  st_since :: int
  st_leader :: bool
  st_engineUpdated :: bool
  restartCallbacks :: "nat list"
  closed :: bool
  locals :: "(jstring \<times> local_sub) list"
  localSerial :: nat
  engaged :: bool
  wanted :: bool
  readying :: nat
  releaseTimer :: "delay option"
  channelStatus :: live_status
  pageBuild :: "(jstring \<times> jstring option) option"
  engineInstance :: "jstring option"
  elect :: election
  requests :: nat
  tabSubs :: "(jstring \<times> tab_sub) list"
  engineSubs :: "(jstring \<times> engine_sub) list"
  sharedByKey :: "(jstring \<times> jstring) list"
  removes :: "jstring list"
  engineSerial :: nat
  generation :: nat
  source :: "nat option"
  opened :: nat
  connection :: "jstring option"
  lastHello :: "hello_facts option"
  heardHello :: bool
  dropping :: bool
  attempt :: nat
  posting :: bool
  flushQueued :: bool
  connectTimer :: "(nat \<times> delay) option"
  retryTimer :: "delay option"
  offlineTimer :: "delay option"
  idleTimer :: "delay option"
  flushRetry :: "delay option"
  inflight :: "post_call list"
  probes :: "(nat \<times> bool) list"
  out :: "channel_call list"

section \<open>Timing and message heads\<close>

text \<open>Reading a field of a value that is not null or undefined.\<close>

fun json_get :: "json \<Rightarrow> jstring \<Rightarrow> json" where
  "json_get (JObj ps) k = (case map_of ps k of Some v \<Rightarrow> v | None \<Rightarrow> JUndefined)"
| "json_get _ k = JUndefined"

fun truthy :: "json \<Rightarrow> bool" where
  "truthy JUndefined = False"
| "truthy JNull = False"
| "truthy (JBool b) = b"
| "truthy (JNum x) = (x \<noteq> Fin 0 \<and> x \<noteq> NaN)"
| "truthy (JStr s) = (s \<noteq> [])"
| "truthy _ = True"

fun as_string :: "json \<Rightarrow> jstring option" where
  "as_string (JStr s) = Some s"
| "as_string _ = None"

record live_timing =
  releaseMs :: jsnum
  connectingMs :: jsnum
  offlineMs :: jsnum
  idleMs :: jsnum

definition DEFAULT_TIMING :: live_timing where
  "DEFAULT_TIMING = \<lparr>releaseMs = Fin 20000, connectingMs = Fin 5000, offlineMs = Fin 30000, idleMs = Fin 5000\<rparr>"

fun pick :: "json \<Rightarrow> jsnum \<Rightarrow> jsnum" where
  "pick (JNum (Fin x)) standard = (if 0 \<le> x then Fin x else standard)"
| "pick _ standard = standard"

text \<open>
  \<open>readTiming\<close> over the text kept under \<open>TIMING_KEY\<close>, if storage can be read and has one; none
  where reading a field of the stored value throws.
\<close>

definition readTiming :: "jstring option \<Rightarrow> live_timing option" where
  "readTiming stored =
     (let override = (case stored of None \<Rightarrow> JObj []
            | Some t \<Rightarrow> if t = [] then JObj [] else case parse_json t of None \<Rightarrow> JObj [] | Some v \<Rightarrow> v)
      in if override = JNull then None
         else Some \<lparr>releaseMs = pick (json_get override (js ''releaseMs'')) (releaseMs DEFAULT_TIMING),
           connectingMs = pick (json_get override (js ''connectingMs'')) (connectingMs DEFAULT_TIMING),
           offlineMs = pick (json_get override (js ''offlineMs'')) (offlineMs DEFAULT_TIMING),
           idleMs = pick (json_get override (js ''idleMs'')) (idleMs DEFAULT_TIMING)\<rparr>)"

text \<open>\<open>backoffDelay\<close> for the number \<open>random()\<close> answered, every operation rounded to a double.\<close>

fun num_add :: "jsnum \<Rightarrow> jsnum \<Rightarrow> jsnum" where
  "num_add (Fin a) (Fin b) = toDouble (a + b)"
| "num_add _ _ = NaN"

fun num_mul :: "jsnum \<Rightarrow> jsnum \<Rightarrow> jsnum" where
  "num_mul (Fin a) (Fin b) = toDouble (a * b)"
| "num_mul _ _ = NaN"

definition backoffDelay :: "nat \<Rightarrow> rat \<Rightarrow> jsnum" where
  "backoffDelay tries random =
     (let base = min 10000 (500 * 2 ^ min tries 10)
      in math_round (num_mul (Fin base) (num_add (toDouble (8 / 10)) (num_mul (toDouble (4 / 10)) (Fin random)))))"

record message_head =
  h_sub :: jstring
  h_name :: "jstring option"
  h_cursor :: "jstring option"

text \<open>A text that begins with another, without it.\<close>

fun strip_text :: "jstring \<Rightarrow> jstring \<Rightarrow> jstring option" where
  "strip_text [] s = Some s"
| "strip_text (c # cs) (d # ds) = (if c = d then strip_text cs ds else None)"
| "strip_text (c # cs) [] = None"

text \<open>The parts of \<open>HEAD\<close>: a run without quote or backslash closed by a quote, and the cursor's two shapes.\<close>

definition plain_quoted :: "jstring \<Rightarrow> (jstring \<times> jstring) option" where
  "plain_quoted s =
     (let run = takeWhile (\<lambda>c. c \<noteq> 34 \<and> c \<noteq> 92) s
      in case strip_text [34] (drop (length run) s) of Some r \<Rightarrow> Some (run, r) | None \<Rightarrow> None)"

definition head_cursor :: "jstring \<Rightarrow> jstring option option" where
  "head_cursor s =
     (case strip_text (js ''null'') s of Some _ \<Rightarrow> Some None
      | None \<Rightarrow> (case strip_text [34] s of None \<Rightarrow> None | Some r \<Rightarrow> map_option (\<lambda>q. Some (fst q)) (plain_quoted r)))"

definition head_rest :: "jstring \<Rightarrow> (jstring \<times> jstring option) option" where
  "head_rest s = Option.bind (strip_text (js '',\"name\":\"'') s) (\<lambda>r1. Option.bind (plain_quoted r1)
     (\<lambda>(name, r2). Option.bind (strip_text (js '',\"cursor\":'') r2) (\<lambda>r3. map_option (Pair name) (head_cursor r3))))"

definition HEAD :: "jstring \<Rightarrow> message_head option" where
  "HEAD raw = Option.bind (strip_text (js ''{\"sub\":\"'') raw) (\<lambda>r. map_option (\<lambda>(sub, r1).
     case head_rest r1 of Some (name, cursor) \<Rightarrow> \<lparr>h_sub = sub, h_name = Some name, h_cursor = cursor\<rparr>
       | None \<Rightarrow> \<lparr>h_sub = sub, h_name = None, h_cursor = None\<rparr>) (plain_quoted r))"

definition readHead :: "jstring \<Rightarrow> message_head option" where
  "readHead raw =
     (case HEAD raw of Some h \<Rightarrow> Some h
      | None \<Rightarrow> (case parse_json raw of None \<Rightarrow> None
         | Some v \<Rightarrow> map_option (\<lambda>sub. \<lparr>h_sub = sub, h_name = as_string (json_get v (js ''name'')),
               h_cursor = as_string (json_get v (js ''cursor''))\<rparr>) (as_string (json_get v (js ''sub'')))))"

section \<open>The tab's own subscriptions\<close>

definition emit :: "channel_call \<Rightarrow> chan \<Rightarrow> chan" where
  "emit c s = s\<lparr>out := out s @ [c]\<rparr>"

text \<open>The election's methods, with what they ask of the lock manager.\<close>

abbreviation isLeader :: "chan \<Rightarrow> bool" where
  "isLeader s \<equiv> leader (elect s)"

definition call_election :: "election \<times> lock_call list \<Rightarrow> chan \<Rightarrow> chan" where
  "call_election r s = s\<lparr>elect := fst r, out := out s @ map Lock (snd r)\<rparr>"

definition election_want :: "chan \<Rightarrow> chan" where
  "election_want s = call_election (want (requests s) (elect s)) (s\<lparr>requests := requests s + 1\<rparr>)"

definition election_withdraw :: "chan \<Rightarrow> chan" where
  "election_withdraw s = call_election (withdraw (elect s)) s"

definition election_send :: "relay_message \<Rightarrow> chan \<Rightarrow> chan" where
  "election_send m s = (if shared (elect s) \<and> \<not> el_closed (elect s) then emit (Send m) s else s)"

definition report :: "chan \<Rightarrow> chan" where
  "report s =
     (let status = (if engaged s then channelStatus s else Paused)
      in if st_status s \<noteq> status then s\<lparr>st_status := status, st_since := now s, st_leader := isLeader s\<rparr>
         else if st_leader s \<noteq> isLeader s then s\<lparr>st_leader := isLeader s\<rparr>
         else s)"

definition upd_local :: "jstring \<Rightarrow> (local_sub \<Rightarrow> local_sub) \<Rightarrow> chan \<Rightarrow> chan" where
  "upd_local i f s = s\<lparr>locals := AList.map_entry i f (locals s)\<rparr>"

definition setLocalState :: "jstring \<Rightarrow> subscription_state \<Rightarrow> chan \<Rightarrow> chan" where
  "setLocalState i state s =
     (case map_of (locals s) i of None \<Rightarrow> s
      | Some l \<Rightarrow> if l_state l = state then s
          else emit (OnState i state) (upd_local i (\<lambda>l. l\<lparr>l_state := state\<rparr>) s))"

definition activate :: "jstring \<Rightarrow> chan \<Rightarrow> chan" where
  "activate i s =
     (case map_of (locals s) i of None \<Rightarrow> s
      | Some l \<Rightarrow>
          let s1 = setLocalState i Active s;
              s2 = (if resync l then upd_local i (\<lambda>l. l\<lparr>resync := False\<rparr>) s1 else s1)
          in if resync l \<and> l_cursor l = None \<and> resumeOf (table s) (l_topic l) \<noteq> Compare
             then emit (OnReset i (JStr (js ''gap'')) JNull) s2
             else if l_state l \<noteq> Active then emit (OnTaken i) s2 else s2)"

definition scheduleResubscribe :: "jstring \<Rightarrow> chan \<Rightarrow> chan" where
  "scheduleResubscribe i s =
     upd_local i (\<lambda>l. l\<lparr>l_retry := Some (Backoff (l_attempt l)), l_attempt := l_attempt l + 1\<rparr>) s"

text \<open>
  \<open>deliverLocal\<close> of a parsed message that is not null. A cursor is a text or null, as the engine's
  envelope declares; an empty one does not move the subscription's.
\<close>

definition deliver_ev :: "jstring \<Rightarrow> json \<Rightarrow> chan \<Rightarrow> chan" where
  "deliver_ev i m s =
     (let cursor = as_string (json_get m (js ''cursor''));
          s1 = activate i s;
          s2 = (if truthy (json_get m (js ''cursor'')) then upd_local i (\<lambda>l. l\<lparr>l_cursor := cursor\<rparr>) s1 else s1);
          s3 = upd_local i (\<lambda>l. l\<lparr>l_attempt := 0\<rparr>) s2
      in if json_get m (js ''name'') = JStr (js ''tick'') then s3
         else emit (OnEvent i (json_get m (js ''name'')) (json_get m (js ''data'')) cursor) s3)"

definition deliver_end :: "jstring \<Rightarrow> json \<Rightarrow> chan \<Rightarrow> chan" where
  "deliver_end i m s =
     (let error = json_get m (js ''error'')
      in if truthy error
         then scheduleResubscribe i (emit (OnEnd i (Some error)) (setLocalState i Ended
           (upd_local i (\<lambda>l. if l_cursor l = None then l\<lparr>resync := True\<rparr> else l) s)))
         else emit (OnEnd i None) (setLocalState i Finished s))"

fun deliverLocal :: "jstring \<Rightarrow> message_kind \<Rightarrow> json \<Rightarrow> chan \<Rightarrow> chan" where
  "deliverLocal i Ev m s = deliver_ev i m s"
| "deliverLocal i Reset m s = emit (OnReset i (json_get m (js ''reason'')) (json_get m (js ''missed''))) s"
| "deliverLocal i End m s = deliver_end i m s"

text \<open>
  \<open>deliverRaw\<close>, which parses the message at the first subscription that is this tab's. A message
  that is null throws when its first field is read, and nothing more of it is delivered.
\<close>

definition deliverRaw :: "jstring list \<Rightarrow> message_kind \<Rightarrow> jstring \<Rightarrow> chan \<Rightarrow> chan" where
  "deliverRaw is kind raw s =
     (case filter (\<lambda>i. map_of (locals s) i \<noteq> None) is of [] \<Rightarrow> s
      | i # rest \<Rightarrow>
          (case parse_json raw of None \<Rightarrow> s
           | Some JNull \<Rightarrow> if kind = Ev then activate i s else s
           | Some m \<Rightarrow> fold (\<lambda>i. deliverLocal i kind m) (i # rest) s))"

definition refuseLocal :: "jstring list \<Rightarrow> json \<Rightarrow> chan \<Rightarrow> chan" where
  "refuseLocal is error = fold (\<lambda>i s. if map_of (locals s) i = None then s
     else emit (OnRefused i error) (setLocalState i Refused s)) is"

definition acceptLocal :: "jstring list \<Rightarrow> chan \<Rightarrow> chan" where
  "acceptLocal is = fold (\<lambda>i s. case map_of (locals s) i of None \<Rightarrow> s
     | Some l \<Rightarrow> if l_state l = Pending \<or> resync l then activate i s else s) is"

section \<open>The leader's books\<close>

definition scheduleFlush :: "chan \<Rightarrow> chan" where
  "scheduleFlush s = s\<lparr>flushQueued := True\<rparr>"

definition setChannelStatus :: "live_status \<Rightarrow> chan \<Rightarrow> chan" where
  "setChannelStatus status s =
     election_send (RelayStatus (tab s) status) (report (s\<lparr>channelStatus := status\<rparr>))"

definition announce :: "chan \<Rightarrow> chan" where
  "announce s =
     (let s1 = (case (connection s, lastHello s) of
            (Some (c # cs), Some facts) \<Rightarrow> election_send (RelayHello (tab s) facts) s
          | _ \<Rightarrow> s)
      in election_send (RelayStatus (tab s) (channelStatus s)) s1)"

definition route :: "tab_sub list \<Rightarrow> message_kind \<Rightarrow> jstring \<Rightarrow> chan \<Rightarrow> chan" where
  "route subs kind raw s =
     (let mine = map t_id (filter (\<lambda>u. t_tab u = tab s) subs);
          theirs = map t_id (filter (\<lambda>u. t_tab u \<noteq> tab s) subs);
          s1 = (if theirs \<noteq> [] then election_send (RelayEv kind raw theirs) s else s)
      in if mine \<noteq> [] then deliverRaw mine kind raw s1 else s1)"

definition announceAccepted :: "tab_sub list \<Rightarrow> chan \<Rightarrow> chan" where
  "announceAccepted subs s =
     (let theirs = map t_id (filter (\<lambda>u. t_tab u \<noteq> tab s) subs);
          s1 = fold (\<lambda>u. acceptLocal [t_id u]) (filter (\<lambda>u. t_tab u = tab s) subs) s
      in if theirs \<noteq> [] then election_send (RelayAccepted theirs) s1 else s1)"

text \<open>Adding to a \<open>Set\<close>, which keeps the order of insertion.\<close>

definition set_add :: "'a \<Rightarrow> 'a list \<Rightarrow> 'a list" where
  "set_add x xs = (if x \<in> set xs then xs else xs @ [x])"

definition upd_engine :: "jstring \<Rightarrow> (engine_sub \<Rightarrow> engine_sub) \<Rightarrow> chan \<Rightarrow> chan" where
  "upd_engine e f s = s\<lparr>engineSubs := AList.map_entry e f (engineSubs s)\<rparr>"

definition upd_tab :: "jstring \<Rightarrow> (tab_sub \<Rightarrow> tab_sub) \<Rightarrow> chan \<Rightarrow> chan" where
  "upd_tab i f s = s\<lparr>tabSubs := AList.map_entry i f (tabSubs s)\<rparr>"

definition dropEngine :: "engine_sub \<Rightarrow> bool \<Rightarrow> chan \<Rightarrow> chan" where
  "dropEngine en tellEngine s =
     (let s1 = s\<lparr>engineSubs := AList.delete (e_id en) (engineSubs s)\<rparr>;
          s2 = (if map_of (sharedByKey s1) (e_key en) = Some (e_id en)
                then s1\<lparr>sharedByKey := AList.delete (e_key en) (sharedByKey s1)\<rparr> else s1)
      in if tellEngine \<and> sent en then scheduleFlush (s2\<lparr>removes := set_add (e_id en) (removes s2)\<rparr>) else s2)"

definition idleCheck :: "chan \<Rightarrow> chan" where
  "idleCheck s =
     (if \<not> isLeader s \<or> tabSubs s \<noteq> [] \<or> locals s \<noteq> [] then s else s\<lparr>idleTimer := Some IdleMs\<rparr>)"

text \<open>
  The two ways \<open>leaderAdd\<close> goes on: a subscription of the same topic and parameters is joined, or
  one is opened. \<open>sharedByKey\<close> holds the id of the engine subscription the source holds itself.
\<close>

definition join_engine :: "tab_sub \<Rightarrow> engine_sub \<Rightarrow> chan \<Rightarrow> chan" where
  "join_engine sub en s =
     (let s1 = upd_tab (t_id sub) (\<lambda>u. u\<lparr>engine := Some (e_id en)\<rparr>)
                 (upd_engine (e_id en) (\<lambda>en. en\<lparr>members := set_add (t_id sub) (members en)\<rparr>) s)
      in if accepted en
         then let s2 = announceAccepted [sub] s1
              in if compare en then fold (\<lambda>raw. route [sub] Ev raw) (map snd (last_raw en)) s2 else s2
         else s1)"

definition open_engine :: "tab_sub \<Rightarrow> jstring \<Rightarrow> resume_kind \<Rightarrow> chan \<Rightarrow> chan" where
  "open_engine sub key resume s =
     (let serial = engineSerial s + 1;
          eid = tab s @ 46 # show_nat serial;
          en = \<lparr>e_id = eid, e_topic = t_topic sub, e_params = t_params sub, e_key = key,
            e_shared = (resume \<noteq> Replay), compare = (resume = Compare), members = [t_id sub],
            e_cursor = after sub, last_raw = [], sent = False, accepted = False\<rparr>;
          s1 = s\<lparr>engineSerial := serial, engineSubs := AList.update eid en (engineSubs s)\<rparr>;
          s2 = (if e_shared en then s1\<lparr>sharedByKey := AList.update key eid (sharedByKey s1)\<rparr> else s1)
      in scheduleFlush (upd_tab (t_id sub) (\<lambda>u. u\<lparr>engine := Some eid\<rparr>) s2))"

definition leaderAdd :: "jstring \<Rightarrow> jstring \<Rightarrow> jstring \<Rightarrow> json \<Rightarrow> jstring option \<Rightarrow> chan \<Rightarrow> chan" where
  "leaderAdd of_tab i topic params from_cursor s =
     (let s0 = s\<lparr>idleTimer := None\<rparr>
      in if map_of (tabSubs s0) i \<noteq> None then s0
         else let key = topicKey topic params;
                  resume = resumeOf (table s0) topic;
                  sub = \<lparr>t_tab = of_tab, t_id = i, t_topic = topic, t_params = params,
                    after = from_cursor, engine = None\<rparr>;
                  s1 = s0\<lparr>tabSubs := AList.update i sub (tabSubs s0)\<rparr>
              in case (if resume \<noteq> Replay then Option.bind (map_of (sharedByKey s1) key) (map_of (engineSubs s1))
                       else None) of
                   Some en \<Rightarrow> join_engine sub en s1
                 | None \<Rightarrow> open_engine sub key resume s1)"

definition leaderRemove :: "jstring \<Rightarrow> chan \<Rightarrow> chan" where
  "leaderRemove i s =
     (case map_of (tabSubs s) i of None \<Rightarrow> s
      | Some sub \<Rightarrow>
          let s1 = s\<lparr>tabSubs := AList.delete i (tabSubs s)\<rparr>
          in idleCheck (case Option.bind (engine sub) (map_of (engineSubs s1)) of None \<Rightarrow> s1
               | Some en \<Rightarrow>
                   let en' = en\<lparr>members := removeAll i (members en)\<rparr>;
                       s2 = upd_engine (e_id en) (\<lambda>_. en') s1
                   in if members en' = [] then dropEngine en' True s2 else s2))"

definition onTabGone :: "jstring \<Rightarrow> chan \<Rightarrow> chan" where
  "onTabGone gone s = fold leaderRemove (map t_id (filter (\<lambda>u. t_tab u = gone) (map snd (tabSubs s)))) s"

definition members_of :: "engine_sub \<Rightarrow> chan \<Rightarrow> tab_sub list" where
  "members_of en s = List.map_filter (map_of (tabSubs s)) (members en)"

text \<open>The loop of \<open>refuseEngine\<close>, with the other tabs' subscriptions it collects.\<close>

fun refuse_members :: "json \<Rightarrow> jstring list \<Rightarrow> chan \<times> jstring list \<Rightarrow> chan \<times> jstring list" where
  "refuse_members error [] r = r"
| "refuse_members error (i # is) (s, theirs) =
     (let s1 = s\<lparr>tabSubs := AList.delete i (tabSubs s)\<rparr>
      in refuse_members error is
           (case map_of (tabSubs s) i of None \<Rightarrow> (s1, theirs)
            | Some sub \<Rightarrow> if t_tab sub = tab s then (refuseLocal [i] error s1, theirs) else (s1, theirs @ [i])))"

definition refuseEngine :: "engine_sub \<Rightarrow> json \<Rightarrow> chan \<Rightarrow> chan" where
  "refuseEngine en error s =
     (case refuse_members error (members en) (dropEngine en False s, []) of
        (s1, theirs) \<Rightarrow> if theirs \<noteq> [] then election_send (RelayRefused theirs error) s1 else s1)"

text \<open>What an event changes of its engine subscription.\<close>

definition note_event :: "message_head \<Rightarrow> jstring \<Rightarrow> engine_sub \<Rightarrow> engine_sub" where
  "note_event h raw en =
     (let en1 = (case h_cursor h of None \<Rightarrow> en | Some c \<Rightarrow> en\<lparr>e_cursor := Some c\<rparr>)
      in case h_name h of
           Some name \<Rightarrow> if compare en1 \<and> name \<noteq> js ''tick''
             then en1\<lparr>last_raw := AList.update name raw (last_raw en1)\<rparr> else en1
         | None \<Rightarrow> en1)"

definition onEngineMessage :: "message_kind \<Rightarrow> jstring \<Rightarrow> chan \<Rightarrow> chan" where
  "onEngineMessage kind raw s =
     (case readHead raw of None \<Rightarrow> s
      | Some h \<Rightarrow>
          (case map_of (engineSubs s) (h_sub h) of None \<Rightarrow> s
           | Some en \<Rightarrow>
               let s1 = (if kind = Ev then upd_engine (h_sub h) (note_event h raw) s else s);
                   subs = members_of en s1;
                   s2 = (if kind = End
                         then fold (\<lambda>u s. s\<lparr>tabSubs := AList.delete (t_id u) (tabSubs s)\<rparr>) subs (dropEngine en False s1)
                         else s1)
               in route subs kind raw s2))"

section \<open>Asking the engine\<close>

text \<open>The first half of \<open>flush\<close>, up to the POST.\<close>

definition flush :: "chan \<Rightarrow> chan" where
  "flush s =
     (case connection s of None \<Rightarrow> s
      | Some c \<Rightarrow>
          if posting s \<or> \<not> isLeader s then s
          else let adds = filter (\<lambda>en. \<not> sent en) (map snd (engineSubs s)); remove = removes s
               in if adds = [] \<and> remove = [] then s
                  else emit (Post c (map (\<lambda>en. (e_id en, e_topic en, e_params en, e_cursor en)) adds) remove)
                    (s\<lparr>posting := True, removes := [],
                       engineSubs := map (\<lambda>(i, en). (i, en\<lparr>sent := True\<rparr>)) (engineSubs s),
                       inflight := inflight s @ [\<lparr>asked = c, leading = generation s,
                         post_adds = map e_id adds, post_removes = remove\<rparr>]\<rparr>))"

text \<open>What became of the POST: an answer, a refusal of the request, or no answer.\<close>

datatype post_answer =
    PostAnswered "jstring list" "(jstring \<times> json) list"
  | PostNotFound
  | PostBadRequest jstring jstring "jstring option"
  | PostFailed

definition take_accepted :: "jstring \<Rightarrow> chan \<Rightarrow> chan" where
  "take_accepted i s =
     (case map_of (engineSubs s) i of None \<Rightarrow> s
      | Some en \<Rightarrow> let s1 = upd_engine i (\<lambda>en. en\<lparr>accepted := True\<rparr>) s in announceAccepted (members_of en s1) s1)"

definition take_refused :: "json \<Rightarrow> jstring \<Rightarrow> chan \<Rightarrow> chan" where
  "take_refused error i s =
     (case map_of (engineSubs s) i of None \<Rightarrow> s | Some en \<Rightarrow> refuseEngine en error s)"

definition bad_request :: "jstring \<Rightarrow> jstring \<Rightarrow> jstring option \<Rightarrow> json" where
  "bad_request code message fixing =
     JObj ([(js ''code'', JStr (if code = js ''network'' \<or> code = js ''unknown'' then js ''invalid-argument'' else code)),
       (js ''message'', JStr message)] @ (case fixing of None \<Rightarrow> [] | Some f \<Rightarrow> [(js ''fix'', JStr f)]))"

fun take_answer :: "post_call \<Rightarrow> post_answer \<Rightarrow> chan \<Rightarrow> chan" where
  "take_answer p (PostAnswered accepts refusals) s =
     fold (\<lambda>(i, error). take_refused error i) refusals (fold take_accepted accepts s)"
| "take_answer p PostNotFound s = s\<lparr>connection := None\<rparr>"
| "take_answer p (PostBadRequest code message fixing) s =
     fold (take_refused (bad_request code message fixing)) (post_adds p) s"
| "take_answer p PostFailed s =
     s\<lparr>engineSubs := map (\<lambda>(i, en). (i, if i \<in> set (post_adds p) then en\<lparr>sent := False\<rparr> else en)) (engineSubs s),
       removes := fold set_add (post_removes p) (removes s),
       flushRetry := Some (Milliseconds 1000)\<rparr>"

text \<open>The second half of \<open>flush\<close>, for the \<open>n\<close>-th of the POSTs not answered.\<close>

definition post_done :: "nat \<Rightarrow> post_answer \<Rightarrow> chan \<Rightarrow> chan" where
  "post_done n answer s =
     (if n < length (inflight s)
      then let p = inflight s ! n;
               s0 = s\<lparr>inflight := take n (inflight s) @ drop (Suc n) (inflight s)\<rparr>;
               s1 = (if leading p = generation s0 \<and> connection s0 = Some (asked p) then take_answer p answer s0 else s0);
               s2 = s1\<lparr>posting := False\<rparr>
           in if leading p = generation s2 \<and> flushRetry s2 = None then scheduleFlush s2 else s2
      else s)"

section \<open>The connection\<close>

definition closeSource :: "chan \<Rightarrow> chan" where
  "closeSource s =
     (let s1 = s\<lparr>connectTimer := None\<rparr>;
          s2 = (case source s1 of None \<Rightarrow> s1 | Some n \<Rightarrow> emit (CloseSource n) s1)
      in s2\<lparr>source := None, connection := None, heardHello := False\<rparr>)"

definition watchConnecting :: "nat \<Rightarrow> chan \<Rightarrow> chan" where
  "watchConnecting n s = s\<lparr>connectTimer := Some (n, ConnectingMs)\<rparr>"

definition connect :: "chan \<Rightarrow> chan" where
  "connect s =
     (let s1 = closeSource (s\<lparr>retryTimer := None\<rparr>)
      in if \<not> isLeader s1 \<or> closed s1 then s1
         else let n = opened s1
              in watchConnecting n (emit (OpenSource n) (s1\<lparr>source := Some n, opened := n + 1\<rparr>)))"

definition beginDrop :: "chan \<Rightarrow> chan" where
  "beginDrop s =
     (if dropping s then s
      else let s1 = s\<lparr>dropping := True\<rparr>;
               s2 = (if channelStatus s1 = Live \<or> channelStatus s1 = Connecting then setChannelStatus Reconnecting s1 else s1)
           in s2\<lparr>offlineTimer := Some OfflineMs\<rparr>)"

definition scheduleRetry :: "chan \<Rightarrow> chan" where
  "scheduleRetry s =
     (let s1 = beginDrop s in s1\<lparr>attempt := attempt s1 + 1, retryTimer := Some (Backoff (attempt s1))\<rparr>)"

definition onStopping :: "chan \<Rightarrow> chan" where
  "onStopping s =
     (let s1 = (closeSource s)\<lparr>dropping := True, offlineTimer := None\<rparr>
      in scheduleRetry (election_send (RelayStopping (tab s)) (setChannelStatus Offline s1)))"

text \<open>\<open>onError\<close> of the connection \<open>n\<close>; \<open>gone\<close> is whether its \<open>readyState\<close> is \<open>CLOSED\<close>.\<close>

definition onError :: "nat \<Rightarrow> bool \<Rightarrow> chan \<Rightarrow> chan" where
  "onError n gone s =
     (let s1 = s\<lparr>connection := None\<rparr>
      in if gone then let s2 = beginDrop (closeSource s1) in emit Probe (s2\<lparr>probes := probes s2 @ [(generation s2, False)]\<rparr>)
         else if heardHello s1 then watchConnecting n (beginDrop (s1\<lparr>heardHello := False\<rparr>))
         else scheduleRetry (closeSource s1))"

text \<open>The probe's answer, connections open and the limit or none; and what follows either way.\<close>

definition probe_answered :: "nat \<Rightarrow> (int \<times> int) option \<Rightarrow> chan \<Rightarrow> chan" where
  "probe_answered g answer s =
     (if (g, False) \<notin> set (probes s) then s
      else let s1 = s\<lparr>probes := remove1 (g, False) (probes s) @ [(g, True)]\<rparr>
           in case answer of Some (connections, limit) \<Rightarrow>
                if g = generation s1 \<and> source s1 = None \<and> limit \<le> connections then setChannelStatus TooMany s1 else s1
              | None \<Rightarrow> s1)"

definition probe_settled :: "nat \<Rightarrow> chan \<Rightarrow> chan" where
  "probe_settled g s =
     (if (g, True) \<notin> set (probes s) then s
      else let s1 = s\<lparr>probes := remove1 (g, True) (probes s)\<rparr>
           in if g = generation s1 \<and> source s1 = None \<and> retryTimer s1 = None then scheduleRetry s1 else s1)"

definition stopLeading :: "chan \<Rightarrow> chan" where
  "stopLeading s =
     (let s1 = closeSource (election_send (RelayBye (tab s)) (s\<lparr>generation := generation s + 1\<rparr>));
          s2 = s1\<lparr>retryTimer := None, offlineTimer := None, idleTimer := None, flushRetry := None,
            tabSubs := [], engineSubs := [], sharedByKey := [], removes := [], dropping := False,
            channelStatus := Connecting\<rparr>
      in report (election_withdraw s2))"

section \<open>Offering, hiding and showing\<close>

definition offer :: "jstring \<Rightarrow> chan \<Rightarrow> chan" where
  "offer i s =
     (case map_of (locals s) i of None \<Rightarrow> s
      | Some l \<Rightarrow>
          if \<not> engaged s then s
          else if isLeader s then leaderAdd (tab s) (l_id l) (l_topic l) (l_params l) (l_cursor l) s
          else election_send (RelaySub (tab s) (l_id l) (l_topic l) (l_params l) (l_cursor l)) s)"

definition withdrawLocal :: "jstring \<Rightarrow> chan \<Rightarrow> chan" where
  "withdrawLocal i s =
     (if \<not> engaged s then s
      else if isLeader s then leaderRemove i s
      else election_send (RelayUnsub (tab s) i) s)"

definition offer_next :: "bool \<Rightarrow> jstring \<Rightarrow> chan \<Rightarrow> chan" where
  "offer_next includeRefused i s =
     (case map_of (locals s) i of None \<Rightarrow> s
      | Some l \<Rightarrow>
          if l_state l = Finished \<or> (l_state l = Refused \<and> \<not> includeRefused) then s
          else offer i (if l_state l = Refused then setLocalState i Pending s else s))"

definition offerAll :: "bool \<Rightarrow> chan \<Rightarrow> chan" where
  "offerAll includeRefused s = fold (offer_next includeRefused) (map fst (locals s)) s"

definition engage :: "chan \<Rightarrow> chan" where
  "engage s = s\<lparr>wanted := True, readying := readying s + 1\<rparr>"

text \<open>What \<open>engage\<close> runs once the tab's lock is held.\<close>

definition engage_ready :: "chan \<Rightarrow> chan" where
  "engage_ready s =
     (if readying s = 0 then s
      else let s0 = s\<lparr>readying := readying s - 1\<rparr>
           in if \<not> wanted s0 \<or> engaged s0 \<or> closed s0 then s0
              else let s1 = offerAll True (election_send (RelayWho (tab s0)) (report (s0\<lparr>engaged := True\<rparr>)))
                   in if locals s1 \<noteq> [] then election_want s1 else s1)"

definition release_tab :: "chan \<Rightarrow> chan" where
  "release_tab s =
     (let s0 = s\<lparr>wanted := False, releaseTimer := None\<rparr>
      in if \<not> engaged s0 then s0
         else let s1 = s0\<lparr>locals := map (\<lambda>(i, l). (i, if l_cursor l = None then l\<lparr>resync := True\<rparr> else l)) (locals s0)\<rparr>;
                  s2 = (if isLeader s1 then stopLeading s1
                        else fold (\<lambda>i. election_send (RelayUnsub (tab s1) i)) (map (l_id \<circ> snd) (locals s1)) s1)
              in report (election_withdraw (s2\<lparr>engaged := False\<rparr>)))"

definition onVisibility :: "chan \<Rightarrow> chan" where
  "onVisibility s =
     (if closed s then s
      else if visible s then engage (s\<lparr>releaseTimer := None\<rparr>)
      else if (engaged s \<or> wanted s) \<and> releaseTimer s = None then s\<lparr>releaseTimer := Some ReleaseMs\<rparr>
      else s)"

datatype seen = Same | Restarted | Updated

definition seeInstance :: "hello_facts \<Rightarrow> chan \<Rightarrow> seen \<times> chan" where
  "seeInstance hello s =
     (case engineInstance s of
        None \<Rightarrow> (Same, s\<lparr>engineInstance := Some (hello_instance hello),
            pageBuild := (case pageBuild s of None \<Rightarrow> Some (consoleBuild hello, engineRevision hello) | Some b \<Rightarrow> Some b),
            st_instance := Some (hello_instance hello)\<rparr>)
      | Some i \<Rightarrow>
          if hello_instance hello = i then (Same, s)
          else let s1 = s\<lparr>engineInstance := Some (hello_instance hello), st_instance := Some (hello_instance hello),
                     locals := map (\<lambda>(i, l). (i, l\<lparr>l_cursor := None\<rparr>)) (locals s)\<rparr>
               in if pageBuild s1 \<noteq> None \<and> pageBuild s1 \<noteq> Some (consoleBuild hello, engineRevision hello)
                  then (Updated, s1\<lparr>st_engineUpdated := True\<rparr>)
                  else (Restarted, emit OnRestarted (fold (\<lambda>c. emit (RestartCallback c)) (restartCallbacks s1) (emit OnRestart s1))))"

definition onHello :: "jstring \<Rightarrow> hello_facts \<Rightarrow> chan \<Rightarrow> chan" where
  "onHello conn facts s =
     (let s1 = s\<lparr>connectTimer := None, offlineTimer := None, attempt := 0, dropping := False, heardHello := True,
            connection := Some conn, lastHello := Some facts\<rparr>;
          (seen, s2) = seeInstance facts s1;
          s3 = (if seen \<noteq> Same
                then offerAll True (s2\<lparr>tabSubs := map (\<lambda>(i, u). (i, u\<lparr>after := None\<rparr>)) (tabSubs s2),
                  engineSubs := map (\<lambda>(i, en). (i, en\<lparr>e_cursor := None, last_raw := []\<rparr>)) (engineSubs s2)\<rparr>)
                else s2);
          s4 = s3\<lparr>removes := [],
            engineSubs := map (\<lambda>(i, en). (i, en\<lparr>sent := False, accepted := False\<rparr>)) (engineSubs s3)\<rparr>
      in scheduleFlush (election_send (RelayHello (tab s) facts) (setChannelStatus Live s4)))"

definition onLead :: "chan \<Rightarrow> chan" where
  "onLead s =
     (if closed s \<or> \<not> engaged s then election_withdraw s
      else connect (offerAll False (setChannelStatus Connecting
        (s\<lparr>generation := generation s + 1, tabSubs := [], engineSubs := [], sharedByKey := [], removes := [],
           attempt := 0, dropping := False\<rparr>))))"

fun onMessage :: "relay_message \<Rightarrow> chan \<Rightarrow> chan" where
  "onMessage (RelaySub of_tab i topic params from_cursor) s =
     (if \<not> closed s \<and> isLeader s
      then leaderAdd of_tab i topic params from_cursor (call_election (watch of_tab (elect s)) s) else s)"
| "onMessage (RelayUnsub of_tab i) s = (if \<not> closed s \<and> isLeader s then leaderRemove i s else s)"
| "onMessage (RelayWho of_tab) s = (if \<not> closed s \<and> isLeader s then announce s else s)"
| "onMessage (RelayHello from_leader facts) s =
     (if closed s \<or> isLeader s \<or> \<not> engaged s then s
      else let (seen, s1) = seeInstance facts s
           in offerAll (seen \<noteq> Same) (report (s1\<lparr>channelStatus := Live\<rparr>)))"
| "onMessage (RelayEv kind raw is) s = (if \<not> closed s \<and> \<not> isLeader s then deliverRaw is kind raw s else s)"
| "onMessage (RelayAccepted is) s = (if \<not> closed s \<and> \<not> isLeader s then acceptLocal is s else s)"
| "onMessage (RelayRefused is error) s = (if \<not> closed s \<and> \<not> isLeader s then refuseLocal is error s else s)"
| "onMessage (RelayStatus from_leader status) s =
     (if \<not> closed s \<and> \<not> isLeader s then report (s\<lparr>channelStatus := status\<rparr>) else s)"
| "onMessage (RelayStopping from_leader) s =
     (if \<not> closed s \<and> \<not> isLeader s then report (s\<lparr>channelStatus := Offline\<rparr>) else s)"
| "onMessage (RelayBye from_leader) s =
     (if \<not> closed s \<and> \<not> isLeader s then report (s\<lparr>channelStatus := Connecting\<rparr>) else s)"

section \<open>The channel's interface\<close>

text \<open>The channel of a new page: whether tabs share a leader, and whether the page is shown.\<close>

definition createLiveChannel :: "jstring \<Rightarrow> resume_table \<Rightarrow> bool \<Rightarrow> bool \<Rightarrow> int \<Rightarrow> chan" where
  "createLiveChannel name kinds both shown time =
     (let s = \<lparr>tab = name, table = kinds, now = time, visible = shown, st_status = Paused, st_instance = None,
        st_since = time, st_leader = False, st_engineUpdated = False, restartCallbacks = [], closed = False,
        locals = [], localSerial = 0, engaged = False, wanted = False, readying = 0, releaseTimer = None,
        channelStatus = Connecting, pageBuild = None, engineInstance = None, elect = createElection both name,
        requests = 0, tabSubs = [], engineSubs = [], sharedByKey = [], removes = [], engineSerial = 0,
        generation = 0, source = None, opened = 0, connection = None, lastHello = None, heardHello = False,
        dropping = False, attempt = 0, posting = False, flushQueued = False, connectTimer = None,
        retryTimer = None, offlineTimer = None, idleTimer = None, flushRetry = None, inflight = [],
        probes = [], out = []\<rparr>
      in if shown then engage s else s)"

definition subscribe_local :: "jstring \<Rightarrow> json \<Rightarrow> jstring option \<Rightarrow> chan \<Rightarrow> chan" where
  "subscribe_local topic params after_cursor s =
     (let s0 = s\<lparr>localSerial := localSerial s + 1\<rparr>;
          cursor = (if after_cursor = Some [] then None else after_cursor);
          i = tab s @ js ''.s'' @ show_nat (localSerial s0)
      in case wireParams params of None \<Rightarrow> s0
         | Some w \<Rightarrow>
             let l = \<lparr>l_id = i, l_topic = topic, l_params = w, l_cursor = cursor, l_state = Pending,
                   l_attempt = 0, l_retry = None, resync = (\<not> visible s0 \<and> cursor = None)\<rparr>;
                 s1 = s0\<lparr>locals := AList.update i l (locals s0)\<rparr>
             in if engaged s1 then election_want (offer i s1) else s1)"

definition unsubscribe_local :: "jstring \<Rightarrow> chan \<Rightarrow> chan" where
  "unsubscribe_local i s =
     (case map_of (locals s) i of None \<Rightarrow> s
      | Some l \<Rightarrow>
          let s1 = s\<lparr>locals := AList.delete i (locals s)\<rparr>;
              s2 = (if l_state l \<noteq> Refused \<and> l_state l \<noteq> Finished then withdrawLocal i s1 else s1)
          in if locals s2 \<noteq> [] then s2
             else if isLeader s2 then idleCheck s2 else election_withdraw s2)"

definition retry_next :: "jstring \<Rightarrow> chan \<Rightarrow> chan" where
  "retry_next i s =
     (case map_of (locals s) i of None \<Rightarrow> s
      | Some l \<Rightarrow> if l_state l \<noteq> Ended \<and> l_state l \<noteq> Refused then s
          else offer i (setLocalState i Pending (upd_local i (\<lambda>l. l\<lparr>l_retry := None\<rparr>) s)))"

definition retry_all :: "chan \<Rightarrow> chan" where
  "retry_all s = fold retry_next (map fst (locals s)) s"

definition close_channel :: "chan \<Rightarrow> chan" where
  "close_channel s =
     (if closed s then s
      else let s1 = (release_tab s)\<lparr>closed := True, locals := []\<rparr> in call_election (close_election (elect s1)) s1)"

section \<open>Inputs\<close>

datatype channel_input =
    Clock int
  | Shown bool
  | Freeze
  | TabLockHeld
  | LockGranted nat
  | LeadsAlone
  | TabFree jstring nat
  | Relayed relay_message
  | Subscribe jstring json "jstring option"
  | Unsubscribe jstring
  | AddRestart nat
  | DropRestart nat
  | Retry
  | Close
  | SourceHello nat jstring hello_facts
  | SourceMessage nat message_kind jstring
  | SourceStopping nat
  | SourceError nat bool
  | FlushTask
  | PostDone nat post_answer
  | ProbeAnswered nat "(int \<times> int) option"
  | ProbeSettled nat
  | LocalRetryFires jstring
  | ReleaseFires
  | ConnectFires
  | RetryFires
  | OfflineFires
  | IdleFires
  | FlushRetryFires

text \<open>
  The leader's lock granted to the request \<open>r\<close>, which was aborted when it is not the pending one;
  and the election's other callbacks.
\<close>

definition lock_granted :: "nat \<Rightarrow> chan \<Rightarrow> chan" where
  "lock_granted r s =
     (case granted r (pending (elect s) \<noteq> Some r) (elect s) of
        (kept, e, calls) \<Rightarrow> let s1 = call_election (e, calls) s in if kept then onLead s1 else s1)"

definition leads_alone :: "chan \<Rightarrow> chan" where
  "leads_alone s =
     (if shared (elect s) then s
      else let s1 = call_election (lead_alone (elect s)) s
           in if isLeader s1 \<and> \<not> isLeader s then onLead s1 else s1)"

definition tab_freed :: "jstring \<Rightarrow> nat \<Rightarrow> chan \<Rightarrow> chan" where
  "tab_freed other signal s =
     (case tab_free other signal (elect s) of
        (e, calls) \<Rightarrow> let s1 = call_election (e, calls) s in if calls \<noteq> [] then onTabGone other s1 else s1)"

text \<open>The timers' callbacks.\<close>

definition local_retry_fires :: "jstring \<Rightarrow> chan \<Rightarrow> chan" where
  "local_retry_fires i s =
     (case map_of (locals s) i of None \<Rightarrow> s
      | Some l \<Rightarrow> if l_retry l = None then s
          else let s1 = upd_local i (\<lambda>l. l\<lparr>l_retry := None\<rparr>) s
               in if l_state l \<noteq> Ended then s1 else offer i (setLocalState i Pending s1))"

definition connect_fires :: "chan \<Rightarrow> chan" where
  "connect_fires s =
     (case connectTimer s of None \<Rightarrow> s
      | Some (n, _) \<Rightarrow> let s1 = s\<lparr>connectTimer := None\<rparr>
          in if source s1 \<noteq> Some n \<or> heardHello s1 then s1 else scheduleRetry (closeSource s1))"

definition offline_fires :: "chan \<Rightarrow> chan" where
  "offline_fires s =
     (if offlineTimer s = None then s
      else let s1 = s\<lparr>offlineTimer := None\<rparr>
           in if dropping s1 \<and> channelStatus s1 = Reconnecting then setChannelStatus Offline s1 else s1)"

definition idle_fires :: "chan \<Rightarrow> chan" where
  "idle_fires s =
     (if idleTimer s = None then s
      else let s1 = s\<lparr>idleTimer := None\<rparr>
           in if isLeader s1 \<and> tabSubs s1 = [] \<and> locals s1 = [] then stopLeading s1 else s1)"

definition flush_task :: "chan \<Rightarrow> chan" where
  "flush_task s = (if flushQueued s then flush (s\<lparr>flushQueued := False\<rparr>) else s)"

fun react :: "channel_input \<Rightarrow> chan \<Rightarrow> chan" where
  "react (Clock t) s = s\<lparr>now := t\<rparr>"
| "react (Shown v) s = onVisibility (s\<lparr>visible := v\<rparr>)"
| "react Freeze s = (if closed s then s else release_tab s)"
| "react TabLockHeld s = engage_ready s"
| "react (LockGranted r) s = (if shared (elect s) then lock_granted r s else s)"
| "react LeadsAlone s = leads_alone s"
| "react (TabFree other signal) s = tab_freed other signal s"
| "react (Relayed m) s = (if shared (elect s) \<and> \<not> el_closed (elect s) then onMessage m s else s)"
| "react (Subscribe topic params after_cursor) s = subscribe_local topic params after_cursor s"
| "react (Unsubscribe i) s = unsubscribe_local i s"
| "react (AddRestart c) s = s\<lparr>restartCallbacks := set_add c (restartCallbacks s)\<rparr>"
| "react (DropRestart c) s = s\<lparr>restartCallbacks := removeAll c (restartCallbacks s)\<rparr>"
| "react Retry s = retry_all s"
| "react Close s = close_channel s"
| "react (SourceHello n conn facts) s = (if source s = Some n then onHello conn facts s else s)"
| "react (SourceMessage n kind raw) s = (if source s = Some n then onEngineMessage kind raw s else s)"
| "react (SourceStopping n) s = (if source s = Some n then onStopping s else s)"
| "react (SourceError n gone) s = (if source s = Some n then onError n gone s else s)"
| "react FlushTask s = flush_task s"
| "react (PostDone n answer) s = post_done n answer s"
| "react (ProbeAnswered g answer) s = probe_answered g answer s"
| "react (ProbeSettled g) s = probe_settled g s"
| "react (LocalRetryFires i) s = local_retry_fires i s"
| "react ReleaseFires s = (if releaseTimer s = None then s else release_tab s)"
| "react ConnectFires s = connect_fires s"
| "react RetryFires s = (if retryTimer s = None then s else connect s)"
| "react OfflineFires s = offline_fires s"
| "react IdleFires s = idle_fires s"
| "react FlushRetryFires s = (if flushRetry s = None then s else scheduleFlush (s\<lparr>flushRetry := None\<rparr>))"

inductive running :: "chan \<Rightarrow> bool" where
  start: "running (createLiveChannel name kinds both shown time)"
| step: "running s \<Longrightarrow> running (react i s)"

end
