(* ===== verification/Live_Frame.thy ===== *)
theory Live_Frame
  imports Live_Channel
begin

text \<open>
  What the channel's functions leave alone. The channel's state falls in three groups, the
  leader's books, its dealings with the engine, and what the tab shows; the rest is read by no
  invariant. For every function the lemmas say which groups it leaves as they are.
\<close>

section \<open>The groups\<close>

definition books :: "chan \<Rightarrow> jstring \<times> resume_table \<times> (jstring \<times> tab_sub) list \<times> (jstring \<times> engine_sub) list \<times>
    (jstring \<times> jstring) list \<times> jstring list \<times> nat \<times> post_call list" where
  "books s = (tab s, table s, tabSubs s, engineSubs s, sharedByKey s, removes s, engineSerial s, inflight s)"

definition posts :: "chan \<Rightarrow> bool \<times> post_call list \<times> bool \<times> delay option \<times> jstring option \<times> nat \<times> nat option" where
  "posts s = (posting s, inflight s, flushQueued s, flushRetry s, connection s, generation s, source s)"

definition shows_of :: "chan \<Rightarrow> election \<times> bool \<times> bool \<times> live_status \<times> live_status \<times> bool" where
  "shows_of s = (elect s, engaged s, closed s, channelStatus s, st_status s, st_leader s)"

lemmas group_defs = books_def posts_def shows_of_def

definition quiet :: "chan \<Rightarrow> chan \<Rightarrow> bool" where
  "quiet s s' \<longleftrightarrow> books s' = books s \<and> posts s' = posts s \<and> shows_of s' = shows_of s"

lemma quiet_refl [simp, intro]: "quiet s s"
  by (simp add: quiet_def)

lemma quiet_trans [trans]: "quiet s t \<Longrightarrow> quiet t u \<Longrightarrow> quiet s u"
  by (simp add: quiet_def)

lemma quiet_fold: "(\<And>x s. x \<in> set xs \<Longrightarrow> quiet s (f x s)) \<Longrightarrow> quiet s (fold f xs s)"
  by (induction xs arbitrary: s) (auto intro: quiet_trans)

lemma quiet_groups:
  assumes "quiet s s'"
  shows "books s' = books s" and "posts s' = posts s" and "shows_of s' = shows_of s"
  using assms by (simp_all add: quiet_def)

lemma quiet_fields:
  assumes "quiet s s'"
  shows "tab s' = tab s" "table s' = table s" "tabSubs s' = tabSubs s" "engineSubs s' = engineSubs s"
    "sharedByKey s' = sharedByKey s" "removes s' = removes s" "engineSerial s' = engineSerial s"
    "elect s' = elect s" "engaged s' = engaged s" "closed s' = closed s" "posting s' = posting s"
    "inflight s' = inflight s" "flushQueued s' = flushQueued s" "flushRetry s' = flushRetry s"
    "connection s' = connection s" "generation s' = generation s" "source s' = source s"
    "channelStatus s' = channelStatus s" "st_status s' = st_status s" "st_leader s' = st_leader s"
  using assms by (auto simp: quiet_def group_defs)

section \<open>Functions that touch none of them\<close>

text \<open>Updates of the fields outside the groups.\<close>

lemma quiet_update [simp, intro]:
  "quiet s (s\<lparr>st_since := t\<rparr>)" "quiet s (s\<lparr>now := t\<rparr>)" "quiet s (s\<lparr>visible := v\<rparr>)" "quiet s (s\<lparr>st_instance := i\<rparr>)"
  "quiet s (s\<lparr>st_engineUpdated := b\<rparr>)" "quiet s (s\<lparr>restartCallbacks := cs\<rparr>)" "quiet s (s\<lparr>locals := ls\<rparr>)"
  "quiet s (s\<lparr>localSerial := n\<rparr>)" "quiet s (s\<lparr>wanted := b\<rparr>)" "quiet s (s\<lparr>readying := n\<rparr>)"
  "quiet s (s\<lparr>releaseTimer := d\<rparr>)" "quiet s (s\<lparr>pageBuild := p\<rparr>)" "quiet s (s\<lparr>engineInstance := i\<rparr>)"
  "quiet s (s\<lparr>requests := n\<rparr>)" "quiet s (s\<lparr>opened := n\<rparr>)" "quiet s (s\<lparr>lastHello := h\<rparr>)"
  "quiet s (s\<lparr>heardHello := b\<rparr>)" "quiet s (s\<lparr>dropping := b\<rparr>)" "quiet s (s\<lparr>attempt := n\<rparr>)"
  "quiet s (s\<lparr>connectTimer := c\<rparr>)" "quiet s (s\<lparr>retryTimer := d\<rparr>)" "quiet s (s\<lparr>offlineTimer := d\<rparr>)"
  "quiet s (s\<lparr>idleTimer := d\<rparr>)" "quiet s (s\<lparr>probes := ps\<rparr>)" "quiet s (s\<lparr>out := calls\<rparr>)"
  by (simp_all add: quiet_def group_defs)

lemma quiet_emit [simp, intro]: "quiet s (emit c s)"
  by (simp add: emit_def)

lemma quiet_upd_local [simp, intro]: "quiet s (upd_local i f s)"
  by (simp add: upd_local_def)

lemma quiet_election_send [simp, intro]: "quiet s (election_send m s)"
  by (simp add: election_send_def)

lemma quiet_setLocalState [simp, intro]: "quiet s (setLocalState i st s)"
  by (auto simp: setLocalState_def split: option.split intro: quiet_trans)

lemmas quiet_after = quiet_trans [OF _ quiet_emit] quiet_trans [OF _ quiet_upd_local]
  quiet_trans [OF _ quiet_election_send] quiet_trans [OF _ quiet_setLocalState]

lemma quiet_activate [simp, intro]: "quiet s (activate i s)"
  by (auto simp: activate_def Let_def split: option.split intro!: quiet_after)

lemma quiet_scheduleResubscribe [simp, intro]: "quiet s (scheduleResubscribe i s)"
  by (simp add: scheduleResubscribe_def)

lemma quiet_deliverLocal [simp, intro]: "quiet s (deliverLocal i k m s)"
  by (cases k) (auto simp: deliver_ev_def deliver_end_def Let_def intro!: quiet_after
    quiet_trans [OF _ quiet_scheduleResubscribe])

lemma quiet_deliverRaw [simp, intro]: "quiet s (deliverRaw is k raw s)"
  unfolding deliverRaw_def
  by (auto simp del: fold.simps intro!: quiet_fold split: list.split option.split json.split)

lemma quiet_refuseLocal [simp, intro]: "quiet s (refuseLocal is error s)"
  unfolding refuseLocal_def by (rule quiet_fold) (auto intro: quiet_trans)

lemma quiet_acceptLocal [simp, intro]: "quiet s (acceptLocal is s)"
  unfolding acceptLocal_def by (rule quiet_fold) (auto split: option.split)

lemma quiet_route [simp, intro]: "quiet s (route subs k raw s)"
  unfolding route_def Let_def by (auto intro: quiet_trans)

lemma quiet_announceAccepted [simp, intro]: "quiet s (announceAccepted subs s)"
proof -
  have "quiet s (fold (\<lambda>u. acceptLocal [t_id u]) us s)" for us by (rule quiet_fold) simp
  then show ?thesis unfolding announceAccepted_def Let_def by (auto intro: quiet_trans)
qed

lemma quiet_announce [simp, intro]: "quiet s (announce s)"
  unfolding announce_def Let_def by (auto intro: quiet_trans split: option.split list.split)

lemma quiet_idleCheck [simp, intro]: "quiet s (idleCheck s)"
  by (simp add: idleCheck_def)

lemma quiet_watchConnecting [simp, intro]: "quiet s (watchConnecting n s)"
  by (simp add: watchConnecting_def)

lemma quiet_engage [simp, intro]: "quiet s (engage s)"
  by (simp add: engage_def quiet_def group_defs)

lemma quiet_onVisibility [simp, intro]: "quiet s (onVisibility s)"
  by (auto simp: onVisibility_def intro: quiet_trans)

lemma quiet_seeInstance: "seeInstance facts s = (seen, s') \<Longrightarrow> quiet s s'"
proof -
  have "quiet s (fold (\<lambda>c. emit (RestartCallback c)) cs s)" for cs s by (rule quiet_fold) simp
  then have "quiet s (emit OnRestarted (fold (\<lambda>c. emit (RestartCallback c)) cs (emit OnRestart t)))"
    if "quiet s t" for cs t using that by (meson quiet_emit quiet_trans)
  moreover assume "seeInstance facts s = (seen, s')"
  ultimately show ?thesis
    by (auto simp: seeInstance_def Let_def quiet_def group_defs split: option.splits if_splits)
qed

section \<open>Functions that touch one group\<close>

lemmas quiet_all = quiet_emit quiet_upd_local quiet_election_send quiet_setLocalState quiet_activate
  quiet_deliverRaw quiet_refuseLocal quiet_acceptLocal quiet_route quiet_announceAccepted quiet_announce
  quiet_idleCheck quiet_watchConnecting quiet_engage quiet_onVisibility quiet_update

lemmas books_quiet [simp] = quiet_all [THEN quiet_groups(1)]
lemmas posts_quiet [simp] = quiet_all [THEN quiet_groups(2)]
lemmas shows_quiet [simp] = quiet_all [THEN quiet_groups(3)]

text \<open>Updates of one group, seen from another.\<close>

lemma books_other [simp]:
  "books (s\<lparr>posting := x1\<rparr>) = books s" "books (s\<lparr>flushQueued := x2\<rparr>) = books s"
  "books (s\<lparr>flushRetry := x3\<rparr>) = books s" "books (s\<lparr>connection := x4\<rparr>) = books s"
  "books (s\<lparr>generation := x5\<rparr>) = books s" "books (s\<lparr>source := x6\<rparr>) = books s"
  "books (s\<lparr>elect := x7\<rparr>) = books s" "books (s\<lparr>engaged := x8\<rparr>) = books s"
  "books (s\<lparr>closed := x9\<rparr>) = books s" "books (s\<lparr>channelStatus := x10\<rparr>) = books s"
  "books (s\<lparr>st_status := x11\<rparr>) = books s" "books (s\<lparr>st_leader := x12\<rparr>) = books s"
  by (simp_all add: group_defs)

lemma posts_other [simp]:
  "posts (s\<lparr>tabSubs := x13\<rparr>) = posts s" "posts (s\<lparr>engineSubs := x14\<rparr>) = posts s"
  "posts (s\<lparr>sharedByKey := x15\<rparr>) = posts s" "posts (s\<lparr>removes := x16\<rparr>) = posts s"
  "posts (s\<lparr>engineSerial := x17\<rparr>) = posts s" "posts (s\<lparr>elect := x18\<rparr>) = posts s"
  "posts (s\<lparr>engaged := x19\<rparr>) = posts s" "posts (s\<lparr>closed := x20\<rparr>) = posts s"
  "posts (s\<lparr>channelStatus := x21\<rparr>) = posts s" "posts (s\<lparr>st_status := x22\<rparr>) = posts s"
  "posts (s\<lparr>st_leader := x23\<rparr>) = posts s"
  by (simp_all add: group_defs)

lemma shows_other [simp]:
  "shows_of (s\<lparr>tabSubs := x24\<rparr>) = shows_of s" "shows_of (s\<lparr>engineSubs := x25\<rparr>) = shows_of s"
  "shows_of (s\<lparr>sharedByKey := x26\<rparr>) = shows_of s" "shows_of (s\<lparr>removes := x27\<rparr>) = shows_of s"
  "shows_of (s\<lparr>engineSerial := x28\<rparr>) = shows_of s" "shows_of (s\<lparr>posting := x29\<rparr>) = shows_of s"
  "shows_of (s\<lparr>flushQueued := x30\<rparr>) = shows_of s"
  "shows_of (s\<lparr>flushRetry := x31\<rparr>) = shows_of s" "shows_of (s\<lparr>connection := x32\<rparr>) = shows_of s"
  "shows_of (s\<lparr>generation := x33\<rparr>) = shows_of s" "shows_of (s\<lparr>source := x34\<rparr>) = shows_of s"
  "shows_of (s\<lparr>inflight := x35\<rparr>) = shows_of s"
  by (simp_all add: group_defs)

lemma call_election_groups [simp]:
  "books (call_election r s) = books s" "posts (call_election r s) = posts s" "elect (call_election r s) = fst r"
  "engaged (call_election r s) = engaged s" "closed (call_election r s) = closed s"
  "channelStatus (call_election r s) = channelStatus s" "st_status (call_election r s) = st_status s"
  "st_leader (call_election r s) = st_leader s" "locals (call_election r s) = locals s"
  by (simp_all add: call_election_def group_defs)

lemma election_want_groups [simp]:
  "books (election_want s) = books s" "posts (election_want s) = posts s"
  "elect (election_want s) = fst (want (requests s) (elect s))"
  "engaged (election_want s) = engaged s" "closed (election_want s) = closed s"
  "channelStatus (election_want s) = channelStatus s" "st_status (election_want s) = st_status s"
  "st_leader (election_want s) = st_leader s"
  by (simp_all add: election_want_def)

lemma election_withdraw_groups [simp]:
  "books (election_withdraw s) = books s" "posts (election_withdraw s) = posts s"
  "elect (election_withdraw s) = fst (withdraw (elect s))"
  "engaged (election_withdraw s) = engaged s" "closed (election_withdraw s) = closed s"
  "channelStatus (election_withdraw s) = channelStatus s" "st_status (election_withdraw s) = st_status s"
  "st_leader (election_withdraw s) = st_leader s"
  by (simp_all add: election_withdraw_def)

lemma report_groups [simp]:
  "books (report s) = books s" "posts (report s) = posts s" "elect (report s) = elect s"
  "engaged (report s) = engaged s" "closed (report s) = closed s" "channelStatus (report s) = channelStatus s"
  "st_status (report s) = (if engaged s then channelStatus s else Paused)" "st_leader (report s) = isLeader s"
  by (simp_all add: report_def group_defs Let_def)

lemma closeSource_groups [simp]:
  "books (closeSource s) = books s" "shows_of (closeSource s) = shows_of s"
  "posts (closeSource s) = (posting s, inflight s, flushQueued s, flushRetry s, None, generation s, None)"
  by (auto simp: closeSource_def group_defs Let_def emit_def split: option.split)

lemma setChannelStatus_groups [simp]:
  "books (setChannelStatus st s) = books s" "posts (setChannelStatus st s) = posts s"
  "shows_of (setChannelStatus st s) = (elect s, engaged s, closed s, st, if engaged s then st else Paused, isLeader s)"
proof -
  have "shows_of (setChannelStatus st s) = shows_of (report (s\<lparr>channelStatus := st\<rparr>))" by (simp add: setChannelStatus_def)
  also have "\<dots> = (elect s, engaged s, closed s, st, if engaged s then st else Paused, isLeader s)"
    by (simp add: shows_of_def)
  finally show "shows_of (setChannelStatus st s) = (elect s, engaged s, closed s, st, if engaged s then st else Paused, isLeader s)" .
qed (simp_all add: setChannelStatus_def)

lemma connect_books [simp]: "books (connect s) = books s"
  by (simp add: connect_def Let_def)

lemma connect_shows [simp]: "shows_of (connect s) = shows_of s"
  by (simp add: connect_def Let_def)

lemma beginDrop_groups [simp]: "books (beginDrop s) = books s" "posts (beginDrop s) = posts s"
  by (simp_all add: beginDrop_def Let_def)

lemma scheduleRetry_groups [simp]: "books (scheduleRetry s) = books s" "posts (scheduleRetry s) = posts s"
  by (simp_all add: scheduleRetry_def Let_def)

lemma onStopping_books [simp]: "books (onStopping s) = books s"
  by (simp add: onStopping_def Let_def)

lemma onError_books [simp]: "books (onError n gone s) = books s"
  by (simp add: onError_def Let_def)

lemma probe_groups [simp]:
  "books (probe_answered g a s) = books s" "posts (probe_answered g a s) = posts s"
  "books (probe_settled g s) = books s" "posts (probe_settled g s) = posts s"
  by (auto simp: probe_answered_def probe_settled_def Let_def split: option.split)

lemma fires_books [simp]: "books (connect_fires s) = books s" "books (offline_fires s) = books s"
  "posts (offline_fires s) = posts s"
  by (auto simp: connect_fires_def offline_fires_def Let_def split: option.split)

section \<open>What an invariant must allow\<close>

text \<open>
  A property of the channel that reads the three groups only, and that the leader's adding and
  removing keep, is kept by everything that offers or withdraws subscriptions.
\<close>

locale channel_law =
  fixes P :: "chan \<Rightarrow> bool"
  assumes quiet: "quiet s s' \<Longrightarrow> P s \<Longrightarrow> P s'"
    and add: "isLeader s \<Longrightarrow> P s \<Longrightarrow> P (leaderAdd t i topic params c s)"
    and remove: "isLeader s \<Longrightarrow> P s \<Longrightarrow> P (leaderRemove i s)"
begin

lemma keeps_offer: "P s \<Longrightarrow> P (offer i s)"
  by (auto simp: offer_def add quiet [OF quiet_election_send] split: option.split)

lemma keeps_withdrawLocal: "P s \<Longrightarrow> P (withdrawLocal i s)"
  by (simp add: withdrawLocal_def remove quiet [OF quiet_election_send])

lemma keeps_offer_next: "P s \<Longrightarrow> P (offer_next r i s)"
  by (auto simp: offer_next_def intro!: keeps_offer quiet [OF quiet_setLocalState] split: option.split)

lemma keeps_fold: "(\<And>x s. P s \<Longrightarrow> P (f x s)) \<Longrightarrow> P s \<Longrightarrow> P (fold f xs s)"
  by (induction xs arbitrary: s) auto

lemma keeps_offerAll: "P s \<Longrightarrow> P (offerAll r s)"
  unfolding offerAll_def by (rule keeps_fold) (rule keeps_offer_next)

lemma keeps_retry_all: "P s \<Longrightarrow> P (retry_all s)"
  unfolding retry_all_def
proof (rule keeps_fold)
  show "P s \<Longrightarrow> P (retry_next i s)" for i s
    by (auto simp: retry_next_def intro!: keeps_offer quiet [OF quiet_setLocalState] quiet [OF quiet_upd_local]
      split: option.split)
qed

lemma keeps_local_retry: "P s \<Longrightarrow> P (local_retry_fires i s)"
  by (auto simp: local_retry_fires_def Let_def intro!: keeps_offer quiet [OF quiet_setLocalState]
    quiet [OF quiet_upd_local] split: option.split)

end

end
