(* ===== verification/Live_Books.thy ===== *)
theory Live_Books
  imports Live_Frame
begin

text \<open>
  The leader's books: which tab's subscription rides on which subscription of the engine. The
  invariant is stated over the maps the books are, kept by every change the channel makes to
  them, and so true in every state a channel reaches.
\<close>

section \<open>The invariant\<close>

text \<open>The ids the leader gives: its name, a dot and a number it has counted to.\<close>

definition own_id :: "jstring \<Rightarrow> nat \<Rightarrow> jstring \<Rightarrow> bool" where
  "own_id name n e \<longleftrightarrow> (\<exists>m. 1 \<le> m \<and> m \<le> n \<and> e = name @ 46 # show_nat m)"

definition tab_entry :: "(jstring \<rightharpoonup> engine_sub) \<Rightarrow> jstring \<Rightarrow> tab_sub \<Rightarrow> bool" where
  "tab_entry E i u \<longleftrightarrow> t_id u = i \<and>
     (\<exists>e en. engine u = Some e \<and> E e = Some en \<and> i \<in> set (members en) \<and> e_key en = topicKey (t_topic u) (t_params u))"

definition engine_entry :: "(jstring \<rightharpoonup> tab_sub) \<Rightarrow> (jstring \<rightharpoonup> jstring) \<Rightarrow> jstring \<Rightarrow> engine_sub \<Rightarrow> bool" where
  "engine_entry T S e en \<longleftrightarrow> e_id en = e \<and> members en \<noteq> [] \<and> distinct (members en) \<and>
     (\<forall>i\<in>set (members en). \<exists>u. T i = Some u \<and> engine u = Some e) \<and>
     (if e_shared en then S (e_key en) = Some e else length (members en) = 1)"

definition books_inv :: "jstring \<Rightarrow> nat \<Rightarrow> (jstring \<rightharpoonup> tab_sub) \<Rightarrow> (jstring \<rightharpoonup> engine_sub) \<Rightarrow> (jstring \<rightharpoonup> jstring) \<Rightarrow>
    jstring set \<Rightarrow> bool" where
  "books_inv name n T E S R \<longleftrightarrow>
     (\<forall>i u. T i = Some u \<longrightarrow> tab_entry E i u) \<and>
     (\<forall>e en. E e = Some en \<longrightarrow> engine_entry T S e en \<and> own_id name n e) \<and>
     (\<forall>k e. S k = Some e \<longrightarrow> (\<exists>en. E e = Some en \<and> e_key en = k \<and> e_shared en)) \<and>
     (\<forall>e\<in>R. E e = None \<and> own_id name n e)"

lemma books_invI:
  assumes "\<And>i u. T i = Some u \<Longrightarrow> tab_entry E i u"
    and "\<And>e en. E e = Some en \<Longrightarrow> engine_entry T S e en \<and> own_id name n e"
    and "\<And>k e. S k = Some e \<Longrightarrow> \<exists>en. E e = Some en \<and> e_key en = k \<and> e_shared en"
    and "\<And>e. e \<in> R \<Longrightarrow> E e = None \<and> own_id name n e"
  shows "books_inv name n T E S R"
  unfolding books_inv_def using assms by blast

lemma books_invD:
  assumes "books_inv name n T E S R"
  shows "T i = Some u \<Longrightarrow> tab_entry E i u"
    and "E e = Some en \<Longrightarrow> engine_entry T S e en"
    and "E e = Some en \<Longrightarrow> own_id name n e"
    and "S k = Some e \<Longrightarrow> \<exists>en. E e = Some en \<and> e_key en = k \<and> e_shared en"
    and "e \<in> R \<Longrightarrow> E e = None \<and> own_id name n e"
  using assms unfolding books_inv_def by blast+

lemma own_id_mono: "own_id name n e \<Longrightarrow> n \<le> m \<Longrightarrow> own_id name m e"
  unfolding own_id_def by (auto intro: le_trans)

lemma own_id_next: "own_id name (Suc n) (name @ 46 # show_nat (Suc n))" "\<not> own_id name n (name @ 46 # show_nat (Suc n))"
  unfolding own_id_def by auto

text \<open>An entry of a tab stays one when its engine subscription keeps the member and the key.\<close>

lemma tab_entry_cong:
  assumes "tab_entry E i u"
    and "\<And>e en. engine u = Some e \<Longrightarrow> E e = Some en \<Longrightarrow> i \<in> set (members en) \<Longrightarrow>
      \<exists>en'. E' e = Some en' \<and> i \<in> set (members en') \<and> e_key en' = e_key en"
  shows "tab_entry E' i u"
proof -
  obtain e en where "t_id u = i" "engine u = Some e" "E e = Some en" "i \<in> set (members en)"
    "e_key en = topicKey (t_topic u) (t_params u)" using assms(1) unfolding tab_entry_def by blast
  with assms(2) [of e en] show ?thesis unfolding tab_entry_def by metis
qed

text \<open>A member belongs to one engine subscription only.\<close>

lemma member_engine:
  assumes "books_inv name n T E S R" and "E e = Some en" and "i \<in> set (members en)"
  obtains u where "T i = Some u" and "engine u = Some e"
  using books_invD(2) [OF assms(1,2)] assms(3) unfolding engine_entry_def by blast

lemma members_apart:
  assumes "books_inv name n T E S R" and "E e = Some en" and "E e' = Some en'"
    and "i \<in> set (members en)" and "i \<in> set (members en')"
  shows "e = e'"
  using member_engine [OF assms(1,2,4)] member_engine [OF assms(1,3,5)] by (metis option.inject)

lemma not_member:
  assumes "books_inv name n T E S R" and "E e = Some en" and "T i = None"
  shows "i \<notin> set (members en)"
proof
  assume "i \<in> set (members en)"
  then obtain u where "T i = Some u" by (rule member_engine [OF assms(1,2)])
  with assms(3) show False by simp
qed

section \<open>The changes\<close>

text \<open>A tab's subscription joins an engine subscription that is shared.\<close>

lemma books_join:
  assumes inv: "books_inv name n T E S R" and new: "T i = None" and e: "E e = Some en" "e_shared en"
    and u: "t_id u = i" "engine u = Some e" "e_key en = topicKey (t_topic u) (t_params u)"
  shows "books_inv name n (T(i \<mapsto> u)) (E(e \<mapsto> en\<lparr>members := members en @ [i]\<rparr>)) S R"
proof (rule books_invI)
  note i = not_member [OF inv _ new]
  show "tab_entry (E(e \<mapsto> en\<lparr>members := members en @ [i]\<rparr>)) j v" if "(T(i \<mapsto> u)) j = Some v" for j v
  proof (cases "j = i")
    case True
    with that u show ?thesis by (auto simp: tab_entry_def)
  next
    case False
    with that have "T j = Some v" by simp
    from books_invD(1) [OF inv this] show ?thesis by (rule tab_entry_cong) (use e in \<open>auto split: if_splits\<close>)
  qed
  show "engine_entry (T(i \<mapsto> u)) S f fn \<and> own_id name n f"
    if "(E(e \<mapsto> en\<lparr>members := members en @ [i]\<rparr>)) f = Some fn" for f fn
  proof (cases "f = e")
    case True
    then show ?thesis using that books_invD(2,3) [OF inv e(1)] e(2) u i [OF e(1)] by (auto simp: engine_entry_def)
  next
    case False
    then have f: "E f = Some fn" using that by simp
    show ?thesis using books_invD(2,3) [OF inv f] i [OF f] by (auto simp: engine_entry_def)
  qed
  show "\<exists>fn. (E(e \<mapsto> en\<lparr>members := members en @ [i]\<rparr>)) f = Some fn \<and> e_key fn = k \<and> e_shared fn" if "S k = Some f" for k f
    using books_invD(4) [OF inv that] e by auto
  show "(E(e \<mapsto> en\<lparr>members := members en @ [i]\<rparr>)) f = None \<and> own_id name n f" if "f \<in> R" for f
    using books_invD(5) [OF inv that] e by auto
qed

text \<open>One opens an engine subscription of its own, under an id never given before.\<close>

lemma books_open:
  assumes inv: "books_inv name n T E S R" and new: "T i = None" and e: "\<not> own_id name n e" "own_id name m e" "n \<le> m"
    and u: "t_id u = i" "engine u = Some e" "e_key en = topicKey (t_topic u) (t_params u)"
    and en: "e_id en = e" "members en = [i]" and S: "e_shared en \<Longrightarrow> S (e_key en) = None"
  shows "books_inv name m (T(i \<mapsto> u)) (E(e \<mapsto> en)) (if e_shared en then S(e_key en \<mapsto> e) else S) R"
proof (rule books_invI)
  have fresh: "E e = None" "e \<notin> R" using books_invD(3,5) [OF inv] e(1) by (cases "E e"; blast)+
  note i = not_member [OF inv _ new]
  show "tab_entry (E(e \<mapsto> en)) j v" if "(T(i \<mapsto> u)) j = Some v" for j v
  proof (cases "j = i")
    case True
    with that u en show ?thesis by (auto simp: tab_entry_def)
  next
    case False
    with that have "T j = Some v" by simp
    from books_invD(1) [OF inv this] show ?thesis by (rule tab_entry_cong) (use fresh in auto)
  qed
  show "engine_entry (T(i \<mapsto> u)) (if e_shared en then S(e_key en \<mapsto> e) else S) f fn \<and> own_id name m f"
    if "(E(e \<mapsto> en)) f = Some fn" for f fn
  proof (cases "f = e")
    case True
    then show ?thesis using that e u en by (auto simp: engine_entry_def)
  next
    case False
    then have f: "E f = Some fn" using that by simp
    show ?thesis
      using books_invD(2,3) [OF inv f] S i [OF f] new own_id_mono [OF _ e(3)]
      by (auto simp: engine_entry_def split: if_splits)
  qed
  show "\<exists>fn. (E(e \<mapsto> en)) f = Some fn \<and> e_key fn = k \<and> e_shared fn"
    if "(if e_shared en then S(e_key en \<mapsto> e) else S) k = Some f" for k f
    using that books_invD(4) [OF inv, of k f] fresh by (auto split: if_splits)
  show "(E(e \<mapsto> en)) f = None \<and> own_id name m f" if "f \<in> R" for f
    using books_invD(5) [OF inv that] fresh that own_id_mono [OF _ e(3)] by auto
qed

text \<open>One of several members leaves.\<close>

lemma books_leave:
  assumes inv: "books_inv name n T E S R" and e: "E e = Some en" and rest: "removeAll i (members en) \<noteq> []"
    and i: "i \<in> set (members en)"
  shows "books_inv name n (T(i := None)) (E(e \<mapsto> en\<lparr>members := removeAll i (members en)\<rparr>)) S R"
proof (rule books_invI)
  show "tab_entry (E(e \<mapsto> en\<lparr>members := removeAll i (members en)\<rparr>)) j v" if "(T(i := None)) j = Some v" for j v
  proof -
    have "T j = Some v" "j \<noteq> i" using that by (auto split: if_splits)
    from books_invD(1) [OF inv this(1)] show ?thesis
      by (rule tab_entry_cong) (use e \<open>j \<noteq> i\<close> in \<open>auto split: if_splits\<close>)
  qed
  have shared: "e_shared en"
    using books_invD(2) [OF inv e] rest i by (cases "members en") (auto simp: engine_entry_def split: if_splits)
  show "engine_entry (T(i := None)) S f fn \<and> own_id name n f"
    if "(E(e \<mapsto> en\<lparr>members := removeAll i (members en)\<rparr>)) f = Some fn" for f fn
  proof (cases "f = e")
    case True
    then show ?thesis using that books_invD(2,3) [OF inv e] rest shared
      by (auto simp: engine_entry_def distinct_removeAll)
  next
    case False
    then have f: "E f = Some fn" using that by simp
    have "i \<notin> set (members fn)" using members_apart [OF inv f e _ i] False by blast
    then show ?thesis using books_invD(2,3) [OF inv f] by (auto simp: engine_entry_def)
  qed
  show "\<exists>fn. (E(e \<mapsto> en\<lparr>members := removeAll i (members en)\<rparr>)) f = Some fn \<and> e_key fn = k \<and> e_shared fn"
    if "S k = Some f" for k f
    using books_invD(4) [OF inv that] e by auto
  show "(E(e \<mapsto> en\<lparr>members := removeAll i (members en)\<rparr>)) f = None \<and> own_id name n f" if "f \<in> R" for f
    using books_invD(5) [OF inv that] e by auto
qed

text \<open>An engine subscription goes with all its members.\<close>

lemma books_drop:
  assumes inv: "books_inv name n T E S R" and e: "E e = Some en" and R': "R' \<subseteq> insert e R"
    and T': "\<And>i. T' i = (if i \<in> set (members en) then None else T i)"
    and S': "\<And>k. S' k = (if k = e_key en \<and> S k = Some e then None else S k)"
  shows "books_inv name n T' (E(e := None)) S' R'"
proof (rule books_invI)
  show "tab_entry (E(e := None)) j v" if "T' j = Some v" for j v
  proof -
    have "T j = Some v" "j \<notin> set (members en)" using that by (auto simp: T' split: if_splits)
    from books_invD(1) [OF inv this(1)] show ?thesis
      by (rule tab_entry_cong) (use e \<open>j \<notin> set (members en)\<close> in auto)
  qed
  show "engine_entry T' S' f fn \<and> own_id name n f" if "(E(e := None)) f = Some fn" for f fn
  proof -
    have f: "E f = Some fn" "f \<noteq> e" using that by (auto split: if_splits)
    have "i \<notin> set (members en)" if "i \<in> set (members fn)" for i
      using members_apart [OF inv f(1) e that] f(2) by blast
    then show ?thesis using books_invD(2,3) [OF inv f(1)] f(2) by (auto simp: engine_entry_def T' S')
  qed
  show "\<exists>fn. (E(e := None)) f = Some fn \<and> e_key fn = k \<and> e_shared fn" if "S' k = Some f" for k f
  proof -
    have k: "S k = Some f" "\<not> (k = e_key en \<and> f = e)" using that by (auto simp: S' split: if_splits)
    then show ?thesis using books_invD(4) [OF inv k(1)] e by auto
  qed
  show "(E(e := None)) f = None \<and> own_id name n f" if "f \<in> R'" for f
    using that R' books_invD(5) [OF inv, of f] books_invD(3) [OF inv e] by auto
qed

text \<open>Changes of what the invariant does not read.\<close>

lemma books_same:
  assumes inv: "books_inv name n T E S R" and R': "R' \<subseteq> R"
    and E': "\<And>e. E' e = map_option (f e) (E e)"
    and f: "\<And>e en. E e = Some en \<Longrightarrow> e_id (f e en) = e_id en \<and> members (f e en) = members en \<and> e_key (f e en) = e_key en \<and>
      e_shared (f e en) = e_shared en"
    and T': "\<And>i. T' i = map_option g (T i)"
    and g: "\<And>u. t_id (g u) = t_id u \<and> engine (g u) = engine u \<and> t_topic (g u) = t_topic u \<and> t_params (g u) = t_params u"
  shows "books_inv name n T' E' S R'"
proof (rule books_invI)
  show "tab_entry E' i v" if v: "T' i = Some v" for i v
  proof -
    obtain u where u: "T i = Some u" "v = g u" using v by (auto simp: T')
    have "tab_entry E' i u"
      using books_invD(1) [OF inv u(1)] by (rule tab_entry_cong) (auto simp: E' dest: f)
    then show ?thesis using g [of u] by (simp add: tab_entry_def u(2))
  qed
  show "engine_entry T' S e x \<and> own_id name n e" if x: "E' e = Some x" for e x
  proof -
    obtain en where en: "E e = Some en" "x = f e en" using x by (auto simp: E')
    have "\<exists>u'. T' i = Some u' \<and> engine u' = Some e" if "i \<in> set (members en)" for i
      using member_engine [OF inv en(1) that] g by (metis T' option.simps(9))
    then show ?thesis using books_invD(2,3) [OF inv en(1)] f [OF en(1)] by (simp add: engine_entry_def en(2))
  qed
  show "\<exists>x. E' e = Some x \<and> e_key x = k \<and> e_shared x" if "S k = Some e" for k e
    using books_invD(4) [OF inv that] by (auto simp: E' dest: f)
  show "E' e = None \<and> own_id name n e" if "e \<in> R'" for e
    using that R' books_invD(5) [OF inv, of e] by (auto simp: E')
qed

lemma books_empty: "books_inv name n Map.empty Map.empty Map.empty {}"
  by (simp add: books_inv_def)

section \<open>The channel keeps its books\<close>

text \<open>What the engine was or is to be told to drop, by POSTs not yet answered too.\<close>

definition leaving :: "chan \<Rightarrow> jstring set" where
  "leaving s = set (removes s) \<union> (\<Union>p\<in>set (inflight s). set (post_removes p))"

definition books_ok :: "chan \<Rightarrow> bool" where
  "books_ok s \<longleftrightarrow> distinct (map fst (tabSubs s)) \<and> distinct (map fst (engineSubs s)) \<and>
     books_inv (tab s) (engineSerial s) (map_of (tabSubs s)) (map_of (engineSubs s)) (map_of (sharedByKey s)) (leaving s)"

lemma leaving_update [simp]:
  "leaving (s\<lparr>tabSubs := ts\<rparr>) = leaving s" "leaving (s\<lparr>engineSubs := es\<rparr>) = leaving s"
  "leaving (s\<lparr>sharedByKey := sh\<rparr>) = leaving s" "leaving (s\<lparr>engineSerial := n\<rparr>) = leaving s"
  "leaving (s\<lparr>flushQueued := b\<rparr>) = leaving s" "leaving (s\<lparr>idleTimer := d\<rparr>) = leaving s"
  by (simp_all add: leaving_def)

lemma books_ok_cong: "books s' = books s \<Longrightarrow> books_ok s' = books_ok s"
  by (simp add: books_ok_def leaving_def books_def)

lemma keys_map_entry [simp]: "map fst (AList.map_entry k f xs) = map fst xs"
  by (induction xs) auto

lemma map_of_map_values: "map_of (map (\<lambda>(i, x). (i, f i x)) xs) k = map_option (f k) (map_of xs k)"
  by (induction xs) auto

lemma keys_map_values: "map (fst \<circ> (\<lambda>(i, x). (i, f i x))) xs = map fst xs"
  by (simp add: split_def)

lemmas alist_simps = AList.update_conv' AList.delete_conv' AList.map_of_map_entry AList.distinct_update AList.distinct_delete

lemma books_okD:
  assumes "books_ok s"
  shows "books_inv (tab s) (engineSerial s) (map_of (tabSubs s)) (map_of (engineSubs s)) (map_of (sharedByKey s)) (leaving s)"
    and "distinct (map fst (tabSubs s))" and "distinct (map fst (engineSubs s))"
  using assms by (simp_all add: books_ok_def)

lemma books_ok_join:
  assumes ok: "books_ok s" and new: "map_of (tabSubs s) (t_id sub) = None" and e: "map_of (engineSubs s) e = Some en"
    and en: "e_shared en" "e_id en = e" "e_key en = topicKey (t_topic sub) (t_params sub)"
  shows "books_ok (join_engine sub en (s\<lparr>tabSubs := AList.update (t_id sub) sub (tabSubs s)\<rparr>))"
proof -
  let ?i = "t_id sub"
  let ?t = "upd_tab ?i (\<lambda>u. u\<lparr>engine := Some (e_id en)\<rparr>) (upd_engine (e_id en)
    (\<lambda>en. en\<lparr>members := set_add ?i (members en)\<rparr>) (s\<lparr>tabSubs := AList.update ?i sub (tabSubs s)\<rparr>))"
  note inv = books_okD(1) [OF ok]
  have "set_add ?i (members en) = members en @ [?i]" using not_member [OF inv e new] by (simp add: set_add_def)
  with books_join [OF inv new e en(1), of "sub\<lparr>engine := Some e\<rparr>"] en ok e
  have "books_ok ?t" by (simp add: books_ok_def upd_tab_def upd_engine_def alist_simps)
  moreover have "quiet t (fold (\<lambda>raw. route [sub] Ev raw) rs t)" for rs t by (rule quiet_fold) simp
  then have "quiet ?t (join_engine sub en (s\<lparr>tabSubs := AList.update ?i sub (tabSubs s)\<rparr>))"
    unfolding join_engine_def Let_def using quiet_announceAccepted quiet_trans by simp blast
  ultimately show ?thesis using books_ok_cong [OF quiet_groups(1)] by blast
qed

lemma books_ok_open:
  assumes ok: "books_ok s" and new: "map_of (tabSubs s) (t_id sub) = None"
    and key: "key = topicKey (t_topic sub) (t_params sub)"
    and S: "resume \<noteq> Replay \<Longrightarrow> map_of (sharedByKey s) key = None"
  shows "books_ok (open_engine sub key resume (s\<lparr>tabSubs := AList.update (t_id sub) sub (tabSubs s)\<rparr>))"
proof -
  let ?e = "tab s @ 46 # show_nat (Suc (engineSerial s))"
  let ?en = "\<lparr>e_id = ?e, e_topic = t_topic sub, e_params = t_params sub, e_key = key,
            e_shared = (resume \<noteq> Replay), compare = (resume = Compare), members = [t_id sub],
            e_cursor = after sub, last_raw = [], sent = False, accepted = False\<rparr>"
  note inv = books_okD(1) [OF ok]
  have "books_inv (tab s) (Suc (engineSerial s)) ((map_of (tabSubs s))(t_id sub \<mapsto> sub\<lparr>engine := Some ?e\<rparr>))
      ((map_of (engineSubs s))(?e \<mapsto> ?en)) (if e_shared ?en then (map_of (sharedByKey s))(e_key ?en \<mapsto> ?e) else map_of (sharedByKey s))
      (leaving s)"
    by (rule books_open [OF inv new own_id_next(2) own_id_next(1)]) (use key S in simp_all)
  then show ?thesis using ok
    by (cases "resume = Replay")
      (simp_all add: books_ok_def open_engine_def Let_def upd_tab_def scheduleFlush_def alist_simps)
qed

lemma books_ok_leaderAdd:
  assumes "books_ok s"
  shows "books_ok (leaderAdd t i topic params c s)"
proof (cases "map_of (tabSubs s) i")
  case (Some u)
  with assms show ?thesis by (simp add: leaderAdd_def books_ok_cong [of "s\<lparr>idleTimer := None\<rparr>" s])
next
  case None
  let ?s = "s\<lparr>idleTimer := None\<rparr>" and ?key = "topicKey topic params" and ?resume = "resumeOf (table s) topic"
  let ?sub = "\<lparr>t_tab = t, t_id = i, t_topic = topic, t_params = params, after = c, engine = None\<rparr>"
  have ok: "books_ok ?s" using assms by (simp add: books_ok_def)
  note inv = books_okD(1) [OF assms]
  show ?thesis
  proof (cases "if ?resume \<noteq> Replay then Option.bind (map_of (sharedByKey s) ?key) (map_of (engineSubs s)) else None")
    case none: None
    then have "map_of (sharedByKey s) ?key = None" if "?resume \<noteq> Replay"
      using that books_invD(4) [OF inv, of ?key] by (cases "map_of (sharedByKey s) ?key") auto
    with books_ok_open [OF ok, of ?sub ?key ?resume] none None show ?thesis
      by (cases "?resume = Replay") (simp_all add: leaderAdd_def Let_def)
  next
    case (Some en)
    then obtain e where e: "map_of (sharedByKey s) ?key = Some e" "map_of (engineSubs s) e = Some en"
      by (auto split: if_splits simp: bind_eq_Some_conv)
    have "e_shared en" "e_key en = ?key" "e_id en = e"
      using books_invD(4) [OF inv e(1)] books_invD(2) [OF inv e(2)] e(2) by (auto simp: engine_entry_def)
    with books_ok_join [OF ok, of ?sub e en] e None Some show ?thesis
      by (cases "?resume = Replay") (simp_all add: leaderAdd_def Let_def)
  qed
qed

text \<open>Dropping an engine subscription whose members are gone from the tabs' side.\<close>

lemma set_set_add [simp]: "set (set_add x xs) = insert x (set xs)"
  by (auto simp: set_add_def)

lemma dropEngine_fields:
  "tab (dropEngine en b s) = tab s" "table (dropEngine en b s) = table s" "tabSubs (dropEngine en b s) = tabSubs s"
  "engineSerial (dropEngine en b s) = engineSerial s"
  "engineSubs (dropEngine en b s) = AList.delete (e_id en) (engineSubs s)"
  "map_of (sharedByKey (dropEngine en b s)) =
    (\<lambda>k. if k = e_key en \<and> map_of (sharedByKey s) k = Some (e_id en) then None else map_of (sharedByKey s) k)"
  "leaving (dropEngine en b s) = (if b \<and> sent en then insert (e_id en) (leaving s) else leaving s)"
  by (auto simp: dropEngine_def Let_def scheduleFlush_def alist_simps leaving_def)

lemma books_ok_dropped:
  assumes ok: "books_ok s" and e: "map_of (engineSubs s) e = Some en"
    and u: "tab u = tab s" "engineSerial u = engineSerial s" "distinct (map fst (tabSubs u))" "distinct (map fst (engineSubs u))"
      "map_of (engineSubs u) = (map_of (engineSubs s))(e := None)"
      "map_of (sharedByKey u) = (\<lambda>k. if k = e_key en \<and> map_of (sharedByKey s) k = Some e then None else map_of (sharedByKey s) k)"
      "leaving u \<subseteq> insert e (leaving s)"
      "map_of (tabSubs u) = (\<lambda>i. if i \<in> set (members en) then None else map_of (tabSubs s) i)"
  shows "books_ok u"
  unfolding books_ok_def u(1,2,5) using u(3,4) books_drop [OF books_okD(1) [OF ok] e u(7)] u(6,8) by simp

lemma books_ok_leaderRemove:
  assumes ok: "books_ok s"
  shows "books_ok (leaderRemove i s)"
proof (cases "map_of (tabSubs s) i")
  case (Some u)
  note inv = books_okD(1) [OF ok]
  obtain e en where e: "engine u = Some e" "map_of (engineSubs s) e = Some en" "i \<in> set (members en)"
    using books_invD(1) [OF inv Some] by (auto simp: tab_entry_def)
  have en: "e_id en = e" using books_invD(2) [OF inv e(2)] by (simp add: engine_entry_def)
  let ?en = "en\<lparr>members := removeAll i (members en)\<rparr>"
  let ?t = "upd_engine e (\<lambda>_. ?en) (s\<lparr>tabSubs := AList.delete i (tabSubs s)\<rparr>)"
  have r: "books (leaderRemove i s) = books (if members ?en = [] then dropEngine ?en True ?t else ?t)"
    using Some e en by (simp add: leaderRemove_def Let_def)
  show ?thesis
  proof (cases "members ?en = []")
    case False
    with books_leave [OF inv e(2) _ e(3)] ok have "books_ok ?t"
      by (simp add: books_ok_def upd_engine_def alist_simps e(2))
    with False show ?thesis using books_ok_cong [OF r] by simp
  next
    case True
    then have "removeAll i (members en) = []" by simp
    then have "set (members en) - {i} = {}" by (metis list.set(1) set_removeAll)
    then have i: "set (members en) = {i}" using e(3) by blast
    have "map_of (sharedByKey ?t) = map_of (sharedByKey s)" "leaving ?t = leaving s" by (simp_all add: upd_engine_def)
    then have "books_ok (dropEngine ?en True ?t)"
      using books_okD(2,3) [OF ok]
      by (intro books_ok_dropped [OF ok e(2)])
        (simp_all add: dropEngine_fields en e(2) i alist_simps upd_engine_def fun_eq_iff subset_insertI, auto)
    with True show ?thesis using books_ok_cong [OF r] by simp
  qed
qed (simp add: leaderRemove_def ok)

text \<open>Refusing one with all its members, and ending one.\<close>

lemma refuse_members_books:
  assumes "refuse_members error is (s, theirs) = (s', theirs')"
  shows "books s' = books (s\<lparr>tabSubs := fold AList.delete is (tabSubs s)\<rparr>)"
  using assms
proof (induction error "is" "(s, theirs)" arbitrary: s theirs rule: refuse_members.induct)
  case (2 error i "is" s theirs)
  let ?s = "s\<lparr>tabSubs := AList.delete i (tabSubs s)\<rparr>"
  obtain t th where t: "(case map_of (tabSubs s) i of None \<Rightarrow> (?s, theirs)
      | Some sub \<Rightarrow> if t_tab sub = tab s then (refuseLocal [i] error ?s, theirs) else (?s, theirs @ [i])) = (t, th)"
    by (meson surj_pair)
  then have q: "quiet ?s t" by (auto split: option.splits if_splits)
  from 2(1) [OF refl t] 2(2) t have "books s' = books (t\<lparr>tabSubs := fold AList.delete is (tabSubs t)\<rparr>)" by simp
  also have "\<dots> = books (s\<lparr>tabSubs := fold AList.delete (i # is) (tabSubs s)\<rparr>)"
    using quiet_fields [OF q] by (simp add: books_def)
  finally show ?case .
qed simp

lemma fold_delete: "map_of (fold AList.delete is ts) = (\<lambda>i. if i \<in> set is then None else map_of ts i)"
  by (induction "is" arbitrary: ts) (auto simp: alist_simps fun_eq_iff)

lemma fold_delete_distinct: "distinct (map fst ts) \<Longrightarrow> distinct (map fst (fold AList.delete is ts))"
  by (induction "is" arbitrary: ts) (simp_all add: alist_simps)

lemma books_ok_forget:
  assumes ok: "books_ok s" and e: "map_of (engineSubs s) e = Some en"
    and u: "books u = books ((dropEngine en False s)\<lparr>tabSubs := fold AList.delete is (tabSubs s)\<rparr>)"
    and "is": "set is = set (members en)"
  shows "books_ok u"
proof -
  have en: "e_id en = e" using books_invD(2) [OF books_okD(1) [OF ok] e] by (simp add: engine_entry_def)
  have "books_ok ((dropEngine en False s)\<lparr>tabSubs := fold AList.delete is (tabSubs s)\<rparr>)"
    using books_okD(2,3) [OF ok] fold_delete_distinct
    by (intro books_ok_dropped [OF ok e])
      (simp_all add: dropEngine_fields en fold_delete "is" alist_simps fun_eq_iff subset_insertI)
  then show ?thesis using books_ok_cong [OF u] by simp
qed

lemma books_ok_refuseEngine:
  assumes ok: "books_ok s" and e: "map_of (engineSubs s) e = Some en"
  shows "books_ok (refuseEngine en error s)"
proof -
  obtain t theirs where t: "refuse_members error (members en) (dropEngine en False s, []) = (t, theirs)" by (meson surj_pair)
  have "books (refuseEngine en error s) = books t" by (simp add: refuseEngine_def t)
  also have "\<dots> = books ((dropEngine en False s)\<lparr>tabSubs := fold AList.delete (members en) (tabSubs s)\<rparr>)"
    using refuse_members_books [OF t] by (simp add: dropEngine_fields)
  finally show ?thesis by (rule books_ok_forget [OF ok e]) simp
qed

text \<open>The tab subscriptions of an engine subscription, in the order of its members.\<close>

lemma members_of_ids:
  assumes inv: "books_inv name n T E S R" and e: "E e = Some en"
  shows "map t_id (List.map_filter T (members en)) = members en"
proof -
  have "map t_id (List.map_filter T is) = is" if "set is \<subseteq> set (members en)" for "is"
    using that
  proof (induction "is")
    case (Cons i "is")
    obtain u where u: "T i = Some u" using member_engine [OF inv e, of i] Cons.prems by auto
    then have "t_id u = i" using books_invD(1) [OF inv u] by (simp add: tab_entry_def)
    with u Cons show ?case by (simp add: map_filter_simps)
  qed (simp add: map_filter_simps)
  then show ?thesis by blast
qed

lemma note_event_fields [simp]:
  "e_id (note_event h raw en) = e_id en" "members (note_event h raw en) = members en"
  "e_key (note_event h raw en) = e_key en" "e_shared (note_event h raw en) = e_shared en"
  "e_topic (note_event h raw en) = e_topic en" "sent (note_event h raw en) = sent en"
  by (simp_all add: note_event_def Let_def split: option.split)

lemma books_ok_upd_engine:
  assumes ok: "books_ok s" and f: "\<And>en. e_id (f en) = e_id en \<and> members (f en) = members en \<and> e_key (f en) = e_key en \<and>
      e_shared (f en) = e_shared en"
  shows "books_ok (upd_engine e f s)"
proof -
  have "books_inv (tab s) (engineSerial s) (map_of (tabSubs s)) (map_of (engineSubs (upd_engine e f s)))
      (map_of (sharedByKey s)) (leaving s)"
    by (rule books_same [OF books_okD(1) [OF ok], where f = "\<lambda>x. if x = e then f else id" and g = id])
      (use f in \<open>auto simp: upd_engine_def alist_simps option.map_id split: option.split\<close>)
  then show ?thesis using books_okD(2,3) [OF ok] by (simp add: books_ok_def upd_engine_def)
qed

lemma fold_delete_state:
  "fold (\<lambda>u s. s\<lparr>tabSubs := AList.delete (t_id u) (tabSubs s)\<rparr>) us s = s\<lparr>tabSubs := fold AList.delete (map t_id us) (tabSubs s)\<rparr>"
  by (induction us arbitrary: s) simp_all

lemma books_ok_onEngineMessage:
  assumes ok: "books_ok s"
  shows "books_ok (onEngineMessage kind raw s)"
proof (cases "readHead raw")
  case (Some h)
  show ?thesis
  proof (cases "map_of (engineSubs s) (h_sub h)")
    case e: (Some en)
    have ids: "map t_id (members_of en s) = members en"
      unfolding members_of_def by (rule members_of_ids [OF books_okD(1) [OF ok] e])
    have "books_ok ((dropEngine en False s)\<lparr>tabSubs := fold AList.delete (members en) (tabSubs s)\<rparr>)"
      by (rule books_ok_forget [OF ok e refl refl])
    then have ended: "books_ok (fold (\<lambda>u s. s\<lparr>tabSubs := AList.delete (t_id u) (tabSubs s)\<rparr>) (members_of en s) (dropEngine en False s))"
      by (simp add: fold_delete_state ids dropEngine_fields)
    have noted: "books_ok (upd_engine (h_sub h) (note_event h raw) s)"
      by (rule books_ok_upd_engine [OF ok]) simp
    show ?thesis
      by (cases kind) (simp_all add: onEngineMessage_def Some e Let_def ok noted ended books_ok_cong [OF quiet_groups(1) [OF quiet_route]])
  qed (simp add: onEngineMessage_def Some ok)
qed (simp add: onEngineMessage_def ok)

text \<open>The changes of every entry at once.\<close>

lemma books_ok_values:
  assumes ok: "books_ok s"
    and u: "tab u = tab s" "engineSerial u = engineSerial s" "sharedByKey u = sharedByKey s" "leaving u \<subseteq> leaving s"
      "engineSubs u = map (\<lambda>(i, en). (i, f i en)) (engineSubs s)" "tabSubs u = map (\<lambda>(i, x). (i, g x)) (tabSubs s)"
    and f: "\<And>i en. e_id (f i en) = e_id en \<and> members (f i en) = members en \<and> e_key (f i en) = e_key en \<and>
      e_shared (f i en) = e_shared en"
    and g: "\<And>x. t_id (g x) = t_id x \<and> engine (g x) = engine x \<and> t_topic (g x) = t_topic x \<and> t_params (g x) = t_params x"
  shows "books_ok u"
proof -
  have "map fst (engineSubs u) = map fst (engineSubs s)" "map fst (tabSubs u) = map fst (tabSubs s)"
    unfolding u(5,6) by (simp_all add: keys_map_values [where f = f] keys_map_values [where f = "\<lambda>_. g"])
  moreover have "books_inv (tab s) (engineSerial s) (map_of (tabSubs u)) (map_of (engineSubs u)) (map_of (sharedByKey s)) (leaving u)"
    by (rule books_same [OF books_okD(1) [OF ok] u(4), where f = f and g = g])
      (use f g in \<open>simp_all add: u(5,6) map_of_map_values [where f = f] map_of_map_values [where f = "\<lambda>_. g"]\<close>)
  ultimately show ?thesis using books_okD(2,3) [OF ok] by (simp add: books_ok_def u(1-3))
qed

lemma map_pair_id: "map (\<lambda>(i, x). (i, x)) xs = xs"
  by (simp add: split_def)

lemma books_ok_flush: "books_ok s \<Longrightarrow> books_ok (flush s)"
proof (cases "connection s")
  case (Some c)
  assume ok: "books_ok s"
  let ?p = "\<lparr>asked = c, leading = generation s, post_adds = map e_id (filter (\<lambda>en. \<not> sent en) (map snd (engineSubs s))),
    post_removes = removes s\<rparr>"
  let ?t = "s\<lparr>posting := True, removes := [], engineSubs := map (\<lambda>(i, en). (i, en\<lparr>sent := True\<rparr>)) (engineSubs s),
    inflight := inflight s @ [?p]\<rparr>"
  have "books_ok ?t"
    by (rule books_ok_values [OF ok, where f = "\<lambda>_ en. en\<lparr>sent := True\<rparr>" and g = "\<lambda>x. x"])
      (auto simp: leaving_def map_pair_id)
  with ok Some show ?thesis
    by (auto simp: flush_def Let_def books_ok_cong [OF quiet_groups(1) [OF quiet_emit]])
qed (simp add: flush_def)

lemma books_ok_take_accepted: "books_ok s \<Longrightarrow> books_ok (take_accepted i s)"
  by (auto simp: take_accepted_def Let_def books_ok_cong [OF quiet_groups(1) [OF quiet_announceAccepted]]
    intro!: books_ok_upd_engine split: option.split)

lemma books_ok_take_refused: "books_ok s \<Longrightarrow> books_ok (take_refused error i s)"
  by (auto simp: take_refused_def intro: books_ok_refuseEngine split: option.split)

lemma books_ok_fold: "(\<And>x s. books_ok s \<Longrightarrow> books_ok (f x s)) \<Longrightarrow> books_ok s \<Longrightarrow> books_ok (fold f xs s)"
  by (induction xs arbitrary: s) auto

lemma set_fold_add: "set (fold set_add xs ys) = set xs \<union> set ys"
  by (induction xs arbitrary: ys) auto

lemma books_ok_take_answer:
  assumes "books_ok s" and "set (post_removes p) \<subseteq> R" and "books_inv (tab s) (engineSerial s) (map_of (tabSubs s))
    (map_of (engineSubs s)) (map_of (sharedByKey s)) (leaving s \<union> R)"
  shows "books_ok (take_answer p answer s)"
proof (cases answer)
  case (PostAnswered accepts refusals)
  with assms(1) show ?thesis
    by (auto intro!: books_ok_fold [of "\<lambda>(i, error). take_refused error i"] books_ok_fold [of take_accepted]
      books_ok_take_accepted books_ok_take_refused)
next
  case PostFailed
  let ?f = "\<lambda>i en. if i \<in> set (post_adds p) then en\<lparr>sent := False\<rparr> else en"
  let ?u = "take_answer p PostFailed s"
  have "books_inv (tab s) (engineSerial s) (map_of (tabSubs s)) (map_of (engineSubs ?u)) (map_of (sharedByKey s)) (leaving ?u)"
    by (rule books_same [OF assms(3), where f = ?f and g = id])
      (use assms(2) in \<open>auto simp: leaving_def set_fold_add map_of_map_values [where f = ?f] option.map_id\<close>)
  then show ?thesis using books_okD(2,3) [OF assms(1)] PostFailed
    by (simp add: books_ok_def keys_map_values [where f = ?f])
next
  case PostNotFound
  with assms(1) show ?thesis by (simp add: books_ok_def leaving_def)
next
  case (PostBadRequest code message fixing)
  with assms(1) show ?thesis by (simp add: books_ok_fold books_ok_take_refused)
qed

lemma books_inv_mono: "books_inv name n T E S R \<Longrightarrow> R' \<subseteq> R \<Longrightarrow> books_inv name n T E S R'"
  unfolding books_inv_def by blast

lemma books_ok_post_done:
  assumes ok: "books_ok s"
  shows "books_ok (post_done n answer s)"
proof (cases "n < length (inflight s)")
  case True
  let ?p = "inflight s ! n" and ?s = "s\<lparr>inflight := take n (inflight s) @ drop (Suc n) (inflight s)\<rparr>"
  have "set (take n (inflight s) @ drop (Suc n) (inflight s)) \<union> {?p} \<subseteq> set (inflight s)"
    using True by (auto dest: in_set_takeD in_set_dropD)
  then have sub: "leaving ?s \<union> set (post_removes ?p) \<subseteq> leaving s" unfolding leaving_def by auto
  have ok0: "books_ok ?s"
    using ok books_inv_mono [OF books_okD(1) [OF ok], of "leaving ?s"] sub by (simp add: books_ok_def)
  have "books_ok (take_answer ?p answer ?s)"
    by (rule books_ok_take_answer [OF ok0 subset_refl]) (use books_inv_mono [OF books_okD(1) [OF ok] sub] in simp)
  then have "books_ok (if leading ?p = generation ?s \<and> connection ?s = Some (asked ?p) then take_answer ?p answer ?s else ?s)"
    using ok0 by simp
  then have "books_ok ((if leading ?p = generation ?s \<and> connection ?s = Some (asked ?p) then take_answer ?p answer ?s else ?s)\<lparr>posting := False\<rparr>)"
    (is "books_ok ?t") by (simp add: books_ok_def leaving_def)
  then show ?thesis using True by (simp add: post_done_def Let_def scheduleFlush_def books_ok_def)
qed (simp add: post_done_def ok)

text \<open>Starting and stopping to lead clear the books.\<close>

lemma books_ok_cleared:
  assumes ok: "books_ok s" and u: "tab u = tab s" "engineSerial u = engineSerial s" "tabSubs u = []" "engineSubs u = []"
    "sharedByKey u = []" "leaving u \<subseteq> leaving s"
  shows "books_ok u"
proof -
  have "own_id (tab s) (engineSerial s) e" if "e \<in> leaving u" for e
    using books_invD(5) [OF books_okD(1) [OF ok]] that u(6) by blast
  then show ?thesis by (simp add: books_ok_def u(1-5) books_inv_def)
qed

lemma books_ok_stopLeading:
  assumes ok: "books_ok s"
  shows "books_ok (stopLeading s)"
proof -
  let ?c = "closeSource (election_send (RelayBye (tab s)) (s\<lparr>generation := generation s + 1\<rparr>))"
  have c: "books ?c = books s" by simp
  let ?t = "?c\<lparr>retryTimer := None, offlineTimer := None, idleTimer := None, flushRetry := None,
            tabSubs := [], engineSubs := [], sharedByKey := [], removes := [], dropping := False, channelStatus := Connecting\<rparr>"
  have "books_ok ?t" by (rule books_ok_cleared [OF ok]) (use c in \<open>simp_all add: books_def leaving_def\<close>)
  moreover have "books (stopLeading s) = books ?t" by (simp add: stopLeading_def Let_def)
  ultimately show ?thesis using books_ok_cong by blast
qed

interpretation ledger: channel_law books_ok
proof unfold_locales
  show "quiet s s' \<Longrightarrow> books_ok s \<Longrightarrow> books_ok s'" for s s' using books_ok_cong [OF quiet_groups(1)] by blast
qed (simp_all add: books_ok_leaderAdd books_ok_leaderRemove)

text \<open>The rest of the channel, through what it leaves alone.\<close>

lemma books_ok_same: "books_ok s \<Longrightarrow> books s' = books s \<Longrightarrow> books_ok s'"
  using books_ok_cong by blast

lemma books_ok_onTabGone: "books_ok s \<Longrightarrow> books_ok (onTabGone t s)"
  unfolding onTabGone_def by (rule books_ok_fold) (simp_all add: books_ok_leaderRemove)

lemma fold_send_books: "books (fold (\<lambda>i. election_send (f i)) is s) = books s"
  by (induction "is" arbitrary: s) simp_all

lemma books_ok_release_tab:
  assumes ok: "books_ok s"
  shows "books_ok (release_tab s)"
proof -
  let ?s = "s\<lparr>wanted := False, releaseTimer := None,
    locals := map (\<lambda>(i, l). (i, if l_cursor l = None then l\<lparr>resync := True\<rparr> else l)) (locals s)\<rparr>"
  have "books_ok (stopLeading ?s)" by (rule books_ok_stopLeading) (rule books_ok_same [OF ok], simp)
  then show ?thesis
    using ok by (auto simp: release_tab_def Let_def fold_send_books intro: books_ok_same)
qed

lemma books_ok_engage_ready:
  assumes ok: "books_ok s"
  shows "books_ok (engage_ready s)"
proof -
  let ?s = "election_send (RelayWho (tab s)) (report (s\<lparr>readying := readying s - 1, engaged := True\<rparr>))"
  have "books_ok (offerAll True ?s)" by (rule ledger.keeps_offerAll) (rule books_ok_same [OF ok], simp)
  then show ?thesis using ok by (auto simp: engage_ready_def Let_def intro: books_ok_same)
qed

lemma books_ok_onLead:
  assumes ok: "books_ok s"
  shows "books_ok (onLead s)"
proof -
  let ?s = "s\<lparr>generation := generation s + 1, tabSubs := [], engineSubs := [], sharedByKey := [], removes := [],
           attempt := 0, dropping := False\<rparr>"
  have "books_ok ?s" by (rule books_ok_cleared [OF ok]) (simp_all add: leaving_def)
  then have "books_ok (setChannelStatus Connecting ?s)" by (rule books_ok_same) simp
  then have "books_ok (offerAll False (setChannelStatus Connecting ?s))" by (rule ledger.keeps_offerAll)
  then show ?thesis using ok by (auto simp: onLead_def intro: books_ok_same)
qed

lemma books_ok_onHello:
  assumes ok: "books_ok s"
  shows "books_ok (onHello conn facts s)"
proof -
  let ?s1 = "s\<lparr>connectTimer := None, offlineTimer := None, attempt := 0, dropping := False, heardHello := True,
            connection := Some conn, lastHello := Some facts\<rparr>"
  obtain seen s2 where s2: "seeInstance facts ?s1 = (seen, s2)" by (meson surj_pair)
  have ok2: "books_ok s2" using quiet_groups(1) [OF quiet_seeInstance [OF s2]] by (intro books_ok_same [OF ok]) simp
  let ?c = "s2\<lparr>tabSubs := map (\<lambda>(i, u). (i, u\<lparr>after := None\<rparr>)) (tabSubs s2),
                  engineSubs := map (\<lambda>(i, en). (i, en\<lparr>e_cursor := None, last_raw := []\<rparr>)) (engineSubs s2)\<rparr>"
  have "books_ok ?c"
    by (rule books_ok_values [OF ok2, where f = "\<lambda>_ en. en\<lparr>e_cursor := None, last_raw := []\<rparr>" and g = "\<lambda>u. u\<lparr>after := None\<rparr>"])
      simp_all
  then have ok3: "books_ok (if seen \<noteq> Same then offerAll True ?c else s2)" (is "books_ok ?s3")
    using ok2 by (simp add: ledger.keeps_offerAll)
  have "books_ok (?s3\<lparr>removes := [], engineSubs := map (\<lambda>(i, en). (i, en\<lparr>sent := False, accepted := False\<rparr>)) (engineSubs ?s3)\<rparr>)"
    by (rule books_ok_values [OF ok3, where f = "\<lambda>_ en. en\<lparr>sent := False, accepted := False\<rparr>" and g = "\<lambda>x. x"])
      (auto simp: leaving_def map_pair_id)
  then show ?thesis
    by (rule books_ok_same) (simp add: onHello_def s2 scheduleFlush_def Let_def)
qed

lemma books_ok_onMessage: "books_ok s \<Longrightarrow> books_ok (onMessage m s)"
proof (cases m)
  case (RelayHello l facts)
  obtain seen s2 where s2: "seeInstance facts s = (seen, s2)" by (meson surj_pair)
  assume ok: "books_ok s"
  have "books_ok (report (s2\<lparr>channelStatus := Live\<rparr>))"
    using quiet_groups(1) [OF quiet_seeInstance [OF s2]] by (intro books_ok_same [OF ok]) simp
  then show ?thesis using ok RelayHello s2 by (simp add: ledger.keeps_offerAll)
qed (auto intro!: books_ok_leaderAdd books_ok_leaderRemove intro: books_ok_same)

lemma books_ok_subscribe:
  assumes ok: "books_ok s"
  shows "books_ok (subscribe_local topic params c s)"
proof (cases "wireParams params")
  case None
  then show ?thesis using ok by (auto simp: subscribe_local_def Let_def intro: books_ok_same)
next
  case (Some w)
  have new: "books_ok (s\<lparr>localSerial := n, locals := ls\<rparr>)" for n ls by (rule books_ok_same [OF ok]) simp
  have "books_ok (election_want (offer i (s\<lparr>localSerial := n, locals := ls\<rparr>)))" for i n ls
    by (rule books_ok_same [OF ledger.keeps_offer [OF new]]) simp
  with new Some show ?thesis by (simp add: subscribe_local_def Let_def)
qed

lemma books_ok_unsubscribe:
  assumes ok: "books_ok s"
  shows "books_ok (unsubscribe_local i s)"
proof -
  let ?s = "s\<lparr>locals := AList.delete i (locals s)\<rparr>"
  have "books_ok ?s" by (rule books_ok_same [OF ok]) simp
  then have "books_ok (withdrawLocal i ?s)" "books_ok ?s" by (simp_all add: ledger.keeps_withdrawLocal)
  then show ?thesis using ok
    by (auto simp: unsubscribe_local_def Let_def intro: books_ok_same split: option.split)
qed

lemma books_ok_elections:
  assumes ok: "books_ok s"
  shows "books_ok (lock_granted r s)" and "books_ok (leads_alone s)" and "books_ok (tab_freed t g s)"
proof -
  have c: "books_ok (call_election x s)" for x by (rule books_ok_same [OF ok]) simp
  then show "books_ok (lock_granted r s)" by (auto simp: lock_granted_def Let_def intro: books_ok_onLead split: prod.split)
  show "books_ok (leads_alone s)" using ok books_ok_onLead [OF c] c [of "lead_alone (elect s)"] by (simp add: leads_alone_def Let_def)
  show "books_ok (tab_freed t g s)" using c by (auto simp: tab_freed_def Let_def intro: books_ok_onTabGone split: prod.split)
qed

lemma books_ok_react: "books_ok s \<Longrightarrow> books_ok (react i s)"
proof (cases i)
  case Close
  assume ok: "books_ok s"
  then have "books_ok (release_tab s)" by (rule books_ok_release_tab)
  then show ?thesis using ok Close by (auto simp: close_channel_def Let_def intro: books_ok_same)
next
  case IdleFires
  assume ok: "books_ok s"
  have "books_ok (s\<lparr>idleTimer := None\<rparr>)" by (rule books_ok_same [OF ok]) simp
  then show ?thesis using ok IdleFires by (auto simp: idle_fires_def Let_def intro: books_ok_stopLeading)
next
  case FlushTask
  assume ok: "books_ok s"
  have "books_ok (s\<lparr>flushQueued := False\<rparr>)" by (rule books_ok_same [OF ok]) simp
  then show ?thesis using ok FlushTask by (auto simp: flush_task_def intro: books_ok_flush)
qed (auto simp: books_ok_release_tab books_ok_engage_ready books_ok_elections books_ok_onMessage
  books_ok_subscribe books_ok_unsubscribe ledger.keeps_retry_all books_ok_onHello books_ok_onEngineMessage
  books_ok_post_done ledger.keeps_local_retry scheduleFlush_def intro: books_ok_same)

lemma books_ok_running: "running s \<Longrightarrow> books_ok s"
proof (induction rule: running.induct)
  case (start name kinds both shown time)
  then show ?case
    by (simp add: createLiveChannel_def Let_def engage_def books_ok_def leaving_def books_empty)
next
  case (step s i)
  then show ?case by (simp add: books_ok_react)
qed

section \<open>A sample run\<close>

text \<open>
  A tab subscribes to a feed and to a shared topic, leads, hears the engine's \<open>hello\<close> and asks for
  both; another tab offers the shared topic too.
\<close>

definition sample_facts :: hello_facts where
  "sample_facts = \<lparr>hello_instance = js ''i'', consoleBuild = js ''b'', engineRevision = None\<rparr>"

definition sample_inputs :: "channel_input list" where
  "sample_inputs = [Subscribe (js ''jobs'') (JObj []) None, Subscribe (js ''shell'') (JObj []) None, TabLockHeld,
     LockGranted 0, SourceHello 0 (js ''c'') sample_facts, FlushTask,
     Relayed (RelaySub (js ''u'') (js ''u.s1'') (js ''shell'') (JObj []) None)]"

definition run_sample :: "channel_input list \<Rightarrow> chan" where
  "run_sample inputs = fold react inputs (createLiveChannel (js ''t'') RESUME True True 0)"

lemma running_sample: "running (run_sample inputs)"
proof -
  have "running s \<Longrightarrow> running (fold react inputs s)" for s
    by (induction inputs arbitrary: s) (auto intro: running.step)
  then show ?thesis unfolding run_sample_def by (blast intro: running.start)
qed

section \<open>Properties\<close>

text \<open>
  C32. The leader's books are exact in every state a channel reaches: every subscription a tab gave
  it rides on one engine subscription of the same topic and parameters, and on no other; an
  engine subscription always has somebody on it; no two that are shared are of one topic and
  parameters, and a feed's has one subscriber; and what the engine is still to drop is no
  subscription that is held.
\<close>

theorem books_exact:
  assumes "running s"
  shows "(\<forall>(i, u)\<in>set (tabSubs s). \<exists>!e. \<exists>en. (e, en) \<in> set (engineSubs s) \<and> i \<in> set (members en)) \<and>
    (\<forall>(e, en)\<in>set (engineSubs s). members en \<noteq> [] \<and>
       (\<forall>i\<in>set (members en). \<exists>u. (i, u) \<in> set (tabSubs s) \<and> engine u = Some e \<and> topicKey (t_topic u) (t_params u) = e_key en)) \<and>
    (\<forall>(e, en)\<in>set (engineSubs s). \<forall>(f, fn)\<in>set (engineSubs s).
       e_shared en \<and> e_shared fn \<and> e_key en = e_key fn \<longrightarrow> e = f) \<and>
    (\<forall>(e, en)\<in>set (engineSubs s). \<not> e_shared en \<longrightarrow> length (members en) = 1) \<and>
    set (removes s) \<inter> fst ` set (engineSubs s) = {}"
proof -
  note ok = books_ok_running [OF assms]
  note inv = books_okD(1) [OF ok]
  have T: "(i, u) \<in> set (tabSubs s) \<longleftrightarrow> map_of (tabSubs s) i = Some u" for i u using books_okD(2) [OF ok] by simp
  have E: "(e, en) \<in> set (engineSubs s) \<longleftrightarrow> map_of (engineSubs s) e = Some en" for e en using books_okD(3) [OF ok] by simp
  have one: "\<exists>!e. \<exists>en. (e, en) \<in> set (engineSubs s) \<and> i \<in> set (members en)" if "(i, u) \<in> set (tabSubs s)" for i u
    using books_invD(1) [OF inv, of i u] members_apart [OF inv] that unfolding T E tab_entry_def by metis
  have mem: "members en \<noteq> [] \<and> (\<forall>i\<in>set (members en). \<exists>u. (i, u) \<in> set (tabSubs s) \<and> engine u = Some e \<and>
      topicKey (t_topic u) (t_params u) = e_key en)" if en: "(e, en) \<in> set (engineSubs s)" for e en
  proof (intro conjI ballI)
    show "members en \<noteq> []" using books_invD(2) [OF inv] en unfolding E engine_entry_def by blast
    fix i assume "i \<in> set (members en)"
    then obtain u where u: "map_of (tabSubs s) i = Some u" "engine u = Some e" using member_engine [OF inv] en unfolding E by blast
    with books_invD(1) [OF inv u(1)] en show "\<exists>u. (i, u) \<in> set (tabSubs s) \<and> engine u = Some e \<and>
      topicKey (t_topic u) (t_params u) = e_key en" unfolding T E tab_entry_def by auto
  qed
  have kinds: "(e_shared en \<longrightarrow> map_of (sharedByKey s) (e_key en) = Some e) \<and> (\<not> e_shared en \<longrightarrow> length (members en) = 1)"
    if "(e, en) \<in> set (engineSubs s)" for e en
    using books_invD(2) [OF inv] that unfolding E engine_entry_def by metis
  have "set (removes s) \<inter> fst ` set (engineSubs s) = {}"
    using books_invD(5) [OF inv] by (force simp: leaving_def map_of_eq_None_iff)
  with one mem kinds show ?thesis by (auto; metis option.inject)
qed

theorem books_exact_witness:
  "\<exists>!e. \<exists>en. (e, en) \<in> set (engineSubs (run_sample sample_inputs)) \<and> js ''u.s1'' \<in> set (members en)"
proof -
  have "\<exists>u. (js ''u.s1'', u) \<in> set (tabSubs (run_sample sample_inputs))"
  proof -
    have "list_ex (\<lambda>(i, u). i = js ''u.s1'') (tabSubs (run_sample sample_inputs))" by code_simp
    then show ?thesis by (auto simp: list_ex_iff)
  qed
  then obtain u where u: "(js ''u.s1'', u) \<in> set (tabSubs (run_sample sample_inputs))" by blast
  show ?thesis using bspec [OF conjunct1 [OF books_exact [OF running_sample]] u] by simp
qed

end
