(* ===== verification/Live_Shown.thy ===== *)
theory Live_Shown
  imports Live_Books
begin

text \<open>
  What a tab shows of the channel, and who may hold a connection. The invariant: the status shown
  is the channel's while the tab is engaged and \<open>paused\<close> otherwise, only a leader has books or a
  connection, and a leader is engaged and not closed.
\<close>

section \<open>What the leader's books leave alone\<close>

lemma scheduleFlush_groups [simp]:
  "books (scheduleFlush s) = books s" "shows_of (scheduleFlush s) = shows_of s"
  "posts (scheduleFlush s) = posts (s\<lparr>flushQueued := True\<rparr>)"
  by (simp_all add: scheduleFlush_def)

text \<open>Nothing but a flush asked for.\<close>

definition only_flush :: "chan \<Rightarrow> chan \<Rightarrow> bool" where
  "only_flush s s' \<longleftrightarrow> shows_of s' = shows_of s \<and> (posts s' = posts s \<or> posts s' = posts (s\<lparr>flushQueued := True\<rparr>))"

lemma only_flush_refl [simp, intro]: "only_flush s s"
  by (simp add: only_flush_def)

lemma only_flush_trans [trans]: "only_flush s t \<Longrightarrow> only_flush t u \<Longrightarrow> only_flush s u"
  by (auto simp: only_flush_def posts_def)

lemma only_flush_quiet: "quiet s s' \<Longrightarrow> only_flush s s'"
  by (simp add: only_flush_def quiet_def)

lemma only_flush_eq: "shows_of s' = shows_of s \<Longrightarrow> posts s' = posts s \<Longrightarrow> only_flush s s'"
  by (simp add: only_flush_def)

lemma only_flush_fields:
  assumes "only_flush s s'"
  shows "elect s' = elect s" "engaged s' = engaged s" "closed s' = closed s" "channelStatus s' = channelStatus s"
    "st_status s' = st_status s" "st_leader s' = st_leader s" "posting s' = posting s" "inflight s' = inflight s"
    "flushRetry s' = flushRetry s" "connection s' = connection s" "generation s' = generation s" "source s' = source s"
    "flushQueued s \<Longrightarrow> flushQueued s'"
  using assms by (auto simp: only_flush_def posts_def shows_of_def)

lemma only_flush_scheduleFlush: "only_flush s (scheduleFlush s)"
  by (simp add: only_flush_def)

lemma only_flush_fold: "(\<And>x s. only_flush s (f x s)) \<Longrightarrow> only_flush s (fold f xs s)"
  by (induction xs arbitrary: s) (auto intro: only_flush_trans)

lemma only_flush_dropEngine: "only_flush s (dropEngine en b s)"
  by (auto simp: only_flush_def dropEngine_def Let_def) (auto simp: posts_def)

lemma only_flush_join: "only_flush s (join_engine sub en s)"
proof -
  let ?t = "upd_tab (t_id sub) (\<lambda>u. u\<lparr>engine := Some (e_id en)\<rparr>)
    (upd_engine (e_id en) (\<lambda>en. en\<lparr>members := set_add (t_id sub) (members en)\<rparr>) s)"
  have t: "only_flush s ?t" by (rule only_flush_eq) (simp_all add: upd_tab_def upd_engine_def)
  have "quiet t (fold (\<lambda>raw. route [sub] Ev raw) rs t)" for rs t by (rule quiet_fold) simp
  then have "quiet ?t (join_engine sub en s)"
    unfolding join_engine_def Let_def using quiet_announceAccepted quiet_trans by simp blast
  then show ?thesis using t only_flush_quiet only_flush_trans by blast
qed

lemma only_flush_open: "only_flush s (open_engine sub key resume s)"
  by (auto simp: only_flush_def open_engine_def Let_def upd_tab_def) (auto simp: posts_def)

lemma only_flush_leaderAdd: "only_flush s (leaderAdd t i topic params c s)"
proof -
  have "only_flush s (s\<lparr>idleTimer := None, tabSubs := ts\<rparr>)" "only_flush s (s\<lparr>idleTimer := None\<rparr>)" for ts
    by (rule only_flush_eq; simp)+
  then show ?thesis
    unfolding leaderAdd_def Let_def
    by (auto intro: only_flush_trans only_flush_join only_flush_open split: option.split)
qed

lemma only_flush_leaderRemove: "only_flush s (leaderRemove i s)"
proof -
  have "only_flush s (s\<lparr>tabSubs := ts\<rparr>)" for ts by (rule only_flush_eq) simp_all
  moreover have "only_flush s (upd_engine e f (s\<lparr>tabSubs := ts\<rparr>))" for ts e f
    by (rule only_flush_eq) (simp_all add: upd_engine_def)
  moreover from this have "only_flush s (dropEngine en b (upd_engine e f (s\<lparr>tabSubs := ts\<rparr>)))" for en b ts e f
    using only_flush_trans only_flush_dropEngine by blast
  ultimately show ?thesis
    unfolding leaderRemove_def Let_def
    by (auto intro!: only_flush_trans [OF _ only_flush_quiet [OF quiet_idleCheck]] split: option.split)
qed

lemma only_flush_onTabGone: "only_flush s (onTabGone t s)"
  unfolding onTabGone_def by (rule only_flush_fold) (rule only_flush_leaderRemove)

interpretation flushing: channel_law "\<lambda>s'. only_flush s s'" for s
  by unfold_locales (blast intro: only_flush_trans only_flush_quiet only_flush_leaderAdd only_flush_leaderRemove)+

lemmas only_flush_offers = flushing.keeps_offer [OF only_flush_refl] flushing.keeps_withdrawLocal [OF only_flush_refl]
  flushing.keeps_offerAll [OF only_flush_refl] flushing.keeps_retry_all [OF only_flush_refl]
  flushing.keeps_local_retry [OF only_flush_refl]

section \<open>The invariant\<close>

definition shown_ok :: "chan \<Rightarrow> bool" where
  "shown_ok s \<longleftrightarrow> st_status s = (if engaged s then channelStatus s else Paused) \<and> st_leader s = isLeader s \<and>
     (isLeader s \<longrightarrow> engaged s \<and> \<not> closed s \<and> wanting (elect s) \<and> pending (elect s) = None) \<and>
     (\<not> shared (elect s) \<longrightarrow> pending (elect s) = None) \<and>
     (source s \<noteq> None \<longrightarrow> isLeader s) \<and> (connection s \<noteq> None \<longrightarrow> source s \<noteq> None)"

lemma shown_ok_cong: "shows_of s' = shows_of s \<Longrightarrow> connection s' = connection s \<Longrightarrow> source s' = source s \<Longrightarrow> shown_ok s \<Longrightarrow> shown_ok s'"
  by (simp add: shown_ok_def shows_of_def)

lemma shown_ok_only_flush: "only_flush s s' \<Longrightarrow> shown_ok s \<Longrightarrow> shown_ok s'"
  using only_flush_fields [of s s'] by (simp add: shown_ok_def)

lemma shown_ok_quiet: "quiet s s' \<Longrightarrow> shown_ok s \<Longrightarrow> shown_ok s'"
  by (rule shown_ok_only_flush) (rule only_flush_quiet)

lemma posts_fields:
  assumes "posts s' = posts s"
  shows "posting s' = posting s" "inflight s' = inflight s" "flushQueued s' = flushQueued s" "flushRetry s' = flushRetry s"
    "connection s' = connection s" "generation s' = generation s" "source s' = source s"
  using assms by (simp_all add: posts_def)

lemma shows_fields:
  assumes "shows_of s' = shows_of s"
  shows "elect s' = elect s" "engaged s' = engaged s" "closed s' = closed s" "channelStatus s' = channelStatus s"
    "st_status s' = st_status s" "st_leader s' = st_leader s"
  using assms by (simp_all add: shows_of_def)

text \<open>Changing the channel's status, with a report.\<close>

lemma shown_ok_status:
  assumes "shown_ok s"
  shows "shown_ok (setChannelStatus st s)" and "shown_ok (report (s\<lparr>channelStatus := st\<rparr>))"
proof -
  show "shown_ok (setChannelStatus st s)"
    using assms setChannelStatus_groups(3) [of st s] posts_fields [OF setChannelStatus_groups(2) [of st s]]
    by (auto simp: shown_ok_def shows_of_def)
  show "shown_ok (report (s\<lparr>channelStatus := st\<rparr>))"
    using assms posts_fields [OF report_groups(2), of "s\<lparr>channelStatus := st\<rparr>"] by (simp add: shown_ok_def)
qed

lemma closeSource_fields [simp]: "source (closeSource s) = None" "connection (closeSource s) = None"
  by (simp_all add: closeSource_def Let_def split: option.split)

lemma shown_ok_closeSource: "shown_ok s \<Longrightarrow> shown_ok (closeSource s)"
  using shows_fields [OF closeSource_groups(2), of s] by (simp add: shown_ok_def)

lemma shown_ok_connect: "shown_ok s \<Longrightarrow> shown_ok (connect s)"
proof -
  assume "shown_ok s"
  then have ok: "shown_ok (closeSource (s\<lparr>retryTimer := None\<rparr>))"
    by (intro shown_ok_closeSource) (simp add: shown_ok_def)
  let ?c = "closeSource (s\<lparr>retryTimer := None\<rparr>)"
  have "shown_ok (?c\<lparr>source := Some n, opened := m\<rparr>)" if "isLeader ?c" for n m
    using ok that by (simp add: shown_ok_def)
  then have "shown_ok (watchConnecting n (emit (OpenSource n) (?c\<lparr>source := Some n, opened := m\<rparr>)))" if "isLeader ?c" for n m
    using that shown_ok_quiet [OF quiet_trans [OF quiet_emit quiet_watchConnecting]] by blast
  with ok show ?thesis by (simp add: connect_def Let_def)
qed

lemma shown_ok_beginDrop: "shown_ok s \<Longrightarrow> shown_ok (beginDrop s)"
proof -
  assume ok: "shown_ok s"
  have "shown_ok (s\<lparr>dropping := True\<rparr>)" using ok by (simp add: shown_ok_def)
  then have "shown_ok (setChannelStatus Reconnecting (s\<lparr>dropping := True\<rparr>))" "shown_ok (s\<lparr>dropping := True\<rparr>)"
    by (simp_all add: shown_ok_status)
  then have "shown_ok ((setChannelStatus Reconnecting (s\<lparr>dropping := True\<rparr>))\<lparr>offlineTimer := d\<rparr>)"
    "shown_ok (s\<lparr>dropping := True, offlineTimer := d\<rparr>)" for d by (simp_all add: shown_ok_def)
  with ok show ?thesis by (simp add: beginDrop_def Let_def)
qed

lemma shown_ok_scheduleRetry: "shown_ok s \<Longrightarrow> shown_ok (scheduleRetry s)"
  using shown_ok_beginDrop [of s] by (simp add: scheduleRetry_def Let_def shown_ok_def)

lemma shown_ok_onStopping: "shown_ok s \<Longrightarrow> shown_ok (onStopping s)"
proof -
  assume "shown_ok s"
  then have "shown_ok ((closeSource s)\<lparr>dropping := True, offlineTimer := None\<rparr>)"
    using shown_ok_closeSource by (simp add: shown_ok_def)
  then show ?thesis
    unfolding onStopping_def Let_def
    by (intro shown_ok_scheduleRetry shown_ok_quiet [OF quiet_election_send] shown_ok_status(1))
qed

lemma shown_ok_onError: "shown_ok s \<Longrightarrow> shown_ok (onError n gone s)"
proof -
  assume "shown_ok s"
  then have c: "shown_ok (s\<lparr>connection := None\<rparr>)" "shown_ok (s\<lparr>connection := None, heardHello := False\<rparr>)"
    by (auto simp: shown_ok_def)
  have "shown_ok (emit Probe (t\<lparr>probes := ps\<rparr>))" if "shown_ok t" for t ps
    by (rule shown_ok_quiet [OF quiet_emit]) (use that in \<open>simp add: shown_ok_def\<close>)
  then show ?thesis
    using c by (simp add: onError_def Let_def shown_ok_beginDrop shown_ok_closeSource shown_ok_scheduleRetry
      shown_ok_quiet [OF quiet_watchConnecting])
qed

text \<open>The engine's messages and answers.\<close>

lemma only_flush_upd_engine: "only_flush s (upd_engine e f s)"
  by (rule only_flush_eq) (simp_all add: upd_engine_def)

lemma only_flush_onEngineMessage: "only_flush s (onEngineMessage kind raw s)"
proof -
  have "only_flush s (route us kind raw ((dropEngine en False s)\<lparr>tabSubs := ts\<rparr>))" for us en ts
  proof -
    have "only_flush (dropEngine en False s) ((dropEngine en False s)\<lparr>tabSubs := ts\<rparr>)" by (rule only_flush_eq) simp_all
    then show ?thesis using only_flush_dropEngine only_flush_trans only_flush_quiet [OF quiet_route] by meson
  qed
  moreover have "only_flush s (route us kind raw (upd_engine e f s))" for us e f
    using only_flush_upd_engine only_flush_trans only_flush_quiet [OF quiet_route] by meson
  ultimately show ?thesis
    by (auto simp: onEngineMessage_def Let_def fold_delete_state only_flush_quiet split: option.split)
qed

lemma only_flush_take_accepted: "only_flush s (take_accepted i s)"
  using only_flush_trans [OF only_flush_upd_engine only_flush_quiet [OF quiet_announceAccepted]]
  by (auto simp: take_accepted_def Let_def split: option.split)

lemma only_flush_refuse_members: "refuse_members error is (s, theirs) = (s', theirs') \<Longrightarrow> only_flush s s'"
proof (induction error "is" "(s, theirs)" arbitrary: s theirs rule: refuse_members.induct)
  case (2 error i "is" s theirs)
  let ?s = "s\<lparr>tabSubs := AList.delete i (tabSubs s)\<rparr>"
  obtain t th where t: "(case map_of (tabSubs s) i of None \<Rightarrow> (?s, theirs)
      | Some sub \<Rightarrow> if t_tab sub = tab s then (refuseLocal [i] error ?s, theirs) else (?s, theirs @ [i])) = (t, th)"
    by (meson surj_pair)
  have a: "only_flush s ?s" by (rule only_flush_eq) simp_all
  have b: "quiet ?s t" using t by (auto split: option.splits if_splits)
  have "only_flush t s'" using 2(1) [OF refl t] 2(2) t by simp
  with a only_flush_quiet [OF b] show ?case by (meson only_flush_trans)
qed simp

lemma only_flush_refuseEngine: "only_flush s (refuseEngine en error s)"
proof -
  obtain t theirs where t: "refuse_members error (members en) (dropEngine en False s, []) = (t, theirs)" by (meson surj_pair)
  have q: "quiet t (refuseEngine en error s)" by (simp add: refuseEngine_def t)
  show ?thesis
    by (rule only_flush_trans [OF only_flush_trans [OF only_flush_dropEngine only_flush_refuse_members [OF t]] only_flush_quiet [OF q]])
qed

lemma only_flush_take_refused: "only_flush s (take_refused error i s)"
  by (simp add: take_refused_def only_flush_refuseEngine split: option.split)

lemma only_flush_take_answer:
  "only_flush s (take_answer p (PostAnswered accepts refusals) s)"
  "only_flush s (take_answer p (PostBadRequest code message fixing) s)"
proof -
  have "only_flush s (fold take_accepted accepts s)" for s by (rule only_flush_fold) (rule only_flush_take_accepted)
  moreover have "only_flush s (fold (\<lambda>(i, error). take_refused error i) refusals s)" for s
    by (rule only_flush_fold) (simp add: only_flush_take_refused split: prod.split)
  ultimately show "only_flush s (take_answer p (PostAnswered accepts refusals) s)"
    using only_flush_trans by simp blast
  show "only_flush s (take_answer p (PostBadRequest code message fixing) s)"
    by simp (rule only_flush_fold, rule only_flush_take_refused)
qed

lemma shown_ok_take_answer: "shown_ok s \<Longrightarrow> shown_ok (take_answer p answer s)"
proof (cases answer)
  case (PostAnswered accepts refusals)
  then show "shown_ok s \<Longrightarrow> ?thesis" using shown_ok_only_flush [OF only_flush_take_answer(1)] by blast
next
  case (PostBadRequest code message fixing)
  then show "shown_ok s \<Longrightarrow> ?thesis" using shown_ok_only_flush [OF only_flush_take_answer(2)] by blast
qed (auto simp: shown_ok_def)

lemma shown_ok_post_done: "shown_ok s \<Longrightarrow> shown_ok (post_done n answer s)"
proof -
  assume "shown_ok s"
  then have "shown_ok (s\<lparr>inflight := ps\<rparr>)" for ps by (simp add: shown_ok_def)
  then have "shown_ok (take_answer p answer (s\<lparr>inflight := ps\<rparr>))" "shown_ok (s\<lparr>inflight := ps\<rparr>)" for p ps
    by (simp_all add: shown_ok_take_answer)
  moreover have "shown_ok (t\<lparr>posting := False\<rparr>)" "shown_ok (scheduleFlush (t\<lparr>posting := False\<rparr>))" if "shown_ok t" for t
    using that by (simp_all add: shown_ok_def scheduleFlush_def)
  ultimately show ?thesis using \<open>shown_ok s\<close> by (simp add: post_done_def Let_def)
qed

lemma shown_ok_flush_task: "shown_ok s \<Longrightarrow> shown_ok (flush_task s)"
  by (auto simp: flush_task_def flush_def Let_def shown_ok_def emit_def split: option.split)

text \<open>Starting and stopping to lead.\<close>

lemma withdraw_fields:
  "(leader e \<Longrightarrow> wanting e) \<Longrightarrow> \<not> leader (fst (withdraw e))" "\<not> wanting (fst (withdraw e))" "wanting e \<or> pending e = None \<Longrightarrow> pending (fst (withdraw e)) = None"
  "shared (fst (withdraw e)) = shared e" "pending e = None \<Longrightarrow> pending (fst (withdraw e)) = None"
  by (auto simp: withdraw_def stopWatching_def Let_def)

lemma stopLeading_fields:
  "source (stopLeading s) = None" "connection (stopLeading s) = None" "engaged (stopLeading s) = engaged s"
  "closed (stopLeading s) = closed s" "elect (stopLeading s) = fst (withdraw (elect s))"
  "channelStatus (stopLeading s) = Connecting" "st_leader (stopLeading s) = leader (fst (withdraw (elect s)))"
  "st_status (stopLeading s) = (if engaged s then Connecting else Paused)"
proof -
  let ?c = "closeSource (election_send (RelayBye (tab s)) (s\<lparr>generation := generation s + 1\<rparr>))"
  let ?t = "?c\<lparr>retryTimer := None, offlineTimer := None, idleTimer := None, flushRetry := None,
            tabSubs := [], engineSubs := [], sharedByKey := [], removes := [], dropping := False, channelStatus := Connecting\<rparr>"
  have r: "stopLeading s = report (election_withdraw ?t)" by (simp add: stopLeading_def Let_def)
  have "shows_of ?c = shows_of s" by simp
  note c = shows_fields [OF this]
  have p: "posts (stopLeading s) = posts ?t" unfolding r by simp
  show "source (stopLeading s) = None" "connection (stopLeading s) = None"
    using posts_fields(5,7) [OF p] by simp_all
  show "engaged (stopLeading s) = engaged s" "closed (stopLeading s) = closed s" "elect (stopLeading s) = fst (withdraw (elect s))"
    "channelStatus (stopLeading s) = Connecting" "st_leader (stopLeading s) = leader (fst (withdraw (elect s)))"
    "st_status (stopLeading s) = (if engaged s then Connecting else Paused)"
    unfolding r using c by simp_all
qed

lemma shown_ok_stopLeading: "shown_ok s \<Longrightarrow> shown_ok (stopLeading s)"
  using withdraw_fields(1,4,5) [of "elect s"] by (auto simp: shown_ok_def stopLeading_fields)

lemma fold_send_quiet: "quiet s (fold (\<lambda>i. election_send (f i)) is s)"
  by (rule quiet_fold) simp

lemma shown_ok_release_tab:
  assumes ok: "shown_ok s"
  shows "shown_ok (release_tab s)"
proof (cases "engaged s")
  case True
  let ?s1 = "s\<lparr>wanted := False, releaseTimer := None,
    locals := map (\<lambda>(i, l). (i, if l_cursor l = None then l\<lparr>resync := True\<rparr> else l)) (locals s)\<rparr>"
  let ?s2 = "if isLeader ?s1 then stopLeading ?s1
    else fold (\<lambda>i. election_send (RelayUnsub (tab ?s1) i)) (map (l_id \<circ> snd) (locals ?s1)) ?s1"
  have r: "release_tab s = report (election_withdraw (?s2\<lparr>engaged := False\<rparr>))"
    using True by (simp add: release_tab_def Let_def)
  have "shown_ok ?s1" using ok by (simp add: shown_ok_def)
  from shown_ok_stopLeading [OF this] shown_ok_quiet [OF fold_send_quiet this]
  have ok2: "shown_ok ?s2" by (simp only: if_split) blast
  have "\<not> isLeader ?s2"
  proof (cases "isLeader ?s1")
    case True
    with \<open>shown_ok ?s1\<close> show ?thesis using withdraw_fields(1) [of "elect s"] by (simp add: stopLeading_fields shown_ok_def)
  next
    case False
    then show ?thesis
      using quiet_fields(8) [OF fold_send_quiet [of ?s1 "RelayUnsub (tab ?s1)" "map (l_id \<circ> snd) (locals ?s1)"]]
      by (simp only: if_False) simp
  qed
  then have off: "source ?s2 = None" "connection ?s2 = None" "\<not> leader (elect ?s2)" using ok2 by (auto simp: shown_ok_def)
  have p: "posts (release_tab s) = posts (?s2\<lparr>engaged := False\<rparr>)" unfolding r by simp
  then have "source (release_tab s) = None" "connection (release_tab s) = None"
    using posts_fields(5,7) [OF p] off by simp_all
  moreover have "\<not> isLeader (release_tab s)" unfolding r using withdraw_fields(1) [of "elect ?s2"] off(3) by simp
  moreover have "\<not> shared (elect (release_tab s)) \<longrightarrow> pending (elect (release_tab s)) = None"
    unfolding r using ok2 withdraw_fields(4,5) [of "elect ?s2"] by (simp add: shown_ok_def)
  ultimately show ?thesis unfolding shown_ok_def by (simp add: r)
next
  case False
  then have "quiet s (release_tab s)" by (simp add: release_tab_def Let_def quiet_def)
  then show ?thesis using ok by (rule shown_ok_quiet)
qed

lemma shown_ok_onLead:
  assumes e: "leader (elect s)" "wanting (elect s)" "pending (elect s) = None" and off: "source s = None" "connection s = None"
    and st: "st_status s = (if engaged s then channelStatus s else Paused)" "\<not> st_leader s"
  shows "shown_ok (onLead s)"
proof (cases "closed s \<or> \<not> engaged s")
  case True
  then have r: "onLead s = election_withdraw s" by (simp add: onLead_def)
  show ?thesis unfolding r
    using st off withdraw_fields [of "elect s"] e(2) posts_fields(5,7) [OF election_withdraw_groups(2) [of s]]
    by (simp add: shown_ok_def)
next
  case False
  let ?s = "s\<lparr>generation := generation s + 1, tabSubs := [], engineSubs := [], sharedByKey := [], removes := [],
           attempt := 0, dropping := False\<rparr>"
  have "shown_ok (setChannelStatus Connecting ?s)"
    using setChannelStatus_groups(3) [of Connecting ?s] posts_fields(5,7) [OF setChannelStatus_groups(2) [of Connecting ?s]] e off False
    by (simp add: shown_ok_def shows_of_def)
  then have "shown_ok (connect (offerAll False (setChannelStatus Connecting ?s)))"
    by (intro shown_ok_connect shown_ok_only_flush [OF only_flush_offers(3)])
  with False show ?thesis by (simp add: onLead_def)
qed

lemma shown_ok_elections:
  assumes ok: "shown_ok s"
  shows "shown_ok (lock_granted r s)" and "shown_ok (leads_alone s)" and "shown_ok (tab_freed t g s)"
proof -
  have off: "source s = None" "connection s = None" "st_status s = (if engaged s then channelStatus s else Paused)" "\<not> st_leader s"
    if "\<not> isLeader s" using ok that by (auto simp: shown_ok_def)
  have posts: "source (call_election x s) = source s" "connection (call_election x s) = connection s" for x
    using posts_fields(5,7) [OF call_election_groups(2) [of x s]] by simp_all
  show "shown_ok (lock_granted r s)"
  proof (cases "pending (elect s) = Some r \<and> wanting (elect s) \<and> \<not> el_closed (elect s)")
    case True
    then have "\<not> isLeader s" using ok by (auto simp: shown_ok_def)
    with True off posts show ?thesis by (auto simp: lock_granted_def granted_def Let_def intro!: shown_ok_onLead)
  next
    case False
    then have "lock_granted r s = call_election (elect s, []) s" by (auto simp: lock_granted_def granted_def)
    then show ?thesis using ok posts by (simp add: shown_ok_def)
  qed
  have idle: "shown_ok (call_election (elect s, []) s)" using ok posts by (simp add: shown_ok_def)
  show "shown_ok (leads_alone s)"
  proof (cases "\<not> wanting (elect s) \<or> isLeader s \<or> el_closed (elect s)")
    case True
    then show ?thesis using ok idle by (auto simp: leads_alone_def lead_alone_def Let_def)
  next
    case False
    then have off': "source s = None" "connection s = None" "st_status s = (if engaged s then channelStatus s else Paused)"
      "\<not> st_leader s" using off by simp_all
    have "shown_ok (onLead (call_election ((elect s)\<lparr>leader := True\<rparr>, [OnLead]) s))" if "\<not> shared (elect s)"
      by (rule shown_ok_onLead) (use False off' posts ok that in \<open>simp_all add: shown_ok_def\<close>)
    with False ok show ?thesis by (simp add: leads_alone_def lead_alone_def)
  qed
  have "shown_ok (call_election (tab_free t g (elect s)) s)"
    unfolding shown_ok_def posts using ok by (simp add: tab_free_def shown_ok_def)
  then show "shown_ok (tab_freed t g s)"
    using shown_ok_only_flush [OF only_flush_onTabGone] by (cases "tab_free t g (elect s)") (auto simp: tab_freed_def Let_def)
qed

lemma shown_ok_engage_ready:
  assumes ok: "shown_ok s"
  shows "shown_ok (engage_ready s)"
proof -
  let ?s = "s\<lparr>readying := readying s - 1, engaged := True\<rparr>"
  have "shown_ok (report ?s)" using ok posts_fields(5,7) [OF report_groups(2) [of ?s]] by (auto simp: shown_ok_def)
  then have a: "shown_ok (offerAll True (election_send (RelayWho (tab s)) (report ?s)))"
    by (intro shown_ok_only_flush [OF only_flush_offers(3)] shown_ok_quiet [OF quiet_election_send])
  have w: "shown_ok (election_want t)" if "shown_ok t" for t
    using that posts_fields(5,7) [OF election_want_groups(2) [of t]] by (auto simp: shown_ok_def want_def)
  have "shown_ok (s\<lparr>readying := readying s - 1\<rparr>)" using ok by (simp add: shown_ok_def)
  with ok a w [OF a] show ?thesis by (simp add: engage_ready_def Let_def)
qed

lemma shown_ok_election_want: "shown_ok s \<Longrightarrow> shown_ok (election_want s)"
  using posts_fields(5,7) [OF election_want_groups(2) [of s]] by (auto simp: shown_ok_def want_def)

lemma shown_ok_onHello:
  assumes ok: "shown_ok s" and source: "source s \<noteq> None"
  shows "shown_ok (onHello conn facts s)"
proof -
  let ?s1 = "s\<lparr>connectTimer := None, offlineTimer := None, attempt := 0, dropping := False, heardHello := True,
            connection := Some conn, lastHello := Some facts\<rparr>"
  obtain seen s2 where s2: "seeInstance facts ?s1 = (seen, s2)" by (meson surj_pair)
  have "shown_ok ?s1" using ok source by (simp add: shown_ok_def)
  then have ok2: "shown_ok s2" by (rule shown_ok_quiet [OF quiet_seeInstance [OF s2]])
  then have "shown_ok (s2\<lparr>tabSubs := ts, engineSubs := es\<rparr>)" for ts es by (simp add: shown_ok_def)
  then have "shown_ok (offerAll True (s2\<lparr>tabSubs := ts, engineSubs := es\<rparr>))" for ts es
    by (rule shown_ok_only_flush [OF only_flush_offers(3)])
  moreover define t where "t = (if seen \<noteq> Same then offerAll True (s2\<lparr>tabSubs := map (\<lambda>(i, u). (i, u\<lparr>after := None\<rparr>)) (tabSubs s2),
      engineSubs := map (\<lambda>(i, en). (i, en\<lparr>e_cursor := None, last_raw := []\<rparr>)) (engineSubs s2)\<rparr>) else s2)"
  ultimately have "shown_ok t" using ok2 by simp
  then have "shown_ok (t\<lparr>removes := [], engineSubs := es\<rparr>)" for es by (simp add: shown_ok_def)
  then have "shown_ok (election_send m (setChannelStatus Live (t\<lparr>removes := [], engineSubs := es\<rparr>)))" for m es
    by (intro shown_ok_quiet [OF quiet_election_send] shown_ok_status(1))
  then have "shown_ok (scheduleFlush (election_send m (setChannelStatus Live (t\<lparr>removes := [], engineSubs := es\<rparr>))))" for m es
    by (rule shown_ok_only_flush [OF only_flush_scheduleFlush])
  then show ?thesis by (simp add: onHello_def s2 Let_def t_def)
qed

lemma shown_ok_onMessage: "shown_ok s \<Longrightarrow> shown_ok (onMessage m s)"
proof (cases m)
  case (RelaySub t i topic params c)
  assume ok: "shown_ok s"
  have "shown_ok (call_election (watch t (elect s)) s)"
    using ok posts_fields(5,7) [OF call_election_groups(2) [of "watch t (elect s)" s]] by (auto simp: shown_ok_def watch_def)
  then show ?thesis using ok RelaySub by (simp add: shown_ok_only_flush [OF only_flush_leaderAdd])
next
  case (RelayHello l facts)
  assume ok: "shown_ok s"
  obtain seen s2 where s2: "seeInstance facts s = (seen, s2)" by (meson surj_pair)
  have "shown_ok s2" using ok by (rule shown_ok_quiet [OF quiet_seeInstance [OF s2]])
  then have "shown_ok (offerAll b (report (s2\<lparr>channelStatus := Live\<rparr>)))" for b
    by (intro shown_ok_only_flush [OF only_flush_offers(3)] shown_ok_status(2))
  with ok RelayHello s2 show ?thesis by simp
qed (auto simp: shown_ok_status intro: shown_ok_only_flush [OF only_flush_leaderRemove] shown_ok_quiet [OF quiet_announce]
  shown_ok_quiet [OF quiet_deliverRaw] shown_ok_quiet [OF quiet_acceptLocal] shown_ok_quiet [OF quiet_refuseLocal])

lemma shown_ok_subscribe:
  assumes ok: "shown_ok s"
  shows "shown_ok (subscribe_local topic params c s)"
proof (cases "wireParams params")
  case (Some w)
  have new: "shown_ok (s\<lparr>localSerial := n, locals := ls\<rparr>)" for n ls using ok by (simp add: shown_ok_def)
  have "shown_ok (election_want (offer i (s\<lparr>localSerial := n, locals := ls\<rparr>)))" for i n ls
    by (rule shown_ok_election_want [OF shown_ok_only_flush [OF only_flush_offers(1) new]])
  with new Some show ?thesis by (simp add: subscribe_local_def Let_def)
next
  case None
  have "shown_ok (s\<lparr>localSerial := n\<rparr>)" for n using ok by (simp add: shown_ok_def)
  with None show ?thesis by (simp add: subscribe_local_def Let_def)
qed

lemma shown_ok_unsubscribe:
  assumes ok: "shown_ok s"
  shows "shown_ok (unsubscribe_local i s)"
proof -
  let ?s = "s\<lparr>locals := AList.delete i (locals s)\<rparr>"
  have new: "shown_ok ?s" using ok by (simp add: shown_ok_def)
  have w: "shown_ok (election_withdraw t)" if "shown_ok t" "\<not> isLeader t" for t
    using that posts_fields(5,7) [OF election_withdraw_groups(2) [of t]] withdraw_fields [of "elect t"]
    by (auto simp: shown_ok_def)
  have "shown_ok (withdrawLocal i ?s)" by (rule shown_ok_only_flush [OF only_flush_offers(2) new])
  with new w ok show ?thesis
    by (auto simp: unsubscribe_local_def Let_def intro: shown_ok_quiet [OF quiet_idleCheck] split: option.split)
qed

lemma release_tab_not_leader:
  assumes ok: "shown_ok s"
  shows "\<not> isLeader (release_tab s)"
proof (cases "engaged s")
  case True
  then have "engaged (release_tab s) = False" by (simp add: release_tab_def Let_def)
  with shown_ok_release_tab [OF ok] show ?thesis by (auto simp: shown_ok_def)
next
  case False
  with ok show ?thesis by (auto simp: shown_ok_def release_tab_def Let_def)
qed

lemma shown_ok_close:
  assumes ok: "shown_ok s"
  shows "shown_ok (close_channel s)"
proof -
  have r: "shown_ok (release_tab s)" by (rule shown_ok_release_tab [OF ok])
  have "\<not> isLeader (release_tab s)" by (rule release_tab_not_leader [OF ok])
  then have l: "\<not> leader (fst (close_election (elect (release_tab s))))"
    by (auto simp: close_election_def withdraw_def stopWatching_def Let_def)
  have p: "pending (fst (close_election e)) = None" if "pending e = None" for e
    using that by (auto simp: close_election_def withdraw_def stopWatching_def Let_def)
  have sh: "shared (fst (close_election e)) = shared e" for e
    by (auto simp: close_election_def withdraw_def stopWatching_def Let_def)
  let ?t = "(release_tab s)\<lparr>closed := True, locals := []\<rparr>"
  have "source (call_election x ?t) = source (release_tab s)" "connection (call_election x ?t) = connection (release_tab s)" for x
    using posts_fields(5,7) [OF call_election_groups(2) [of x ?t]] by simp_all
  then have "shown_ok (call_election (close_election (elect ?t)) ?t)"
    using r l p sh \<open>\<not> isLeader (release_tab s)\<close> by (auto simp: shown_ok_def)
  with ok show ?thesis by (simp add: close_channel_def Let_def)
qed

lemma shown_ok_fires:
  assumes ok: "shown_ok s"
  shows "shown_ok (connect_fires s)" and "shown_ok (offline_fires s)" and "shown_ok (idle_fires s)"
    and "shown_ok (probe_answered g a s)" and "shown_ok (probe_settled g s)"
proof -
  have u: "shown_ok (s\<lparr>connectTimer := c\<rparr>)" "shown_ok (s\<lparr>offlineTimer := d\<rparr>)" "shown_ok (s\<lparr>idleTimer := d\<rparr>)"
    "shown_ok (s\<lparr>probes := ps\<rparr>)" for c d ps using ok by (simp_all add: shown_ok_def)
  show "shown_ok (connect_fires s)" using ok u(1)
    by (auto simp: connect_fires_def Let_def shown_ok_closeSource shown_ok_scheduleRetry split: option.split)
  show "shown_ok (offline_fires s)" using ok u(2) by (simp add: offline_fires_def Let_def shown_ok_status)
  show "shown_ok (idle_fires s)" using ok u(3) by (simp add: idle_fires_def Let_def shown_ok_stopLeading)
  show "shown_ok (probe_answered g a s)" using ok u(4)
    by (simp add: probe_answered_def Let_def shown_ok_status split: option.split prod.split)
  show "shown_ok (probe_settled g s)" using ok u(4) by (simp add: probe_settled_def Let_def shown_ok_scheduleRetry)
qed

lemma shown_ok_react: "shown_ok s \<Longrightarrow> shown_ok (react i s)"
proof (cases i)
  case (Shown v)
  assume "shown_ok s"
  then have "shown_ok (s\<lparr>visible := v\<rparr>)" by (simp add: shown_ok_def)
  then show ?thesis using Shown by (simp add: shown_ok_quiet [OF quiet_onVisibility])
next
  case FlushRetryFires
  assume ok: "shown_ok s"
  have "shown_ok (s\<lparr>flushRetry := None\<rparr>)" using ok by (simp add: shown_ok_def)
  then show ?thesis using ok FlushRetryFires by (simp add: shown_ok_only_flush [OF only_flush_scheduleFlush])
qed (auto simp: shown_ok_release_tab shown_ok_engage_ready shown_ok_elections shown_ok_onMessage shown_ok_subscribe
  shown_ok_unsubscribe shown_ok_close shown_ok_fires shown_ok_onHello shown_ok_only_flush [OF only_flush_onEngineMessage]
  shown_ok_onStopping shown_ok_onError shown_ok_flush_task shown_ok_post_done shown_ok_connect
  shown_ok_only_flush [OF only_flush_offers(4)] shown_ok_only_flush [OF only_flush_offers(5)]
  intro: shown_ok_quiet [OF quiet_update(1)] shown_ok_quiet [OF quiet_update(2)] shown_ok_quiet [OF quiet_update(6)])

lemma shown_ok_running: "running s \<Longrightarrow> shown_ok s"
proof (induction rule: running.induct)
  case (start name kinds both shown time)
  then show ?case by (simp add: createLiveChannel_def Let_def engage_def shown_ok_def createElection_def)
next
  case (step s i)
  then show ?case by (simp add: shown_ok_react)
qed

section \<open>Properties\<close>

text \<open>
  C33. What a tab shows is what is so, in every state a channel reaches: its status is the
  channel's while it is engaged and \<open>paused\<close> while it is not, it says that it leads exactly when it
  does, a tab that leads is engaged and open, and only a tab that leads has an \<open>EventSource\<close>, and
  only with one does it think itself connected.
\<close>

theorem shown_exact:
  assumes "running s"
  shows "st_status s = (if engaged s then channelStatus s else Paused) \<and> st_leader s = isLeader s \<and>
    (isLeader s \<longrightarrow> engaged s \<and> \<not> closed s) \<and> (source s \<noteq> None \<longrightarrow> isLeader s) \<and>
    (connection s \<noteq> None \<longrightarrow> source s \<noteq> None)"
  using shown_ok_running [OF assms] unfolding shown_ok_def by blast

theorem shown_exact_witness:
  "connection (run_sample sample_inputs) = Some (js ''c'') \<and> source (run_sample sample_inputs) \<noteq> None \<and>
   isLeader (run_sample sample_inputs) \<and> st_status (run_sample sample_inputs) = channelStatus (run_sample sample_inputs)"
proof -
  have "connection (run_sample sample_inputs) = Some (js ''c'')" by code_simp
  with shown_exact [OF running_sample [of sample_inputs]] show ?thesis by auto
qed

end
