(* ===== verification/Live_Posts.thy ===== *)
theory Live_Posts
  imports Live_Shown
begin

text \<open>
  The leader's POSTs: one at a time, and nothing left unasked. The lemmas follow what there is to
  ask of the engine through every function, against what is already on its way to be asked.
\<close>

section \<open>One POST at a time\<close>

definition posts_ok :: "chan \<Rightarrow> bool" where
  "posts_ok s \<longleftrightarrow> posting s = (inflight s \<noteq> []) \<and> length (inflight s) \<le> 1"

lemma posts_ok_cong: "posting s' = posting s \<Longrightarrow> inflight s' = inflight s \<Longrightarrow> posts_ok s' = posts_ok s"
  by (simp add: posts_ok_def)

text \<open>Everything but a flush and an answer leaves the POSTs alone.\<close>

definition same_call :: "chan \<Rightarrow> chan \<Rightarrow> bool" where
  "same_call s s' \<longleftrightarrow> posting s' = posting s \<and> inflight s' = inflight s"

lemma same_call_refl [simp, intro]: "same_call s s"
  by (simp add: same_call_def)

lemma same_call_trans: "same_call s t \<Longrightarrow> same_call t u \<Longrightarrow> same_call s u"
  by (simp add: same_call_def)

lemma same_call_posts: "posts s' = posts s \<Longrightarrow> same_call s s'"
  by (simp add: same_call_def posts_def)

lemma same_call_only_flush: "only_flush s s' \<Longrightarrow> same_call s s'"
  using only_flush_fields [of s s'] by (simp add: same_call_def)

lemmas same_call_intros = same_call_posts same_call_only_flush

lemma same_call_closeSource: "same_call s t \<Longrightarrow> same_call s (closeSource t)"
  using closeSource_groups(3) [of t] by (simp add: same_call_def posts_def)

lemma same_call_connect: "same_call s t \<Longrightarrow> same_call s (connect t)"
proof -
  assume "same_call s t"
  then have "same_call s (t\<lparr>retryTimer := None\<rparr>)" by (simp add: same_call_def)
  then have c: "same_call s (closeSource (t\<lparr>retryTimer := None\<rparr>))" by (rule same_call_closeSource)
  have "same_call s (watchConnecting n (emit (OpenSource n) (u\<lparr>source := x, opened := m\<rparr>)))" if "same_call s u" for n u x m
    using that by (simp add: same_call_def watchConnecting_def emit_def)
  with c show ?thesis by (simp add: connect_def Let_def)
qed

lemma same_call_stopLeading: "same_call s (stopLeading s)"
proof -
  have "same_call s (election_send (RelayBye (tab s)) (s\<lparr>generation := generation s + 1\<rparr>))"
    by (simp add: same_call_def election_send_def emit_def)
  from same_call_closeSource [OF this] show ?thesis
    by (simp add: stopLeading_def Let_def same_call_def report_def election_withdraw_def call_election_def)
qed

lemma same_call_onLead: "same_call s t \<Longrightarrow> same_call s (onLead t)"
proof -
  let ?t = "t\<lparr>generation := generation t + 1, tabSubs := [], engineSubs := [], sharedByKey := [], removes := [],
           attempt := 0, dropping := False\<rparr>"
  assume t: "same_call s t"
  then have "same_call s ?t" by (simp add: same_call_def)
  then have "same_call s (setChannelStatus Connecting ?t)"
    by (rule same_call_trans) (rule same_call_posts, simp)
  then have "same_call s (offerAll False (setChannelStatus Connecting ?t))"
    by (rule same_call_trans) (rule same_call_only_flush [OF only_flush_offers(3)])
  then have "same_call s (connect (offerAll False (setChannelStatus Connecting ?t)))" by (rule same_call_connect)
  moreover have "same_call s (election_withdraw t)" using t by (rule same_call_trans) (rule same_call_posts, simp)
  ultimately show ?thesis by (simp add: onLead_def)
qed

lemma same_call_onHello: "same_call s (onHello conn facts s)"
proof -
  let ?s1 = "s\<lparr>connectTimer := None, offlineTimer := None, attempt := 0, dropping := False, heardHello := True,
            connection := Some conn, lastHello := Some facts\<rparr>"
  obtain seen s2 where s2: "seeInstance facts ?s1 = (seen, s2)" by (meson surj_pair)
  have 2: "same_call s s2" using quiet_fields(11,12) [OF quiet_seeInstance [OF s2]] by (simp add: same_call_def)
  then have "same_call s (s2\<lparr>tabSubs := ts, engineSubs := es\<rparr>)" for ts es by (simp add: same_call_def)
  then have "same_call s (offerAll True (s2\<lparr>tabSubs := ts, engineSubs := es\<rparr>))" for ts es
    by (rule same_call_trans) (rule same_call_only_flush [OF only_flush_offers(3)])
  moreover have "same_call s (scheduleFlush (election_send m (setChannelStatus Live (t\<lparr>removes := [], engineSubs := es\<rparr>))))"
    if "same_call s t" for t m es
    by (rule same_call_trans [OF that]) (simp add: same_call_def scheduleFlush_def election_send_def emit_def
      setChannelStatus_def report_def Let_def)
  ultimately show ?thesis using 2 by (simp add: onHello_def s2 Let_def)
qed

lemma same_call_release_tab: "same_call s (release_tab s)"
proof -
  let ?s = "s\<lparr>wanted := False, releaseTimer := None,
    locals := map (\<lambda>(i, l). (i, if l_cursor l = None then l\<lparr>resync := True\<rparr> else l)) (locals s)\<rparr>"
  have s: "same_call s ?s" by (simp add: same_call_def)
  have "same_call s (report (election_withdraw (t\<lparr>engaged := False\<rparr>)))" if "same_call s t" for t
    by (rule same_call_trans [OF that same_call_posts]) simp
  moreover note same_call_trans [OF s same_call_stopLeading]
    same_call_trans [OF s same_call_only_flush [OF only_flush_quiet [OF fold_send_quiet [of ?s "RelayUnsub (tab s)"]]]]
  ultimately show ?thesis by (simp add: release_tab_def Let_def) (simp add: same_call_def)
qed

section \<open>Nothing left unasked\<close>

text \<open>What there is to ask: a subscription not sent, or one to drop.\<close>

definition to_ask :: "chan \<Rightarrow> bool" where
  "to_ask s \<longleftrightarrow> (\<exists>(i, en)\<in>set (engineSubs s). \<not> sent en) \<or> removes s \<noteq> []"

definition asking :: "chan \<Rightarrow> bool" where
  "asking s \<longleftrightarrow> flushQueued s \<or> flushRetry s \<noteq> None \<or> posting s"

definition asked_ok :: "chan \<Rightarrow> bool" where
  "asked_ok s \<longleftrightarrow> (isLeader s \<and> connection s \<noteq> None \<and> to_ask s \<longrightarrow> asking s)"

lemma asked_okI: "(isLeader s \<Longrightarrow> connection s \<noteq> None \<Longrightarrow> to_ask s \<Longrightarrow> asking s) \<Longrightarrow> asked_ok s"
  by (simp add: asked_ok_def)

lemma asked_ok_same:
  assumes "asked_ok s" and "books s' = books s" and "posts s' = posts s" and "isLeader s' \<Longrightarrow> isLeader s"
  shows "asked_ok s'"
  using assms by (auto simp: asked_ok_def to_ask_def asking_def books_def posts_def)

lemma asked_ok_not_leading: "\<not> isLeader s \<Longrightarrow> asked_ok s"
  by (simp add: asked_ok_def)

lemma asked_ok_not_connected: "connection s = None \<Longrightarrow> asked_ok s"
  by (simp add: asked_ok_def)

lemma asked_ok_queued: "flushQueued s \<Longrightarrow> asked_ok s"
  by (simp add: asked_ok_def asking_def)

text \<open>A function that asks for no more than a flush, and leaves no more to ask than there was.\<close>

lemma asked_ok_less:
  assumes "asked_ok s" and "only_flush s s'" and "to_ask s' \<Longrightarrow> to_ask s \<or> flushQueued s'"
  shows "asked_ok s'"
  using assms only_flush_fields [OF assms(2)] by (auto simp: asked_ok_def asking_def)

lemma map_entry_values: "(j, x) \<in> set (AList.map_entry k f xs) \<Longrightarrow> (j, x) \<in> set xs \<or> (\<exists>y. (j, y) \<in> set xs \<and> x = f y)"
proof (induction xs)
  case (Cons a xs)
  then show ?case by (cases a) (auto split: if_splits)
qed simp

lemma delete_values: "(j, x) \<in> set (AList.delete k xs) \<Longrightarrow> (j, x) \<in> set xs"
  by (simp add: AList.delete_eq)

lemma to_ask_upd_engine: "(\<And>en. sent (f en) = sent en) \<Longrightarrow> to_ask (upd_engine e f s) \<Longrightarrow> to_ask s"
  unfolding to_ask_def upd_engine_def by (auto dest!: map_entry_values)

lemma to_ask_tabs [simp]: "to_ask (s\<lparr>tabSubs := ts\<rparr>) = to_ask s" "to_ask (upd_tab i f s) = to_ask s"
  by (simp_all add: to_ask_def upd_tab_def)

lemma to_ask_quiet: "quiet s s' \<Longrightarrow> to_ask s' = to_ask s"
  using quiet_fields(4,6) [of s s'] by (simp add: to_ask_def)

lemma dropEngine_asks:
  "removes (dropEngine en b s) = (if b \<and> sent en then set_add (e_id en) (removes s) else removes s)"
  "b \<and> sent en \<Longrightarrow> flushQueued (dropEngine en b s)"
  by (simp_all add: dropEngine_def Let_def scheduleFlush_def)

lemma to_ask_dropEngine: "to_ask (dropEngine en b s) \<Longrightarrow> to_ask s \<or> flushQueued (dropEngine en b s)"
  using dropEngine_asks(2) [of b en s]
  by (auto simp: to_ask_def dropEngine_asks(1) dropEngine_fields(5) split: if_splits dest: delete_values)

lemma to_ask_join: "to_ask (join_engine sub en s) \<Longrightarrow> to_ask s"
proof -
  let ?t = "upd_tab (t_id sub) (\<lambda>u. u\<lparr>engine := Some (e_id en)\<rparr>)
    (upd_engine (e_id en) (\<lambda>en. en\<lparr>members := set_add (t_id sub) (members en)\<rparr>) s)"
  have "quiet t (fold (\<lambda>raw. route [sub] Ev raw) rs t)" for rs t by (rule quiet_fold) simp
  then have "quiet ?t (join_engine sub en s)"
    unfolding join_engine_def Let_def using quiet_announceAccepted quiet_trans by simp blast
  moreover have "to_ask ?t \<Longrightarrow> to_ask s"
    unfolding to_ask_tabs(2) by (rule to_ask_upd_engine) simp_all
  ultimately show "to_ask (join_engine sub en s) \<Longrightarrow> to_ask s" using to_ask_quiet by blast
qed

lemma asked_ok_leaderAdd: "asked_ok s \<Longrightarrow> asked_ok (leaderAdd t i topic params c s)"
proof (erule asked_ok_less [OF _ only_flush_leaderAdd])
  assume a: "to_ask (leaderAdd t i topic params c s)"
  have q: "flushQueued (open_engine sub key resume u)" for sub key resume u
    by (simp add: open_engine_def Let_def scheduleFlush_def)
  have i: "to_ask (s\<lparr>idleTimer := None, tabSubs := ts\<rparr>) = to_ask s" "to_ask (s\<lparr>idleTimer := None\<rparr>) = to_ask s" for ts
    by (simp_all add: to_ask_def)
  show "to_ask s \<or> flushQueued (leaderAdd t i topic params c s)"
    using a q unfolding leaderAdd_def Let_def by (auto simp: i split: option.splits if_splits dest: to_ask_join)
qed

lemma asked_ok_leaderRemove: "asked_ok s \<Longrightarrow> asked_ok (leaderRemove i s)"
proof (erule asked_ok_less [OF _ only_flush_leaderRemove])
  assume a: "to_ask (leaderRemove i s)"
  have q: "to_ask (idleCheck t) = to_ask t" "flushQueued (idleCheck t) = flushQueued t" for t
    using to_ask_quiet [OF quiet_idleCheck] quiet_fields(13) [OF quiet_idleCheck] by blast+
  have u: "to_ask (upd_engine (e_id en) (\<lambda>_. en\<lparr>members := m\<rparr>) (s\<lparr>tabSubs := ts\<rparr>)) \<Longrightarrow> to_ask s"
    if "map_of (engineSubs s) e = Some en" for e en m ts
  proof -
    have "(e, en) \<in> set (engineSubs s)" by (rule map_of_SomeD [OF that])
    moreover assume "to_ask (upd_engine (e_id en) (\<lambda>_. en\<lparr>members := m\<rparr>) (s\<lparr>tabSubs := ts\<rparr>))"
    ultimately show "to_ask s" unfolding to_ask_def upd_engine_def by (auto dest!: map_entry_values)
  qed
  show "to_ask s \<or> flushQueued (leaderRemove i s)"
    using a unfolding leaderRemove_def Let_def
    by (auto simp: q bind_eq_Some_conv split: option.splits if_splits dest!: to_ask_dropEngine dest: u)
qed

interpretation asks: channel_law asked_ok
proof unfold_locales
  show "asked_ok s'" if "quiet s s'" "asked_ok s" for s s'
    using asked_ok_same [OF that(2) quiet_groups(1,2) [OF that(1)]] quiet_fields(8) [OF that(1)] by simp
qed (simp_all add: asked_ok_leaderAdd asked_ok_leaderRemove)

lemma asked_ok_onTabGone: "asked_ok s \<Longrightarrow> asked_ok (onTabGone t s)"
  unfolding onTabGone_def by (rule asks.keeps_fold) (simp_all add: asked_ok_leaderRemove)

lemma asked_ok_onEngineMessage: "asked_ok s \<Longrightarrow> asked_ok (onEngineMessage kind raw s)"
proof (erule asked_ok_less [OF _ only_flush_onEngineMessage])
  assume a: "to_ask (onEngineMessage kind raw s)"
  have r: "to_ask (route us kind raw t) = to_ask t" for us t by (rule to_ask_quiet) simp
  have f: "flushQueued (route us kind raw t) = flushQueued t" for us t by (rule quiet_fields(13)) simp
  have n: "to_ask (upd_engine e (note_event h raw) s) \<Longrightarrow> to_ask s" for e h by (rule to_ask_upd_engine) simp_all
  show "to_ask s \<or> flushQueued (onEngineMessage kind raw s)"
    using a unfolding onEngineMessage_def Let_def
    by (auto simp: r f fold_delete_state split: option.splits if_splits dest: n dest!: to_ask_dropEngine)
qed

lemma asked_ok_flush_task: "asked_ok (flush_task s)" if "asked_ok s"
proof -
  have "to_ask s \<longleftrightarrow> filter (\<lambda>en. \<not> sent en) (map snd (engineSubs s)) \<noteq> [] \<or> removes s \<noteq> []"
    by (force simp: to_ask_def filter_empty_conv)
  with that show ?thesis
    by (auto simp: flush_task_def flush_def Let_def asked_ok_def asking_def to_ask_def emit_def split: option.split)
qed

text \<open>A POST answered while its leadership lasts.\<close>

lemma asked_ok_post_done:
  assumes "asked_ok s" and "n < length (inflight s) \<Longrightarrow> leading (inflight s ! n) = generation s"
  shows "asked_ok (post_done n answer s)"
proof (cases "n < length (inflight s)")
  case True
  let ?s = "s\<lparr>inflight := take n (inflight s) @ drop (Suc n) (inflight s)\<rparr>"
  have g: "generation (take_answer p answer ?s) = generation s" for p
  proof (cases answer)
    case (PostAnswered accepts refusals)
    then show ?thesis using only_flush_fields(11) [OF only_flush_take_answer(1), of p accepts refusals ?s] by simp
  next
    case (PostBadRequest code message fixing)
    then show ?thesis using only_flush_fields(11) [OF only_flush_take_answer(2), of p code message fixing ?s] by simp
  qed simp_all
  have "flushQueued (post_done n answer s) \<or> flushRetry (post_done n answer s) \<noteq> None"
    using True assms(2) [OF True] g by (auto simp: post_done_def Let_def scheduleFlush_def)
  then show ?thesis by (auto simp: asked_ok_def asking_def)
qed (simp add: post_done_def assms(1))

lemma connection_connect [simp]: "connection (connect s) = None"
proof -
  have "connection (watchConnecting n (emit c t)) = connection t" for n c t
    using quiet_fields(15) [OF quiet_trans [OF quiet_emit quiet_watchConnecting]] by blast
  then show ?thesis by (simp add: connect_def Let_def)
qed

lemma asked_ok_onLead: "leader (elect s) \<Longrightarrow> wanting (elect s) \<Longrightarrow> asked_ok (onLead s)"
proof (cases "closed s \<or> \<not> engaged s")
  case True
  assume "wanting (elect s)"
  then have "\<not> isLeader (onLead s)" using True withdraw_fields(1) [of "elect s"] by (simp add: onLead_def)
  then show ?thesis by (rule asked_ok_not_leading)
next
  case False
  then have "connection (onLead s) = None" by (simp add: onLead_def)
  then show ?thesis by (rule asked_ok_not_connected)
qed

lemma asked_ok_elections:
  assumes ok: "asked_ok s"
  shows "asked_ok (lock_granted r s)" and "asked_ok (leads_alone s)" and "asked_ok (tab_freed t g s)"
proof -
  have same: "asked_ok (call_election x s)" if "leader (fst x) \<Longrightarrow> isLeader s" for x
    by (rule asked_ok_same [OF ok]) (use that in simp_all)
  show "asked_ok (lock_granted r s)"
  proof (cases "pending (elect s) = Some r \<and> wanting (elect s) \<and> \<not> el_closed (elect s)")
    case True
    then show ?thesis by (auto simp: lock_granted_def granted_def Let_def intro!: asked_ok_onLead)
  next
    case False
    then have "lock_granted r s = call_election (elect s, []) s" by (auto simp: lock_granted_def granted_def)
    then show ?thesis using same [of "(elect s, [])"] by simp
  qed
  show "asked_ok (leads_alone s)"
  proof (cases "\<not> wanting (elect s) \<or> isLeader s \<or> el_closed (elect s)")
    case True
    then show ?thesis using ok same [of "(elect s, [])"] by (auto simp: leads_alone_def lead_alone_def Let_def)
  next
    case False
    have "asked_ok (onLead (call_election ((elect s)\<lparr>leader := True\<rparr>, [OnLead]) s))"
      by (rule asked_ok_onLead) (use False in simp_all)
    with False ok show ?thesis by (simp add: leads_alone_def lead_alone_def)
  qed
  have "asked_ok (call_election (tab_free t g (elect s)) s)" by (rule same) (simp add: tab_free_def)
  then show "asked_ok (tab_freed t g s)"
    using asked_ok_onTabGone by (cases "tab_free t g (elect s)") (auto simp: tab_freed_def Let_def)
qed

lemma asked_ok_engage_ready:
  assumes ok: "asked_ok s" and shown: "shown_ok s"
  shows "asked_ok (engage_ready s)"
proof (cases "readying s = 0 \<or> \<not> wanted s \<or> engaged s \<or> closed s")
  case True
  have "asked_ok (s\<lparr>readying := readying s - 1\<rparr>)" by (rule asked_ok_same [OF ok]) simp_all
  then show ?thesis using ok True by (auto simp: engage_ready_def Let_def)
next
  case False
  let ?s = "election_send (RelayWho (tab s)) (report (s\<lparr>readying := readying s - 1, engaged := True\<rparr>))"
  have "\<not> isLeader s" using shown False by (auto simp: shown_ok_def)
  then have "\<not> isLeader ?s" using quiet_fields(8) [OF quiet_election_send] by simp
  then have "\<not> isLeader (offerAll True ?s)" using only_flush_fields(1) [OF only_flush_offers(3) [of ?s True]] by simp
  then have "\<not> isLeader (engage_ready s)" using False by (auto simp: engage_ready_def Let_def want_def)
  then show ?thesis by (rule asked_ok_not_leading)
qed

lemma asked_ok_onMessage: "asked_ok s \<Longrightarrow> asked_ok (onMessage m s)"
proof (cases m)
  case (RelaySub t i topic params c)
  assume ok: "asked_ok s"
  have "asked_ok (call_election (watch t (elect s)) s)"
    by (rule asked_ok_same [OF ok]) (simp_all add: watch_def split: if_splits)
  then show ?thesis using ok RelaySub by (simp add: asked_ok_leaderAdd)
next
  case (RelayHello l facts)
  assume ok: "asked_ok s"
  obtain seen s2 where s2: "seeInstance facts s = (seen, s2)" by (meson surj_pair)
  have "asked_ok s2" using ok by (rule asks.quiet [OF quiet_seeInstance [OF s2]])
  then have "asked_ok (report (s2\<lparr>channelStatus := Live\<rparr>))" by (rule asked_ok_same) simp_all
  with ok RelayHello s2 show ?thesis by (simp add: asks.keeps_offerAll)
qed (auto simp: asked_ok_leaderRemove asks.quiet [OF quiet_announce] asks.quiet [OF quiet_deliverRaw]
  asks.quiet [OF quiet_acceptLocal] asks.quiet [OF quiet_refuseLocal] intro: asked_ok_same)

lemma asked_ok_subscribe:
  assumes ok: "asked_ok s"
  shows "asked_ok (subscribe_local topic params c s)"
proof (cases "wireParams params")
  case (Some w)
  have new: "asked_ok (s\<lparr>localSerial := n, locals := ls\<rparr>)" for n ls by (rule asked_ok_same [OF ok]) simp_all
  have "asked_ok (election_want (offer i (s\<lparr>localSerial := n, locals := ls\<rparr>)))" for i n ls
    by (rule asked_ok_same [OF asks.keeps_offer [OF new]]) (simp_all add: want_def split: if_splits)
  with new Some show ?thesis by (simp add: subscribe_local_def Let_def)
next
  case None
  have "asked_ok (s\<lparr>localSerial := n\<rparr>)" for n by (rule asked_ok_same [OF ok]) simp_all
  with None show ?thesis by (simp add: subscribe_local_def Let_def)
qed

lemma asked_ok_unsubscribe:
  assumes ok: "asked_ok s"
  shows "asked_ok (unsubscribe_local i s)"
proof -
  let ?s = "s\<lparr>locals := AList.delete i (locals s)\<rparr>"
  have new: "asked_ok ?s" by (rule asked_ok_same [OF ok]) simp_all
  have w: "asked_ok (election_withdraw t)" if "\<not> isLeader t" for t
    by (rule asked_ok_not_leading) (use that in \<open>auto simp: withdraw_def stopWatching_def Let_def\<close>)
  from new asks.keeps_withdrawLocal [OF new] w ok show ?thesis
    by (auto simp: unsubscribe_local_def Let_def intro: asks.quiet [OF quiet_idleCheck] split: option.split)
qed

lemma asked_ok_onError: "asked_ok (onError n gone s)"
proof -
  have "connection (beginDrop t) = connection t" "connection (scheduleRetry t) = connection t"
    "connection (watchConnecting n t) = connection t" "connection (emit c t) = connection t" for t c
    using posts_fields(5) [OF beginDrop_groups(2)] posts_fields(5) [OF scheduleRetry_groups(2)]
      quiet_fields(15) [OF quiet_watchConnecting] quiet_fields(15) [OF quiet_emit] by blast+
  then have "connection (onError n gone s) = None" by (simp add: onError_def Let_def)
  then show ?thesis by (rule asked_ok_not_connected)
qed

lemma asked_ok_onStopping: "asked_ok (onStopping s)"
proof -
  have "connection (scheduleRetry t) = connection t" "connection (setChannelStatus st t) = connection t"
    "connection (election_send m t) = connection t" for t st m
    using posts_fields(5) [OF scheduleRetry_groups(2)] posts_fields(5) [OF setChannelStatus_groups(2)]
      quiet_fields(15) [OF quiet_election_send] by blast+
  then have "connection (onStopping s) = None" by (simp add: onStopping_def Let_def)
  then show ?thesis by (rule asked_ok_not_connected)
qed

lemma asked_ok_onHello: "asked_ok (onHello conn facts s)"
  by (rule asked_ok_queued) (simp add: onHello_def Let_def scheduleFlush_def split: prod.split)

lemma elect_setChannelStatus [simp]: "elect (setChannelStatus st s) = elect s"
  using setChannelStatus_groups(3) [of st s] by (simp add: shows_of_def)

lemma elect_scheduleRetry [simp]: "elect (scheduleRetry s) = elect s"
  by (simp add: scheduleRetry_def beginDrop_def Let_def)

lemma asked_ok_fires:
  assumes ok: "asked_ok s"
  shows "asked_ok (connect_fires s)" and "asked_ok (offline_fires s)" and "asked_ok (idle_fires s)"
    and "asked_ok (probe_answered g a s)" and "asked_ok (probe_settled g s)"
proof -
  have u: "asked_ok (s\<lparr>connectTimer := c\<rparr>)" "asked_ok (s\<lparr>offlineTimer := d\<rparr>)" "asked_ok (s\<lparr>idleTimer := d\<rparr>)"
    "asked_ok (s\<lparr>probes := ps\<rparr>)" for c d ps by (rule asked_ok_same [OF ok]; simp)+
  have r: "asked_ok (scheduleRetry t)" if "asked_ok t" for t
    by (rule asked_ok_same [OF that]) simp_all
  have "connection (scheduleRetry (closeSource t)) = None" for t
    using posts_fields(5) [OF scheduleRetry_groups(2) [of "closeSource t"]] by simp
  then show "asked_ok (connect_fires s)" using ok u(1)
    by (auto simp: connect_fires_def Let_def intro: asked_ok_not_connected split: option.split)
  have st: "asked_ok (setChannelStatus x t)" if "asked_ok t" for x t
    by (rule asked_ok_same [OF that]) simp_all
  show "asked_ok (offline_fires s)" using ok u(2) st by (simp add: offline_fires_def Let_def)
  show "asked_ok (idle_fires s)" using ok u(3)
    by (simp add: idle_fires_def Let_def asked_ok_not_connected stopLeading_fields)
  show "asked_ok (probe_answered g a s)" using ok u(4) st
    by (simp add: probe_answered_def Let_def split: option.split prod.split)
  show "asked_ok (probe_settled g s)" using ok u(4) r by (simp add: probe_settled_def Let_def)
qed

text \<open>A POST answered after the leadership it was sent in has ended.\<close>

definition late_answer :: "channel_input \<Rightarrow> chan \<Rightarrow> bool" where
  "late_answer i s \<longleftrightarrow>
     (case i of PostDone n answer \<Rightarrow> n < length (inflight s) \<and> leading (inflight s ! n) \<noteq> generation s | _ \<Rightarrow> False)"

lemma asked_ok_react:
  assumes ok: "asked_ok s" and shown: "shown_ok s" and "\<not> late_answer i s"
  shows "asked_ok (react i s)"
proof (cases i)
  case Close
  have "\<not> isLeader (close_channel s)" if "\<not> closed s"
    using that release_tab_not_leader [OF shown]
    by (auto simp: close_channel_def Let_def close_election_def withdraw_def stopWatching_def)
  then show ?thesis using ok Close asked_ok_not_leading by (cases "closed s") (simp_all add: close_channel_def)
next
  case (PostDone n answer)
  then show ?thesis using assms by (auto simp: late_answer_def intro: asked_ok_post_done)
next
  case (Shown v)
  have "asked_ok (s\<lparr>visible := v\<rparr>)" by (rule asked_ok_same [OF ok]) simp_all
  then show ?thesis using Shown by (simp add: asks.quiet [OF quiet_onVisibility])
next
  case FlushRetryFires
  then show ?thesis using ok by (auto simp: scheduleFlush_def intro: asked_ok_queued)
next
  case RetryFires
  then show ?thesis using ok by (simp add: asked_ok_not_connected)
qed (use ok shown in \<open>auto simp: asked_ok_elections asked_ok_engage_ready asked_ok_onMessage asked_ok_subscribe
  asked_ok_unsubscribe asked_ok_onHello asked_ok_onEngineMessage asked_ok_onStopping asked_ok_onError asked_ok_flush_task
  asked_ok_fires asks.keeps_retry_all asks.keeps_local_retry asked_ok_not_leading release_tab_not_leader
  intro: asked_ok_same\<close>)

text \<open>The runs in which no POST outlives its leadership.\<close>

inductive steady :: "chan \<Rightarrow> bool" where
  start: "steady (createLiveChannel name kinds both shown time)"
| step: "steady s \<Longrightarrow> \<not> late_answer i s \<Longrightarrow> steady (react i s)"

lemma steady_running: "steady s \<Longrightarrow> running s"
  by (induction rule: steady.induct) (auto intro: running.intros)

lemma asked_ok_steady: "steady s \<Longrightarrow> asked_ok s"
proof (induction rule: steady.induct)
  case (start name kinds both shown time)
  then show ?case
    by (intro asked_ok_not_connected) (simp add: createLiveChannel_def Let_def engage_def)
next
  case (step s i)
  then show ?case by (simp add: asked_ok_react shown_ok_running steady_running)
qed

section \<open>Every run\<close>

lemma same_call_engage_ready: "same_call s (engage_ready s)"
proof -
  let ?s = "election_send (RelayWho (tab s)) (report (s\<lparr>readying := readying s - 1, engaged := True\<rparr>))"
  have "same_call s ?s" by (rule same_call_posts) simp
  then have "same_call s (offerAll True ?s)" by (rule same_call_trans) (rule same_call_only_flush [OF only_flush_offers(3)])
  moreover have "same_call s (election_want t)" if "same_call s t" for t
    by (rule same_call_trans [OF that same_call_posts]) simp
  ultimately show ?thesis by (simp add: engage_ready_def Let_def) (simp add: same_call_def)
qed

lemma same_call_elections: "same_call s (lock_granted r s)" "same_call s (leads_alone s)" "same_call s (tab_freed t g s)"
proof -
  have c: "same_call s (call_election x s)" for x by (rule same_call_posts) simp
  show "same_call s (lock_granted r s)"
    by (auto simp: lock_granted_def Let_def c intro: same_call_onLead split: prod.split)
  show "same_call s (leads_alone s)" using same_call_onLead [OF c] c [of "lead_alone (elect s)"] by (simp add: leads_alone_def Let_def)
  have "same_call s (onTabGone t (call_election x s))" for x
    by (rule same_call_trans [OF c same_call_only_flush [OF only_flush_onTabGone]])
  with c show "same_call s (tab_freed t g s)" by (auto simp: tab_freed_def Let_def split: prod.split)
qed

lemma same_call_onMessage: "same_call s (onMessage m s)"
proof (cases m)
  case (RelaySub t i topic params c)
  have "same_call s (leaderAdd t i topic params c (call_election x s))" for x
    by (rule same_call_trans [OF same_call_posts same_call_only_flush [OF only_flush_leaderAdd]]) simp
  with RelaySub show ?thesis by simp
next
  case (RelayHello l facts)
  obtain seen s2 where s2: "seeInstance facts s = (seen, s2)" by (meson surj_pair)
  have "same_call s (report (s2\<lparr>channelStatus := Live\<rparr>))"
    using quiet_groups(2) [OF quiet_seeInstance [OF s2]] by (intro same_call_posts) simp
  then have "same_call s (offerAll b (report (s2\<lparr>channelStatus := Live\<rparr>)))" for b
    by (rule same_call_trans) (rule same_call_only_flush [OF only_flush_offers(3)])
  with RelayHello s2 show ?thesis by simp
qed (auto intro: same_call_posts same_call_only_flush [OF only_flush_leaderRemove])

lemma same_call_subscribing: "same_call s (subscribe_local topic params c s)" "same_call s (unsubscribe_local i s)"
proof -
  have "same_call s (offer i (s\<lparr>localSerial := n, locals := ls\<rparr>))" for i n ls
    by (rule same_call_trans [OF same_call_posts same_call_only_flush [OF only_flush_offers(1)]]) simp
  then have "same_call s (election_want (offer i (s\<lparr>localSerial := n, locals := ls\<rparr>)))" for i n ls
    by (rule same_call_trans) (rule same_call_posts, simp)
  moreover have "same_call s (s\<lparr>localSerial := n, locals := ls\<rparr>)" "same_call s (s\<lparr>localSerial := n\<rparr>)" for n ls
    by (simp_all add: same_call_def)
  ultimately show "same_call s (subscribe_local topic params c s)"
    by (simp add: subscribe_local_def Let_def split: option.split)
  have "same_call s (withdrawLocal i (s\<lparr>locals := ls\<rparr>))" for ls
    by (rule same_call_trans [OF same_call_posts same_call_only_flush [OF only_flush_offers(2)]]) simp
  moreover have "same_call s (s\<lparr>locals := ls\<rparr>)" for ls by (simp add: same_call_def)
  moreover have "same_call s (idleCheck t)" "same_call s (election_withdraw t)" if "same_call s t" for t
    by (rule same_call_trans [OF that same_call_posts]; simp)+
  ultimately show "same_call s (unsubscribe_local i s)" by (simp add: unsubscribe_local_def Let_def split: option.split)
qed

lemma same_call_dropping: "same_call s (onStopping s)" "same_call s (onError n gone s)" "same_call s (connect_fires s)"
proof -
  have r: "same_call s (scheduleRetry t)" "same_call s (beginDrop t)" "same_call s (setChannelStatus st t)"
    "same_call s (election_send m t)" "same_call s (emit c t)" "same_call s (watchConnecting n t)" if "same_call s t" for t st m c n
    by (rule same_call_trans [OF that same_call_posts]; simp)+
  have u: "same_call s (t\<lparr>connection := x\<rparr>)" "same_call s (t\<lparr>heardHello := b\<rparr>)" "same_call s (t\<lparr>probes := ps\<rparr>)"
    "same_call s (t\<lparr>dropping := b\<rparr>)" "same_call s (t\<lparr>offlineTimer := d\<rparr>)" "same_call s (t\<lparr>connectTimer := k\<rparr>)"
    if "same_call s t" for t x b ps d k using that by (simp_all add: same_call_def)
  note k = r u same_call_closeSource
  show "same_call s (onStopping s)" unfolding onStopping_def Let_def by (intro k) simp
  show "same_call s (onError n gone s)" by (simp add: onError_def Let_def k)
  show "same_call s (connect_fires s)" by (auto simp: connect_fires_def Let_def k split: option.split)
qed

lemma same_call_take_answer: "same_call s (take_answer p answer s)"
proof (cases answer)
  case (PostAnswered accepts refusals)
  then show ?thesis using same_call_only_flush [OF only_flush_take_answer(1)] by blast
next
  case (PostBadRequest code message fixing)
  then show ?thesis using same_call_only_flush [OF only_flush_take_answer(2)] by blast
qed (simp_all add: same_call_def)

lemma posts_ok_post_done:
  assumes "posts_ok s"
  shows "posts_ok (post_done n answer s)"
proof (cases "n < length (inflight s)")
  case True
  let ?s = "s\<lparr>inflight := take n (inflight s) @ drop (Suc n) (inflight s)\<rparr>"
  have "take n (inflight s) @ drop (Suc n) (inflight s) = []" using True assms by (auto simp: posts_ok_def)
  then have "inflight (take_answer p answer ?s) = []" "inflight ?s = []" for p
    using same_call_take_answer [of ?s p answer] by (simp_all add: same_call_def)
  then show ?thesis using True by (auto simp: post_done_def Let_def scheduleFlush_def posts_ok_def)
qed (simp add: post_done_def assms)

lemma posts_ok_react: "posts_ok s \<Longrightarrow> posts_ok (react i s)"
proof -
  assume ok: "posts_ok s"
  have same: "posts_ok (react i s)" if "same_call s (react i s)"
    using ok that by (simp add: same_call_def posts_ok_def)
  show ?thesis
  proof (cases i)
    case FlushTask
    show ?thesis using ok unfolding FlushTask react.simps
      by (auto simp: flush_task_def flush_def Let_def posts_ok_def emit_def split: option.split)
  next
    case (PostDone n answer)
    then show ?thesis using ok by (simp add: posts_ok_post_done)
  next
    case Close
    have "same_call s (call_election x ((release_tab s)\<lparr>closed := True, locals := []\<rparr>))" for x
      by (rule same_call_trans [OF same_call_release_tab same_call_posts]) simp
    then show ?thesis by (intro same) (simp add: Close close_channel_def Let_def)
  next
    case IdleFires
    have "same_call s (stopLeading (s\<lparr>idleTimer := None\<rparr>))"
      by (rule same_call_trans [OF same_call_posts same_call_stopLeading]) simp
    then show ?thesis by (intro same) (simp add: IdleFires idle_fires_def Let_def same_call_def)
  next
    case FlushRetryFires
    then show ?thesis by (intro same) (simp add: scheduleFlush_def same_call_def)
  next
    case RetryFires
    then show ?thesis by (intro same) (simp add: same_call_connect)
  qed (intro same; auto simp: same_call_release_tab same_call_engage_ready same_call_elections same_call_onMessage
    same_call_subscribing same_call_onHello same_call_dropping intro: same_call_posts same_call_only_flush [OF only_flush_onEngineMessage]
    same_call_only_flush [OF only_flush_offers(4)] same_call_only_flush [OF only_flush_offers(5)])+
qed

lemma posts_ok_running: "running s \<Longrightarrow> posts_ok s"
proof (induction rule: running.induct)
  case (start name kinds both shown time)
  then show ?case by (simp add: createLiveChannel_def Let_def engage_def posts_ok_def)
next
  case (step s i)
  then show ?case by (simp add: posts_ok_react)
qed

section \<open>Properties\<close>

text \<open>
  C34. The leader asks the engine in order and forgets nothing. In every run there is never more
  than one POST unanswered, and the flag that holds back a second one says so exactly. In the runs
  in which no POST outlives the leadership it was sent in, a leader that is connected and has
  something to ask (a subscription not sent, or one to drop) has a flush queued, a retry set, or a
  POST under way whose answer brings the next.
\<close>

theorem nothing_left_unasked:
  assumes "running s"
  shows "length (inflight s) \<le> 1 \<and> posting s = (inflight s \<noteq> []) \<and>
    (steady s \<longrightarrow> isLeader s \<and> connection s \<noteq> None \<and> ((\<exists>(i, en)\<in>set (engineSubs s). \<not> sent en) \<or> removes s \<noteq> []) \<longrightarrow>
      flushQueued s \<or> flushRetry s \<noteq> None \<or> posting s)"
  using posts_ok_running [OF assms] asked_ok_steady [of s]
  unfolding posts_ok_def asked_ok_def to_ask_def asking_def by blast

definition steady_inputs :: "channel_input list" where
  "steady_inputs = [Subscribe (js ''jobs'') (JObj []) None, TabLockHeld, LockGranted 0, SourceHello 0 (js ''c'') sample_facts]"

lemma steady_sample: "steady (run_sample steady_inputs)"
  unfolding run_sample_def steady_inputs_def
  by (simp only: fold_Cons fold_Nil comp_apply id_apply) (intro steady.step steady.start; simp add: late_answer_def)

theorem nothing_left_unasked_witness:
  "isLeader (run_sample steady_inputs) \<and> flushQueued (run_sample steady_inputs) \<and>
   length (inflight (run_sample steady_inputs)) \<le> 1"
proof -
  have "isLeader (run_sample steady_inputs)" "connection (run_sample steady_inputs) \<noteq> None"
    "\<exists>(i, en)\<in>set (engineSubs (run_sample steady_inputs)). \<not> sent en"
    "flushRetry (run_sample steady_inputs) = None" "\<not> posting (run_sample steady_inputs)" by code_simp+
  with nothing_left_unasked [OF running_sample] steady_sample show ?thesis by blast
qed

section \<open>A late answer\<close>

text \<open>
  The other runs can be stuck: an answer that comes after the lead was given up and taken again is
  dropped without asking for a flush. Whatever the new leadership had to ask while the old POST
  held its flushes back is then left with no flush queued, no retry set and no POST under way.
\<close>

lemma late_answer_forgets:
  assumes "late_answer i s" and "\<not> flushQueued s" and "flushRetry s = None" and "length (inflight s) \<le> 1"
  shows "engineSubs (react i s) = engineSubs s \<and> removes (react i s) = removes s \<and> connection (react i s) = connection s \<and>
    elect (react i s) = elect s \<and> \<not> flushQueued (react i s) \<and> flushRetry (react i s) = None \<and>
    \<not> posting (react i s) \<and> inflight (react i s) = []"
proof (cases i)
  case (PostDone n answer)
  with assms(1,4) have n: "n = 0" by (auto simp: late_answer_def)
  with assms(1) PostDone have "leading (inflight s ! 0) \<noteq> generation s" "0 < length (inflight s)"
    by (auto simp: late_answer_def)
  with n assms(2-4) PostDone show ?thesis by (simp add: post_done_def Let_def)
qed (use assms(1) in \<open>simp_all add: late_answer_def\<close>)

text \<open>A run that gets there.\<close>

definition stuck_inputs :: "channel_input list" where
  "stuck_inputs = [Subscribe (js ''jobs'') (JObj []) None, TabLockHeld, LockGranted 0, SourceHello 0 (js ''c'') sample_facts,
     FlushTask, Freeze, Shown True, TabLockHeld, LockGranted 1, SourceHello 1 (js ''d'') sample_facts, FlushTask,
     PostDone 0 (PostAnswered [js ''t.1''] [])]"

lemma stuck_after_late_answer:
  "\<exists>s. running s \<and> isLeader s \<and> connection s \<noteq> None \<and> (\<exists>(i, en)\<in>set (engineSubs s). \<not> sent en) \<and>
     \<not> flushQueued s \<and> flushRetry s = None \<and> \<not> posting s \<and> inflight s = []"
proof -
  have "isLeader (run_sample stuck_inputs)" "connection (run_sample stuck_inputs) \<noteq> None"
    "\<exists>(i, en)\<in>set (engineSubs (run_sample stuck_inputs)). \<not> sent en" "\<not> flushQueued (run_sample stuck_inputs)"
    "flushRetry (run_sample stuck_inputs) = None" "\<not> posting (run_sample stuck_inputs)"
    "inflight (run_sample stuck_inputs) = []" by code_simp+
  then show ?thesis using running_sample by blast
qed

end
