(* ===== verification/Live_Delivery.thy ===== *)
theory Live_Delivery
  imports Live_Posts
begin

text \<open>
  Where the engine's events go, and what is left of cursors when the engine restarts. The lemmas
  follow the deliveries in the output log, and the cursors through every offer.
\<close>

section \<open>Deliveries\<close>

text \<open>The calls of the log that deliver an event: to a listener of this tab, or to the other tabs.\<close>

fun is_delivery :: "channel_call \<Rightarrow> bool" where
  "is_delivery (OnEvent i name data cursor) = True"
| "is_delivery (Send (RelayEv kind raw is)) = True"
| "is_delivery _ = False"

definition deliveries :: "chan \<Rightarrow> channel_call list" where
  "deliveries s = filter is_delivery (out s)"

lemma deliveries_emit: "deliveries (emit c s) = deliveries s @ (if is_delivery c then [c] else [])"
  by (simp add: deliveries_def emit_def)

lemma deliveries_upd [simp]: "deliveries (upd_local i f s) = deliveries s" "deliveries (upd_engine e g s) = deliveries s"
  by (simp_all add: deliveries_def upd_local_def upd_engine_def)

lemma deliveries_setLocalState [simp]: "deliveries (setLocalState i st s) = deliveries s"
  by (simp add: setLocalState_def deliveries_emit split: option.split)

lemma deliveries_activate [simp]: "deliveries (activate i s) = deliveries s"
  by (simp add: activate_def Let_def deliveries_emit split: option.split)

definition the_event :: "jstring \<Rightarrow> json \<Rightarrow> channel_call" where
  "the_event i m = OnEvent i (json_get m (js ''name'')) (json_get m (js ''data'')) (as_string (json_get m (js ''cursor'')))"

lemma deliveries_deliver_ev:
  "deliveries (deliver_ev i m s) =
     deliveries s @ (if json_get m (js ''name'') = JStr (js ''tick'') then [] else [the_event i m])"
  by (simp add: deliver_ev_def Let_def deliveries_emit the_event_def)

lemma deliveries_deliver_all:
  "deliveries (fold (\<lambda>i. deliverLocal i Ev m) is s) =
     deliveries s @ (if json_get m (js ''name'') = JStr (js ''tick'') then [] else map (\<lambda>i. the_event i m) is)"
  by (induction "is" arbitrary: s) (simp_all add: deliveries_deliver_ev)

lemma deliveries_deliverRaw:
  assumes "parse_json raw = Some m" and "m \<noteq> JNull"
  shows "deliveries (deliverRaw is Ev raw s) = deliveries s @
    (if json_get m (js ''name'') = JStr (js ''tick'') then []
     else map (\<lambda>i. the_event i m) (filter (\<lambda>i. map_of (locals s) i \<noteq> None) is))"
proof (cases "filter (\<lambda>i. map_of (locals s) i \<noteq> None) is")
  case Nil
  then show ?thesis by (simp add: deliverRaw_def)
next
  case (Cons i rest)
  have "deliverRaw is Ev raw s = fold (\<lambda>i. deliverLocal i Ev m) (i # rest) s"
    unfolding deliverRaw_def Cons assms(1) using assms(2) by (cases m) simp_all
  then show ?thesis unfolding Cons by (simp only: deliveries_deliver_all)
qed

lemma deliveries_route:
  assumes "parse_json raw = Some m" and "m \<noteq> JNull" and "shared (elect s)" and "\<not> el_closed (elect s)"
  shows "deliveries (route subs Ev raw s) = deliveries s @
    (case map t_id (filter (\<lambda>u. t_tab u \<noteq> tab s) subs) of [] \<Rightarrow> [] | i # is \<Rightarrow> [Send (RelayEv Ev raw (i # is))]) @
    (if json_get m (js ''name'') = JStr (js ''tick'') then []
     else map (\<lambda>i. the_event i m) (filter (\<lambda>i. map_of (locals s) i \<noteq> None) (map t_id (filter (\<lambda>u. t_tab u = tab s) subs))))"
proof -
  let ?mine = "map t_id (filter (\<lambda>u. t_tab u = tab s) subs)" and ?theirs = "map t_id (filter (\<lambda>u. t_tab u \<noteq> tab s) subs)"
  let ?s = "if ?theirs \<noteq> [] then election_send (RelayEv Ev raw ?theirs) s else s"
  have s: "deliveries ?s = deliveries s @ (case ?theirs of [] \<Rightarrow> [] | i # is \<Rightarrow> [Send (RelayEv Ev raw (i # is))])"
    using assms(3,4) by (cases ?theirs) (simp_all add: election_send_def deliveries_emit)
  have l: "locals ?s = locals s" by (simp add: election_send_def emit_def)
  have "deliveries (route subs Ev raw s) = deliveries (deliverRaw ?mine Ev raw ?s)"
    unfolding route_def Let_def by (simp add: deliverRaw_def)
  then show ?thesis by (simp only: deliveries_deliverRaw [OF assms(1,2)] s l append_assoc)
qed

text \<open>A subscription of this tab among those the leader holds.\<close>

definition own_sub :: "chan \<Rightarrow> jstring \<Rightarrow> bool" where
  "own_sub s i \<longleftrightarrow> (case map_of (tabSubs s) i of Some u \<Rightarrow> t_tab u = tab s | None \<Rightarrow> False)"

lemma members_of_tabs:
  assumes "\<And>u. u \<in> set us \<Longrightarrow> map_of (tabSubs s) (t_id u) = Some u"
  shows "map t_id (filter (\<lambda>u. t_tab u = tab s) us) = filter (own_sub s) (map t_id us)"
    and "map t_id (filter (\<lambda>u. t_tab u \<noteq> tab s) us) = filter (\<lambda>i. \<not> own_sub s i) (map t_id us)"
  using assms by (induction us) (simp_all add: own_sub_def)

lemma map_filter_values:
  assumes "\<And>i u. T i = Some u \<Longrightarrow> t_id u = i" and "u \<in> set (List.map_filter T is)"
  shows "T (t_id u) = Some u"
  using assms by (force simp: List.map_filter_def)

section \<open>Cursors\<close>

text \<open>No cursor anywhere: in the tab's subscriptions, the tabs' offers, or the engine's.\<close>

definition no_cursors :: "chan \<Rightarrow> bool" where
  "no_cursors s \<longleftrightarrow> (\<forall>(i, l)\<in>set (locals s). l_cursor l = None) \<and> (\<forall>(i, u)\<in>set (tabSubs s). after u = None) \<and>
     (\<forall>(i, en)\<in>set (engineSubs s). e_cursor en = None \<and> last_raw en = [])"

lemma no_cursors_cong:
  "locals s' = locals s \<Longrightarrow> tabSubs s' = tabSubs s \<Longrightarrow> engineSubs s' = engineSubs s \<Longrightarrow> no_cursors s' = no_cursors s"
  by (simp add: no_cursors_def)

lemma no_cursors_upd_local:
  assumes "no_cursors s" and "\<And>l. l_cursor (f l) = l_cursor l"
  shows "no_cursors (upd_local i f s)"
  using assms unfolding no_cursors_def upd_local_def by (auto dest!: map_entry_values)

lemma no_cursors_emit [simp]: "no_cursors (emit c s) = no_cursors s"
  by (rule no_cursors_cong) (simp_all add: emit_def)

lemma no_cursors_send [simp]: "no_cursors (election_send m s) = no_cursors s"
  by (simp add: election_send_def)

lemma no_cursors_setLocalState: "no_cursors s \<Longrightarrow> no_cursors (setLocalState i st s)"
  by (auto simp: setLocalState_def intro!: no_cursors_upd_local split: option.split)

lemma no_cursors_activate: "no_cursors s \<Longrightarrow> no_cursors (activate i s)"
  by (auto simp: activate_def Let_def intro!: no_cursors_upd_local no_cursors_setLocalState split: option.split)

lemma no_cursors_fold: "(\<And>x s. no_cursors s \<Longrightarrow> no_cursors (f x s)) \<Longrightarrow> no_cursors s \<Longrightarrow> no_cursors (fold f xs s)"
  by (induction xs arbitrary: s) auto

lemma no_cursors_announceAccepted: "no_cursors s \<Longrightarrow> no_cursors (announceAccepted us s)"
proof -
  have "no_cursors (acceptLocal is s)" if "no_cursors s" for s "is"
    unfolding acceptLocal_def by (rule no_cursors_fold [OF _ that]) (auto intro: no_cursors_activate split: option.split)
  then show "no_cursors s \<Longrightarrow> ?thesis" by (auto simp: announceAccepted_def Let_def intro!: no_cursors_fold)
qed

lemma update_values: "(j, x) \<in> set (AList.update k v xs) \<Longrightarrow> (j, x) \<in> set xs \<or> x = v"
proof (induction xs)
  case (Cons a xs)
  then show ?case by (cases a) (auto split: if_splits)
qed simp

lemma no_cursors_upd_tab: "no_cursors s \<Longrightarrow> (\<And>u. after (f u) = after u) \<Longrightarrow> no_cursors (upd_tab i f s)"
  unfolding no_cursors_def upd_tab_def by (auto dest!: map_entry_values)

lemma no_cursors_upd_engine:
  "no_cursors s \<Longrightarrow> (\<And>en. e_cursor (f en) = e_cursor en \<and> last_raw (f en) = last_raw en) \<Longrightarrow> no_cursors (upd_engine e f s)"
  unfolding no_cursors_def upd_engine_def by (auto dest!: map_entry_values)

lemma no_cursors_join:
  assumes "no_cursors s" and "last_raw en = []"
  shows "no_cursors (join_engine sub en s)"
proof -
  let ?t = "upd_tab (t_id sub) (\<lambda>u. u\<lparr>engine := Some (e_id en)\<rparr>)
    (upd_engine (e_id en) (\<lambda>en. en\<lparr>members := set_add (t_id sub) (members en)\<rparr>) s)"
  have "no_cursors ?t" by (intro no_cursors_upd_tab no_cursors_upd_engine assms(1)) simp_all
  then show ?thesis using assms(2) by (simp add: join_engine_def Let_def no_cursors_announceAccepted)
qed

lemma no_cursors_open:
  assumes "no_cursors s" and "after sub = None"
  shows "no_cursors (open_engine sub key resume s)"
  using assms unfolding no_cursors_def open_engine_def Let_def upd_tab_def scheduleFlush_def
  by (auto dest!: map_entry_values update_values split: if_splits)

lemma no_cursors_leaderAdd:
  assumes "no_cursors s"
  shows "no_cursors (leaderAdd t i topic params None s)"
proof -
  let ?u = "\<lparr>t_tab = t, t_id = i, t_topic = topic, t_params = params, after = None, engine = None\<rparr>"
  let ?s = "s\<lparr>idleTimer := None, tabSubs := AList.update i ?u (tabSubs s)\<rparr>"
  have u: "no_cursors ?s" using assms unfolding no_cursors_def by (auto dest!: update_values)
  have "last_raw en = []" if "map_of (engineSubs s) e = Some en" for e en
    using map_of_SomeD [OF that] assms by (auto simp: no_cursors_def)
  then have "no_cursors (join_engine ?u en ?s)" if "Option.bind (map_of (sharedByKey s) k) (map_of (engineSubs s)) = Some en" for k en
    using that no_cursors_join [OF u] by (auto simp: bind_eq_Some_conv)
  moreover have "no_cursors (s\<lparr>idleTimer := None\<rparr>)" using assms by (simp add: no_cursors_def)
  ultimately show ?thesis using no_cursors_open [OF u]
    by (auto simp: leaderAdd_def Let_def split: option.split if_split)
qed

lemma no_cursors_offerAll: "no_cursors s \<Longrightarrow> no_cursors (offerAll b s)"
proof -
  have "no_cursors (offer i s)" if "no_cursors s" for i s
  proof (cases "map_of (locals s) i")
    case (Some l)
    then have "l_cursor l = None" using that map_of_SomeD [OF Some] by (auto simp: no_cursors_def)
    with Some that show ?thesis by (simp add: offer_def no_cursors_leaderAdd)
  qed (simp add: offer_def that)
  then have "no_cursors (offer_next b i s)" if "no_cursors s" for i s
    using that by (auto simp: offer_next_def no_cursors_setLocalState split: option.split)
  then show "no_cursors s \<Longrightarrow> ?thesis" unfolding offerAll_def by (intro no_cursors_fold)
qed

lemma seeInstance_restart:
  assumes "engineInstance s = Some i" and "hello_instance facts \<noteq> i" and "seeInstance facts s = (seen, s')"
  shows "seen \<noteq> Same" "\<forall>(j, l)\<in>set (locals s'). l_cursor l = None" "engineInstance s' = Some (hello_instance facts)"
proof -
  have e: "locals (fold (\<lambda>c. emit (RestartCallback c)) cs t) = locals t"
    "engineInstance (fold (\<lambda>c. emit (RestartCallback c)) cs t) = engineInstance t" for cs t
    by (induction cs arbitrary: t) (simp_all add: emit_def)
  show "seen \<noteq> Same" "\<forall>(j, l)\<in>set (locals s'). l_cursor l = None" "engineInstance s' = Some (hello_instance facts)"
    using assms by (auto simp: seeInstance_def Let_def e emit_def split: if_splits)
qed

lemma locals_keep: "locals (scheduleFlush s) = locals s" "locals (election_send m s) = locals s"
  "locals (setChannelStatus st s) = locals s"
  by (simp_all add: scheduleFlush_def election_send_def setChannelStatus_def report_def emit_def Let_def)

lemma event_deliveries:
  assumes "running s" and "readHead raw = Some h" and "map_of (engineSubs s) (h_sub h) = Some en"
    and "parse_json raw = Some m" and "m \<noteq> JNull" and "shared (elect s)" and "\<not> el_closed (elect s)"
  shows "distinct (members en)"
    and "set (members en) = {i. \<exists>u. (i, u) \<in> set (tabSubs s) \<and> engine u = Some (h_sub h)}"
    and "deliveries (onEngineMessage Ev raw s) = deliveries s @
      (let theirs = filter (\<lambda>i. \<not> own_sub s i) (members en) in if theirs = [] then [] else [Send (RelayEv Ev raw theirs)]) @
      (if json_get m (js ''name'') = JStr (js ''tick'') then []
       else map (\<lambda>i. the_event i m) (filter (\<lambda>i. map_of (locals s) i \<noteq> None) (filter (own_sub s) (members en))))"
proof -
  note ok = books_ok_running [OF assms(1)]
  note inv = books_okD(1) [OF ok]
  let ?us = "members_of en s"
  have ids: "map t_id ?us = members en" unfolding members_of_def by (rule members_of_ids [OF inv assms(3)])
  have us: "map_of (tabSubs s) (t_id u) = Some u" if "u \<in> set ?us" for u
    using that books_invD(1) [OF inv] unfolding members_of_def by (intro map_filter_values) (auto simp: tab_entry_def)
  show "distinct (members en)" using books_invD(2) [OF inv assms(3)] by (simp add: engine_entry_def)
  show "set (members en) = {i. \<exists>u. (i, u) \<in> set (tabSubs s) \<and> engine u = Some (h_sub h)}"
    using member_engine [OF inv assms(3)] books_invD(1) [OF inv] assms(3) books_okD(2) [OF ok]
    by (force simp: tab_entry_def)
  let ?s = "upd_engine (h_sub h) (note_event h raw) s"
  have s: "members_of en ?s = ?us" "elect ?s = elect s" "tab ?s = tab s" "locals ?s = locals s"
    by (simp_all add: members_of_def upd_engine_def)
  have "onEngineMessage Ev raw s = route ?us Ev raw ?s" by (simp add: onEngineMessage_def assms(2,3) Let_def s)
  then show "deliveries (onEngineMessage Ev raw s) = deliveries s @
      (let theirs = filter (\<lambda>i. \<not> own_sub s i) (members en) in if theirs = [] then [] else [Send (RelayEv Ev raw theirs)]) @
      (if json_get m (js ''name'') = JStr (js ''tick'') then []
       else map (\<lambda>i. the_event i m) (filter (\<lambda>i. map_of (locals s) i \<noteq> None) (filter (own_sub s) (members en))))"
    using deliveries_route [OF assms(4,5), of ?s ?us] assms(6,7) members_of_tabs [of ?us s, OF us]
    by (simp add: s ids Let_def split: list.split)
qed

section \<open>Properties\<close>

text \<open>
  C36. An event reaches exactly the subscriptions that ride on its engine subscription, each once:
  those of other tabs together in one message of the relay, those of this tab by one call of
  each listener that is still subscribed, and no listener is called for a \<open>tick\<close>.
\<close>

theorem event_routed:
  assumes "running s" and "readHead raw = Some h" and "map_of (engineSubs s) (h_sub h) = Some en"
    and "parse_json raw = Some m" and "m \<noteq> JNull" and "shared (elect s)" and "\<not> el_closed (elect s)"
  shows "\<exists>ids. distinct ids \<and> set ids = {i. \<exists>u. (i, u) \<in> set (tabSubs s) \<and> engine u = Some (h_sub h)} \<and>
    deliveries (onEngineMessage Ev raw s) = deliveries s @
      (let theirs = filter (\<lambda>i. \<not> own_sub s i) ids in if theirs = [] then [] else [Send (RelayEv Ev raw theirs)]) @
      (if json_get m (js ''name'') = JStr (js ''tick'') then []
       else map (\<lambda>i. OnEvent i (json_get m (js ''name'')) (json_get m (js ''data'')) (as_string (json_get m (js ''cursor''))))
         (filter (\<lambda>i. map_of (locals s) i \<noteq> None) (filter (own_sub s) ids)))"
  using event_deliveries [OF assms] unfolding the_event_def by blast

text \<open>The sample's shared subscription, which the engine now writes an event for.\<close>

abbreviation sample_event :: jstring where
  "sample_event \<equiv> js ''{\"sub\":\"t.2\",\"name\":\"status\",\"cursor\":\"7\",\"data\":\"x\"}''"

theorem event_routed_witness:
  "\<exists>ids. distinct ids \<and>
     set ids = {i. \<exists>u. (i, u) \<in> set (tabSubs (run_sample sample_inputs)) \<and> engine u = Some (js ''t.2'')} \<and>
     deliveries (onEngineMessage Ev sample_event (run_sample sample_inputs)) = deliveries (run_sample sample_inputs) @
       (let theirs = filter (\<lambda>i. \<not> own_sub (run_sample sample_inputs) i) ids
        in if theirs = [] then [] else [Send (RelayEv Ev sample_event theirs)]) @
       map (\<lambda>i. OnEvent i (JStr (js ''status'')) (JStr (js ''x'')) (Some (js ''7'')))
         (filter (\<lambda>i. map_of (locals (run_sample sample_inputs)) i \<noteq> None) (filter (own_sub (run_sample sample_inputs)) ids))"
proof -
  let ?s = "run_sample sample_inputs" and ?h = "\<lparr>h_sub = js ''t.2'', h_name = Some (js ''status''), h_cursor = Some (js ''7'')\<rparr>"
  let ?m = "JObj [(js ''sub'', JStr (js ''t.2'')), (js ''name'', JStr (js ''status'')), (js ''cursor'', JStr (js ''7'')),
    (js ''data'', JStr (js ''x''))]"
  have "map_of (engineSubs ?s) (js ''t.2'') \<noteq> None" by code_simp
  then obtain en where en: "map_of (engineSubs ?s) (h_sub ?h) = Some en" by auto
  have h: "readHead sample_event = Some ?h" and m: "parse_json sample_event = Some ?m"
    and e: "shared (elect ?s)" "\<not> el_closed (elect ?s)" by code_simp+
  show ?thesis using event_routed [OF running_sample h en m _ e] by simp
qed

text \<open>
  C37. A new engine run starts from nothing: after a \<open>hello\<close> of another instance no cursor of the old
  run is left, not in the tab's subscriptions, nor in what tabs offered, nor in the engine
  subscriptions, whose last events are forgotten too; every one of them is to be asked for again
  and none to be dropped, and the POST that asks sends no cursor.
\<close>

theorem restart_forgets:
  assumes "engineInstance s = Some i" and "hello_instance facts \<noteq> i" and "s' = onHello conn facts s"
  shows "(\<forall>(j, l)\<in>set (locals s'). l_cursor l = None) \<and> (\<forall>(j, u)\<in>set (tabSubs s'). after u = None) \<and>
    (\<forall>(e, en)\<in>set (engineSubs s'). e_cursor en = None \<and> last_raw en = [] \<and> \<not> sent en \<and> \<not> accepted en) \<and>
    removes s' = [] \<and> flushQueued s' \<and>
    (isLeader s' \<and> \<not> posting s' \<and> engineSubs s' \<noteq> [] \<longrightarrow>
      out (flush s') = out s' @ [Post conn (map (\<lambda>(e, en). (e_id en, e_topic en, e_params en, None)) (engineSubs s')) []])"
proof -
  let ?s1 = "s\<lparr>connectTimer := None, offlineTimer := None, attempt := 0, dropping := False, heardHello := True,
            connection := Some conn, lastHello := Some facts\<rparr>"
  obtain seen s2 where s2: "seeInstance facts ?s1 = (seen, s2)" by (meson surj_pair)
  have see: "seen \<noteq> Same" "\<forall>(j, l)\<in>set (locals s2). l_cursor l = None"
    using seeInstance_restart [OF _ assms(2) s2] assms(1) by auto
  let ?c = "s2\<lparr>tabSubs := map (\<lambda>(i, u). (i, u\<lparr>after := None\<rparr>)) (tabSubs s2),
    engineSubs := map (\<lambda>(i, en). (i, en\<lparr>e_cursor := None, last_raw := []\<rparr>)) (engineSubs s2)\<rparr>"
  have "no_cursors ?c" using see(2) by (auto simp: no_cursors_def)
  then have "no_cursors (offerAll True ?c)" (is "no_cursors ?o") by (rule no_cursors_offerAll)
  let ?t = "?o\<lparr>removes := [], engineSubs := map (\<lambda>(i, en). (i, en\<lparr>sent := False, accepted := False\<rparr>)) (engineSubs ?o)\<rparr>"
  have s': "s' = scheduleFlush (election_send (RelayHello (tab s) facts) (setChannelStatus Live ?t))"
    using see(1) by (simp add: assms(3) onHello_def s2 Let_def)
  have b: "books s' = books ?t" and q: "flushQueued s'" unfolding s' by (simp_all add: scheduleFlush_def)
  have l: "locals s' = locals ?o" by (simp add: s' locals_keep)
  have t: "tabSubs s' = tabSubs ?o" "engineSubs s' = map (\<lambda>(i, en). (i, en\<lparr>sent := False, accepted := False\<rparr>)) (engineSubs ?o)"
    "removes s' = []" using b by (simp_all add: books_def)
  have c: "connection s' = Some conn"
  proof -
    have "connection s2 = Some conn" using quiet_fields(15) [OF quiet_seeInstance [OF s2]] by simp
    then have "connection ?o = Some conn" using only_flush_fields(10) [OF only_flush_offers(3) [of ?c True]] by simp
    then show ?thesis unfolding s' using posts_fields(5) [OF setChannelStatus_groups(2) [of Live ?t]]
      by (simp add: scheduleFlush_def election_send_def emit_def)
  qed
  have n: "\<forall>(j, l)\<in>set (locals s'). l_cursor l = None" "\<forall>(j, u)\<in>set (tabSubs s'). after u = None"
    "\<forall>(e, en)\<in>set (engineSubs s'). e_cursor en = None \<and> last_raw en = [] \<and> \<not> sent en \<and> \<not> accepted en"
    using \<open>no_cursors ?o\<close> unfolding no_cursors_def l t by auto
  have f: "filter (\<lambda>en. \<not> sent en) (map snd (engineSubs s')) = map snd (engineSubs s')"
    using n(3) by (intro filter_True) auto
  have "map (\<lambda>en. (e_id en, e_topic en, e_params en, e_cursor en)) (map snd (engineSubs s')) =
      map (\<lambda>(e, en). (e_id en, e_topic en, e_params en, None)) (engineSubs s')"
    using n(3) by auto
  then have "isLeader s' \<and> \<not> posting s' \<and> engineSubs s' \<noteq> [] \<longrightarrow>
      out (flush s') = out s' @ [Post conn (map (\<lambda>(e, en). (e_id en, e_topic en, e_params en, None)) (engineSubs s')) []]"
    unfolding flush_def c by (simp add: f t(3) emit_def Let_def)
  with n q t(3) show ?thesis by blast
qed

definition restarted :: chan where
  "restarted = onHello (js ''d'') (sample_facts\<lparr>hello_instance := js ''j''\<rparr>) (run_sample steady_inputs)"

theorem restart_forgets_witness:
  "engineSubs restarted \<noteq> [] \<and> removes restarted = [] \<and> flushQueued restarted \<and>
   out (flush restarted) = out restarted @
     [Post (js ''d'') (map (\<lambda>(e, en). (e_id en, e_topic en, e_params en, None)) (engineSubs restarted)) []]"
proof -
  have i: "engineInstance (run_sample steady_inputs) = Some (js ''i'')"
    "hello_instance (sample_facts\<lparr>hello_instance := js ''j''\<rparr>) \<noteq> js ''i''" by code_simp+
  have "isLeader restarted" "\<not> posting restarted" "engineSubs restarted \<noteq> []" by code_simp+
  with restart_forgets [OF i restarted_def] show ?thesis by blast
qed

end
