(* ===== verification/Live_Fleet.thy ===== *)
theory Live_Fleet
  imports Live_Delivery
begin

text \<open>
  The tabs of one browser with their channels (\<open>lib/live/channel.ts\<close> over \<open>lib/live/leader.ts\<close>): the
  channels react to their inputs in any order, and what they ask of the lock manager, as their
  output logs have it, is what the lock manager does. The proof that a channel's reactions are
  moves of the election lets the election's invariant speak of the channels.
\<close>

section \<open>What a channel asks of the lock manager\<close>

fun lock_call_of :: "channel_call \<Rightarrow> lock_call option" where
  "lock_call_of (Lock l) = Some l"
| "lock_call_of _ = None"

definition lock_log :: "chan \<Rightarrow> lock_call list" where
  "lock_log s = List.map_filter lock_call_of (out s)"

definition asked_locks :: "chan \<Rightarrow> chan \<Rightarrow> lock_call list" where
  "asked_locks s s' = drop (length (lock_log s)) (lock_log s')"

type_synonym lock_view = "election \<times> nat \<times> lock_call list"

definition lock_view :: "chan \<Rightarrow> lock_view" where
  "lock_view s = (elect s, requests s, lock_log s)"

text \<open>The channel's functions that leave the election and its log alone.\<close>

lemma lock_log_append: "List.map_filter f (xs @ ys) = List.map_filter f xs @ List.map_filter f ys"
  by (simp add: List.map_filter_def)

lemma lock_view_update [simp]:
  "lock_view (s\<lparr>st_since := x1\<rparr>) = lock_view s" "lock_view (s\<lparr>now := x2\<rparr>) = lock_view s"
  "lock_view (s\<lparr>visible := x3\<rparr>) = lock_view s" "lock_view (s\<lparr>st_instance := x4\<rparr>) = lock_view s"
  "lock_view (s\<lparr>st_engineUpdated := x5\<rparr>) = lock_view s" "lock_view (s\<lparr>restartCallbacks := x6\<rparr>) = lock_view s"
  "lock_view (s\<lparr>locals := x7\<rparr>) = lock_view s" "lock_view (s\<lparr>localSerial := x8\<rparr>) = lock_view s"
  "lock_view (s\<lparr>wanted := x9\<rparr>) = lock_view s" "lock_view (s\<lparr>readying := x10\<rparr>) = lock_view s"
  "lock_view (s\<lparr>releaseTimer := x11\<rparr>) = lock_view s" "lock_view (s\<lparr>pageBuild := x12\<rparr>) = lock_view s"
  "lock_view (s\<lparr>engineInstance := x13\<rparr>) = lock_view s" "lock_view (s\<lparr>opened := x14\<rparr>) = lock_view s"
  "lock_view (s\<lparr>lastHello := x15\<rparr>) = lock_view s" "lock_view (s\<lparr>heardHello := x16\<rparr>) = lock_view s"
  "lock_view (s\<lparr>dropping := x17\<rparr>) = lock_view s" "lock_view (s\<lparr>attempt := x18\<rparr>) = lock_view s"
  "lock_view (s\<lparr>connectTimer := x19\<rparr>) = lock_view s" "lock_view (s\<lparr>retryTimer := x20\<rparr>) = lock_view s"
  "lock_view (s\<lparr>offlineTimer := x21\<rparr>) = lock_view s" "lock_view (s\<lparr>idleTimer := x22\<rparr>) = lock_view s"
  "lock_view (s\<lparr>probes := x23\<rparr>) = lock_view s" "lock_view (s\<lparr>tabSubs := x24\<rparr>) = lock_view s"
  "lock_view (s\<lparr>engineSubs := x25\<rparr>) = lock_view s" "lock_view (s\<lparr>sharedByKey := x26\<rparr>) = lock_view s"
  "lock_view (s\<lparr>removes := x27\<rparr>) = lock_view s" "lock_view (s\<lparr>engineSerial := x28\<rparr>) = lock_view s"
  "lock_view (s\<lparr>posting := x29\<rparr>) = lock_view s" "lock_view (s\<lparr>inflight := x30\<rparr>) = lock_view s"
  "lock_view (s\<lparr>flushQueued := x31\<rparr>) = lock_view s" "lock_view (s\<lparr>flushRetry := x32\<rparr>) = lock_view s"
  "lock_view (s\<lparr>connection := x33\<rparr>) = lock_view s" "lock_view (s\<lparr>generation := x34\<rparr>) = lock_view s"
  "lock_view (s\<lparr>source := x35\<rparr>) = lock_view s" "lock_view (s\<lparr>engaged := x36\<rparr>) = lock_view s"
  "lock_view (s\<lparr>closed := x37\<rparr>) = lock_view s" "lock_view (s\<lparr>channelStatus := x38\<rparr>) = lock_view s"
  "lock_view (s\<lparr>st_status := x39\<rparr>) = lock_view s" "lock_view (s\<lparr>st_leader := x40\<rparr>) = lock_view s"
  by (simp_all add: lock_view_def lock_log_def)

lemma lock_view_emit [simp]: "lock_call_of c = None \<Longrightarrow> lock_view (emit c s) = lock_view s"
  by (simp add: lock_view_def lock_log_def emit_def lock_log_append List.map_filter_def)

lemma lock_view_fold: "(\<And>x s. lock_view (f x s) = lock_view s) \<Longrightarrow> lock_view (fold f xs s) = lock_view s"
  by (induction xs arbitrary: s) simp_all

lemma lock_view_small [simp]:
  "lock_view (upd_local i f s) = lock_view s" "lock_view (election_send m s) = lock_view s"
  "lock_view (report s) = lock_view s" "lock_view (idleCheck s) = lock_view s"
  "lock_view (scheduleFlush s) = lock_view s" "lock_view (upd_engine e g s) = lock_view s"
  "lock_view (upd_tab i h s) = lock_view s" "lock_view (watchConnecting n s) = lock_view s"
  "lock_view (engage s) = lock_view s"
  by (simp_all add: upd_local_def election_send_def report_def idleCheck_def scheduleFlush_def upd_engine_def
      upd_tab_def watchConnecting_def engage_def Let_def)

lemma lock_view_local [simp]:
  "lock_view (setLocalState i st s) = lock_view s" "lock_view (activate i s) = lock_view s"
  "lock_view (scheduleResubscribe i s) = lock_view s"
proof -
  show set: "lock_view (setLocalState i st s) = lock_view s" for i st s
    by (simp add: setLocalState_def split: option.split)
  show "lock_view (activate i s) = lock_view s"
    by (simp add: activate_def set Let_def split: option.split)
qed (simp add: scheduleResubscribe_def)

lemma lock_view_deliver [simp]:
  "lock_view (deliverLocal i k m s) = lock_view s" "lock_view (deliverRaw is k raw s) = lock_view s"
  "lock_view (refuseLocal is error s) = lock_view s" "lock_view (acceptLocal is s) = lock_view s"
proof -
  show one: "lock_view (deliverLocal i k m s) = lock_view s" for i k m s
    by (cases k) (simp_all add: deliver_ev_def deliver_end_def Let_def)
  show "lock_view (deliverRaw is k raw s) = lock_view s"
    unfolding deliverRaw_def
    by (auto simp del: fold.simps deliverLocal.simps intro!: lock_view_fold one split: list.split option.split json.split)
  show "lock_view (refuseLocal is error s) = lock_view s"
    unfolding refuseLocal_def by (rule lock_view_fold) simp
  show "lock_view (acceptLocal is s) = lock_view s"
    unfolding acceptLocal_def by (rule lock_view_fold) (simp split: option.split)
qed

lemma lock_view_leader [simp]:
  "lock_view (setChannelStatus st s) = lock_view s" "lock_view (announce s) = lock_view s"
  "lock_view (route subs k raw s) = lock_view s" "lock_view (announceAccepted subs s) = lock_view s"
  "lock_view (dropEngine en tell s) = lock_view s"
  by (simp_all add: setChannelStatus_def announce_def route_def announceAccepted_def dropEngine_def Let_def
      lock_view_fold split: option.split list.split)

lemma lock_view_books [simp]:
  "lock_view (join_engine sub en s) = lock_view s" "lock_view (open_engine sub key kind s) = lock_view s"
  "lock_view (leaderAdd t i topic params c s) = lock_view s" "lock_view (leaderRemove i s) = lock_view s"
  "lock_view (onTabGone t s) = lock_view s"
proof -
  show join: "lock_view (join_engine sub en s) = lock_view s" for sub en s
    by (simp add: join_engine_def Let_def lock_view_fold)
  show opens: "lock_view (open_engine sub key kind s) = lock_view s" for sub key kind s
    by (simp add: open_engine_def Let_def)
  show "lock_view (leaderAdd t i topic params c s) = lock_view s"
    by (simp add: leaderAdd_def Let_def join opens split: option.split)
  show remove: "lock_view (leaderRemove i s) = lock_view s" for i s
    by (simp add: leaderRemove_def Let_def split: option.split)
  show "lock_view (onTabGone t s) = lock_view s"
    unfolding onTabGone_def by (rule lock_view_fold) (rule remove)
qed

lemma lock_view_refuse_members [simp]: "lock_view (fst (refuse_members error is (s, theirs))) = lock_view s"
  by (induction "is" arbitrary: s theirs) (simp_all add: Let_def split: option.split)

lemma lock_view_engine [simp]:
  "lock_view (refuseEngine en error s) = lock_view s" "lock_view (onEngineMessage kind raw s) = lock_view s"
proof -
  show "lock_view (refuseEngine en error s) = lock_view s"
    by (simp add: refuseEngine_def case_prod_beta)
  show "lock_view (onEngineMessage kind raw s) = lock_view s"
    by (simp add: onEngineMessage_def Let_def lock_view_fold split: option.split)
qed

lemma lock_view_posts [simp]:
  "lock_view (flush s) = lock_view s" "lock_view (take_accepted i s) = lock_view s"
  "lock_view (take_refused error i s) = lock_view s" "lock_view (take_answer p answer s) = lock_view s"
  "lock_view (post_done n answer s) = lock_view s"
proof -
  show "lock_view (flush s) = lock_view s" by (simp add: flush_def Let_def split: option.split)
  show accepted: "lock_view (take_accepted i s) = lock_view s" for i s
    by (simp add: take_accepted_def Let_def split: option.split)
  show refused: "lock_view (take_refused error i s) = lock_view s" for error i s
    by (simp add: take_refused_def split: option.split)
  show answer: "lock_view (take_answer p answer s) = lock_view s" for p answer s
    by (cases answer) (simp_all add: lock_view_fold accepted refused case_prod_beta)
  show "lock_view (post_done n answer s) = lock_view s" by (simp add: post_done_def Let_def answer)
qed

lemma lock_view_source [simp]:
  "lock_view (closeSource s) = lock_view s" "lock_view (connect s) = lock_view s" "lock_view (beginDrop s) = lock_view s"
  "lock_view (scheduleRetry s) = lock_view s" "lock_view (onStopping s) = lock_view s"
  "lock_view (onError n gone s) = lock_view s" "lock_view (probe_answered g a s) = lock_view s"
  "lock_view (probe_settled g s) = lock_view s" "lock_view (connect_fires s) = lock_view s"
  "lock_view (offline_fires s) = lock_view s" "lock_view (flush_task s) = lock_view s"
proof -
  show c: "lock_view (closeSource s) = lock_view s" for s by (simp add: closeSource_def Let_def split: option.split)
  show "lock_view (connect s) = lock_view s" by (simp add: connect_def Let_def c)
  show d: "lock_view (beginDrop s) = lock_view s" for s by (simp add: beginDrop_def Let_def)
  show r: "lock_view (scheduleRetry s) = lock_view s" for s by (simp add: scheduleRetry_def Let_def d)
  show "lock_view (onStopping s) = lock_view s" by (simp add: onStopping_def Let_def c r)
  show "lock_view (onError n gone s) = lock_view s" by (simp add: onError_def Let_def c d r)
  show "lock_view (probe_answered g a s) = lock_view s"
    by (simp add: probe_answered_def Let_def split: option.split)
  show "lock_view (probe_settled g s) = lock_view s" by (simp add: probe_settled_def Let_def r)
  show "lock_view (connect_fires s) = lock_view s"
    by (simp add: connect_fires_def Let_def c r split: option.split)
qed (simp_all add: offline_fires_def flush_task_def Let_def)

lemma lock_view_offer [simp]:
  "lock_view (offer i s) = lock_view s" "lock_view (withdrawLocal i s) = lock_view s"
  "lock_view (offer_next b i s) = lock_view s" "lock_view (offerAll b s) = lock_view s"
  "lock_view (onVisibility s) = lock_view s" "lock_view (snd (seeInstance facts s)) = lock_view s"
  "lock_view (retry_all s) = lock_view s" "lock_view (local_retry_fires i s) = lock_view s"
proof -
  show of1: "lock_view (offer i s) = lock_view s" for i s by (simp add: offer_def split: option.split)
  show "lock_view (withdrawLocal i s) = lock_view s" by (simp add: withdrawLocal_def)
  show n: "lock_view (offer_next b i s) = lock_view s" for b i s by (simp add: offer_next_def of1 split: option.split)
  show "lock_view (offerAll b s) = lock_view s" unfolding offerAll_def by (rule lock_view_fold) (rule n)
  show "lock_view (onVisibility s) = lock_view s" by (simp add: onVisibility_def)
  show "lock_view (snd (seeInstance facts s)) = lock_view s"
    by (simp add: seeInstance_def Let_def lock_view_fold split: option.split)
  have "lock_view (retry_next i s) = lock_view s" for i s by (simp add: retry_next_def of1 split: option.split)
  then show "lock_view (retry_all s) = lock_view s" unfolding retry_all_def by (rule lock_view_fold)
  show "lock_view (local_retry_fires i s) = lock_view s"
    by (simp add: local_retry_fires_def Let_def of1 split: option.split)
qed

lemma lock_view_onHello [simp]: "lock_view (onHello conn facts s) = lock_view s"
proof -
  let ?s = "s\<lparr>connectTimer := None, offlineTimer := None, attempt := 0, dropping := False, heardHello := True,
    connection := Some conn, lastHello := Some facts\<rparr>"
  have "lock_view (snd (seeInstance facts ?s)) = lock_view s" by simp
  then show ?thesis by (simp add: onHello_def Let_def case_prod_beta)
qed

section \<open>A reaction is a run of the election's methods\<close>

text \<open>The methods of one tab's election, called one after the other, with the log of their calls.\<close>

inductive acts :: "lock_view \<Rightarrow> lock_view \<Rightarrow> bool" for v where
  rest: "acts v v"
| want: "acts v (e, n, l) \<Longrightarrow> acts v (fst (want n e), n + 1, l @ snd (want n e))"
| withdraw: "acts v (e, n, l) \<Longrightarrow> acts v (fst (withdraw e), n, l @ snd (withdraw e))"
| watch: "acts v (e, n, l) \<Longrightarrow> acts v (fst (watch other e), n, l @ snd (watch other e))"
| freed: "acts v (e, n, l) \<Longrightarrow> acts v (fst (tab_free other k e), n, l @ snd (tab_free other k e))"
| close: "acts v (e, n, l) \<Longrightarrow> acts v (fst (close_election e), n, l @ snd (close_election e))"
| alone: "acts v (e, n, l) \<Longrightarrow> \<not> shared e \<Longrightarrow> acts v (fst (lead_alone e), n, l @ snd (lead_alone e))"

lemma lock_view_call [simp]:
  "lock_view (call_election r s) = (fst r, requests s, lock_log s @ snd r)"
proof -
  have "List.map_filter lock_call_of (map Lock cs) = cs" for cs by (induction cs) (simp_all add: List.map_filter_def)
  then show ?thesis by (simp add: lock_view_def call_election_def lock_log_def lock_log_append)
qed

lemma acts_withdraw: "acts v (lock_view s) \<Longrightarrow> acts v (lock_view (election_withdraw s))"
  using acts.withdraw [of v "elect s" "requests s" "lock_log s"] by (simp add: election_withdraw_def lock_view_def [of s])

lemma acts_want: "acts v (lock_view s) \<Longrightarrow> acts v (lock_view (election_want s))"
  using acts.want [of v "elect s" "requests s" "lock_log s"]
  by (simp add: election_want_def lock_view_def [of s] lock_log_def)

lemma acts_stopLeading: "acts v (lock_view s) \<Longrightarrow> acts v (lock_view (stopLeading s))"
  by (simp add: stopLeading_def Let_def acts_withdraw)

lemma acts_release_tab: "acts v (lock_view s) \<Longrightarrow> acts v (lock_view (release_tab s))"
  unfolding release_tab_def Let_def
  by (auto intro!: acts_withdraw acts_stopLeading simp: lock_view_fold)

lemma acts_engage_ready: "acts v (lock_view s) \<Longrightarrow> acts v (lock_view (engage_ready s))"
  unfolding engage_ready_def Let_def by (auto intro!: acts_want)

lemma acts_onLead: "acts v (lock_view s) \<Longrightarrow> acts v (lock_view (onLead s))"
  unfolding onLead_def by (auto intro!: acts_withdraw)

lemma acts_onMessage: "acts v (lock_view s) \<Longrightarrow> acts v (lock_view (onMessage m s))"
proof (cases m)
  case (RelaySub of_tab i topic params c)
  assume "acts v (lock_view s)"
  then show ?thesis using acts.watch [of v "elect s" "requests s" "lock_log s" of_tab]
    by (simp add: RelaySub lock_view_def [of s])
qed (simp_all add: case_prod_beta Let_def)

lemma acts_subscribe: "acts v (lock_view s) \<Longrightarrow> acts v (lock_view (subscribe_local topic params c s))"
  unfolding subscribe_local_def Let_def by (auto intro!: acts_want split: option.split)

lemma acts_unsubscribe: "acts v (lock_view s) \<Longrightarrow> acts v (lock_view (unsubscribe_local i s))"
  unfolding unsubscribe_local_def Let_def by (auto intro!: acts_withdraw split: option.split)

lemma acts_close: "acts v (lock_view s) \<Longrightarrow> acts v (lock_view (close_channel s))"
proof -
  assume "acts v (lock_view s)"
  from acts_release_tab [OF this] have "acts v (elect (release_tab s), requests (release_tab s), lock_log (release_tab s))"
    by (simp add: lock_view_def)
  from acts.close [OF this] \<open>acts v (lock_view s)\<close> show ?thesis
    by (simp add: close_channel_def Let_def lock_log_def)
qed

lemma acts_tab_freed: "acts v (lock_view s) \<Longrightarrow> acts v (lock_view (tab_freed other k s))"
  using acts.freed [of v "elect s" "requests s" "lock_log s" other k]
  by (auto simp: tab_freed_def Let_def lock_view_def [of s] case_prod_beta)

lemma acts_leads_alone: "acts v (lock_view s) \<Longrightarrow> acts v (lock_view (leads_alone s))"
proof (cases "shared (elect s)")
  case False
  assume "acts v (lock_view s)"
  from acts.alone [OF this [unfolded lock_view_def] False] False show ?thesis
    by (auto simp: leads_alone_def Let_def intro!: acts_onLead)
qed (simp add: leads_alone_def)

lemma acts_idle: "acts v (lock_view s) \<Longrightarrow> acts v (lock_view (idle_fires s))"
  by (simp add: idle_fires_def Let_def acts_stopLeading)

lemma acts_react:
  assumes "\<forall>r. i \<noteq> LockGranted r"
  shows "acts (lock_view s) (lock_view (react i s))"
proof -
  have v: "acts (lock_view s) (lock_view s)" by (rule acts.rest)
  note known = acts_release_tab [OF v] acts_engage_ready [OF v] acts_leads_alone [OF v] acts_tab_freed [OF v]
    acts_onMessage [OF v] acts_subscribe [OF v] acts_unsubscribe [OF v] acts_close [OF v] acts_idle [OF v]
  show ?thesis using assms v known by (cases i) simp_all
qed

section \<open>The election's methods as moves of the browser\<close>

lemma tab_call_tabs: "tabs (tab_call t r b) = (tabs b)(t \<mapsto> fst r)"
  by (simp add: tab_call_def obey_tabs)

lemma tab_call_twice: "tab_call t (e', ds) (tab_call t (e, cs) b) = tab_call t (e', cs @ ds) b"
  by (simp add: tab_call_def obey_append obey_tabs)

lemma obey_requests: "u \<noteq> t \<Longrightarrow> next_request (obey t cs b) u = next_request b u"
  by (induction t cs b rule: obey.induct) auto

lemma tab_call_requests: "u \<noteq> t \<Longrightarrow> next_request (tab_call t r b) u = next_request b u"
  by (simp add: tab_call_def obey_requests)

lemma requests_kept:
  "next_request (tab_call t (withdraw e) b) = next_request b" "next_request (tab_call t (watch other e) b) = next_request b"
  "next_request (tab_call t (tab_free other k e) b) = next_request b"
  "next_request (tab_call t (close_election e) b) = next_request b"
  by (auto simp: tab_call_def withdraw_def watch_def tab_free_def close_election_def stopWatching_def Let_def
      split: option.split)

lemma requests_want: "next_request b t \<le> n \<Longrightarrow> next_request (tab_call t (want n e) b) t \<le> n + 1"
  by (simp add: tab_call_def want_def)

lemma browse_on:
  assumes "browsing (tab_call t (f, cs) b)"
    and "browser_step (tab_call t (f, cs) b) (tab_call t r (tab_call t (f, cs) b))"
    and "next_request (tab_call t r (tab_call t (f, cs) b)) t \<le> m"
  shows "\<exists>e' n' ds. (fst r, m, (l @ cs) @ snd r) = (e', n', l @ ds) \<and> browsing (tab_call t (e', ds) b) \<and>
    next_request (tab_call t (e', ds) b) t \<le> n'"
  using browsing.step [OF assms(1,2)] assms(3) tab_call_twice [of t "fst r" "snd r" f cs b] by auto

lemma acts_browse:
  assumes "acts (e, n, l) v" and "browsing b" and "tabs b t = Some e" and "next_request b t \<le> n"
  shows "\<exists>e' n' cs. v = (e', n', l @ cs) \<and> browsing (tab_call t (e', cs) b) \<and>
    next_request (tab_call t (e', cs) b) t \<le> n'"
  using assms(1)
proof (induction rule: acts.induct)
  case rest
  have "tab_call t (e, []) b = b" using assms(3) by (simp add: tab_call_def map_upd_triv)
  then show ?case using assms by (intro exI [of _ e] exI [of _ n] exI [of _ "[]"]) simp
next
  case (want f m k)
  then obtain cs where b: "k = l @ cs" "browsing (tab_call t (f, cs) b)" "next_request (tab_call t (f, cs) b) t \<le> m" by auto
  show ?case unfolding b(1)
    by (rule browse_on [OF b(2) browser_step.wants]) (simp_all add: tab_call_tabs requests_want [simplified] b(3))
next
  case (withdraw f m k)
  then obtain cs where b: "k = l @ cs" "browsing (tab_call t (f, cs) b)" "next_request (tab_call t (f, cs) b) t \<le> m" by auto
  show ?case unfolding b(1)
    by (rule browse_on [OF b(2) browser_step.withdraws]) (simp_all add: tab_call_tabs requests_kept b(3))
next
  case (watch f m k other)
  then obtain cs where b: "k = l @ cs" "browsing (tab_call t (f, cs) b)" "next_request (tab_call t (f, cs) b) t \<le> m" by auto
  show ?case unfolding b(1)
    by (rule browse_on [OF b(2) browser_step.watching]) (simp_all add: tab_call_tabs requests_kept b(3))
next
  case (freed f m k other j)
  then obtain cs where b: "k = l @ cs" "browsing (tab_call t (f, cs) b)" "next_request (tab_call t (f, cs) b) t \<le> m" by auto
  show ?case unfolding b(1)
    by (rule browse_on [OF b(2) browser_step.tab_freed]) (simp_all add: tab_call_tabs requests_kept b(3))
next
  case (close f m k)
  then obtain cs where b: "k = l @ cs" "browsing (tab_call t (f, cs) b)" "next_request (tab_call t (f, cs) b) t \<le> m" by auto
  show ?case unfolding b(1)
    by (rule browse_on [OF b(2) browser_step.closes]) (simp_all add: tab_call_tabs requests_kept b(3))
next
  case (alone f m k)
  then obtain cs where b: "browsing (tab_call t (f, cs) b)" by auto
  have "shared f" using browser_okD(5) [OF browsing_ok [OF b], of t f] by (simp add: tab_call_tabs tab_ok_def)
  with alone.hyps show ?case by simp
qed

section \<open>The tabs and their channels\<close>

text \<open>
  \<open>both\<close> is whether the browser has Web Locks and \<open>BroadcastChannel\<close>. A channel's reaction is one
  turn of its page; what it asked of the lock manager in that turn is done by \<open>tab_call\<close>. The lock is
  granted to the request at the head of the queue when it is free, and kept when the callback says so.
\<close>

inductive fleet :: "bool \<Rightarrow> browser \<Rightarrow> (jstring \<rightharpoonup> chan) \<Rightarrow> bool" for both where
  start: "fleet both no_tabs Map.empty"
| opens: "fleet both b chans \<Longrightarrow> chans t = None \<Longrightarrow> s = createLiveChannel t kinds both shown time \<Longrightarrow>
    fleet both (b\<lparr>tabs := (tabs b)(t \<mapsto> elect s)\<rparr>) (chans(t \<mapsto> s))"
| reacts: "fleet both b chans \<Longrightarrow> chans t = Some s \<Longrightarrow> \<forall>r. i \<noteq> LockGranted r \<Longrightarrow> s' = react i s \<Longrightarrow>
    fleet both (tab_call t (elect s', asked_locks s s') b) (chans(t \<mapsto> s'))"
| grants: "fleet both b chans \<Longrightarrow> held b = None \<Longrightarrow> queue b = (t, r) # rest \<Longrightarrow> chans t = Some s \<Longrightarrow>
    s' = react (LockGranted r) s \<Longrightarrow> kept = fst (granted r (pending (elect s) \<noteq> Some r) (elect s)) \<Longrightarrow>
    fleet both (tab_call t (elect s', asked_locks s s')
      (b\<lparr>queue := rest, held := (if kept then Some (t, r) else None)\<rparr>)) (chans(t \<mapsto> s'))"
| frees: "fleet both b chans \<Longrightarrow> held b = Some (t, r) \<Longrightarrow> (t, r) \<in> resolved b \<Longrightarrow> fleet both (b\<lparr>held := None\<rparr>) chans"
| leaves: "fleet both b chans \<Longrightarrow> (t, r) \<in> set (queue b) \<Longrightarrow> (t, r) \<in> aborted b \<Longrightarrow>
    fleet both (b\<lparr>queue := filter (\<lambda>q. q \<noteq> (t, r)) (queue b)\<rparr>) chans"
| goes: "fleet both b chans \<Longrightarrow> chans t = Some s \<Longrightarrow> fleet both (tab_gone t b) (chans(t := None))"

text \<open>With Web Locks: the browser's part is one the election's own model reaches.\<close>

definition fleet_ok :: "browser \<Rightarrow> (jstring \<rightharpoonup> chan) \<Rightarrow> bool" where
  "fleet_ok b chans \<longleftrightarrow> browsing b \<and> (\<forall>t. tabs b t = map_option elect (chans t)) \<and>
     (\<forall>t s. chans t = Some s \<longrightarrow> running s \<and> next_request b t \<le> requests s)"

lemma fleet_okD:
  assumes "fleet_ok b chans"
  shows "browsing b" and "tabs b t = map_option elect (chans t)"
    and "chans t = Some s \<Longrightarrow> running s" and "chans t = Some s \<Longrightarrow> next_request b t \<le> requests s"
  using assms by (auto simp: fleet_ok_def)

lemma asked_locks_cong: "lock_log s' = lock_log s @ cs \<Longrightarrow> asked_locks s s' = cs"
  by (simp add: asked_locks_def)

text \<open>One tab's turn, from a browser whose own state for the tab is already \<open>e\<close>.\<close>

lemma turn_ok:
  assumes "acts (e, n, l) (lock_view s')" and "browsing b" and "tabs b t = Some e" and "next_request b t \<le> n"
    and "\<And>u. u \<noteq> t \<Longrightarrow> tabs b u = map_option elect (chans u)" and "running s'"
    and "\<And>u f. u \<noteq> t \<Longrightarrow> chans u = Some f \<Longrightarrow> running f \<and> next_request b u \<le> requests f"
  shows "\<exists>cs. lock_log s' = l @ cs \<and> fleet_ok (tab_call t (elect s', cs) b) (chans(t \<mapsto> s'))"
proof -
  obtain cs where cs: "lock_log s' = l @ cs" "browsing (tab_call t (elect s', cs) b)"
      "next_request (tab_call t (elect s', cs) b) t \<le> requests s'"
    using acts_browse [OF assms(1-4)] by (auto simp: lock_view_def)
  then have "fleet_ok (tab_call t (elect s', cs) b) (chans(t \<mapsto> s'))"
    using assms(5-7) by (auto simp: fleet_ok_def tab_call_tabs tab_call_requests)
  with cs(1) show ?thesis by blast
qed

lemma reacts_ok:
  assumes ok: "fleet_ok b chans" and t: "chans t = Some s" and i: "\<forall>r. i \<noteq> LockGranted r"
  shows "fleet_ok (tab_call t (elect (react i s), asked_locks s (react i s)) b) (chans(t \<mapsto> react i s))"
proof -
  note d = fleet_okD [OF ok]
  have "acts (elect s, requests s, lock_log s) (lock_view (react i s))"
    using acts_react [OF i, of s] by (simp add: lock_view_def [of s])
  from turn_ok [OF this d(1) _ d(4) [OF t]] obtain cs
    where "lock_log (react i s) = lock_log s @ cs" "fleet_ok (tab_call t (elect (react i s), cs) b) (chans(t \<mapsto> react i s))"
    using d(2-4) t running.step by (metis option.simps(9))
  then show ?thesis using asked_locks_cong by metis
qed

text \<open>A request in the queue is stale for the channel exactly when it is for the lock manager.\<close>

lemma stale_request:
  assumes "browser_ok b" and "(t, r) \<in> set (queue b)" and "tabs b t = Some e"
  shows "pending e \<noteq> Some r \<longleftrightarrow> (t, r) \<in> aborted b"
  using browser_okD(1) [OF assms(1,2)] browser_okD(5) [OF assms(1,3)] assms(3) by (auto simp: tab_ok_def)

lemma grants_ok:
  assumes ok: "fleet_ok b chans" and free: "held b = None" and q: "queue b = (t, r) # rest" and t: "chans t = Some s"
    and kept: "kept = fst (granted r (pending (elect s) \<noteq> Some r) (elect s))"
  shows "fleet_ok (tab_call t (elect (react (LockGranted r) s), asked_locks s (react (LockGranted r) s))
    (b\<lparr>queue := rest, held := (if kept then Some (t, r) else None)\<rparr>)) (chans(t \<mapsto> react (LockGranted r) s))"
    (is "fleet_ok (tab_call t (elect ?s', _) ?b) _")
proof -
  note d = fleet_okD [OF ok] and bo = browsing_ok [OF fleet_okD(1) [OF ok]]
  have e: "tabs b t = Some (elect s)" using d(2) [of t] t by simp
  have shared: "shared (elect s)" using browser_okD(5) [OF bo e] by (simp add: tab_ok_def)
  have stale: "(pending (elect s) \<noteq> Some r) = ((t, r) \<in> aborted b)" using stale_request [OF bo _ e, of r] q by simp
  obtain k e1 calls where "granted r (pending (elect s) \<noteq> Some r) (elect s) = (k, e1, calls)" by (metis prod_cases3)
  with kept have g': "granted r (pending (elect s) \<noteq> Some r) (elect s) = (kept, e1, calls)" by simp
  then have g: "granted r ((t, r) \<in> aborted b) (elect s) = (kept, e1, calls)" unfolding stale .
  have step: "browser_step b (tab_call t (e1, calls) ?b)"
  proof (cases kept)
    case True
    with lock_step.keep [OF free q e, of e1 calls] g show ?thesis by (simp add: browser_step.locks)
  next
    case False
    moreover have "b\<lparr>queue := rest, held := None\<rparr> = b\<lparr>queue := rest\<rparr>" using free by simp
    ultimately show ?thesis using lock_step.hand_on [OF free q e, of e1 calls] g by (simp add: browser_step.locks)
  qed
  let ?s1 = "call_election (e1, calls) s"
  have s': "?s' = (if kept then onLead ?s1 else ?s1)" using shared g' by (simp add: lock_granted_def)
  have "acts (lock_view ?s1) (lock_view ?s')" unfolding s'
    by (cases kept) (simp_all only: if_True if_False acts.rest acts_onLead)
  then have "acts (e1, requests s, lock_log s @ calls) (lock_view ?s')" by simp
  moreover have "next_request (tab_call t (e1, calls) ?b) t \<le> requests s"
    using grantedD [OF g] d(4) [OF t] by (cases kept) (auto simp: tab_call_def)
  ultimately have "\<exists>cs. lock_log ?s' = (lock_log s @ calls) @ cs \<and>
      fleet_ok (tab_call t (elect ?s', cs) (tab_call t (e1, calls) ?b)) (chans(t \<mapsto> ?s'))"
    using browsing.step [OF d(1) step] d(2-4) running.step [OF d(3) [OF t]]
    by (intro turn_ok) (auto simp: tab_call_tabs tab_call_requests simp del: react.simps)
  then show ?thesis using asked_locks_cong tab_call_twice by (metis append.assoc)
qed

lemma fleet_reached: "fleet True b chans \<Longrightarrow> fleet_ok b chans"
proof (induction rule: fleet.induct)
  case start
  show ?case by (simp add: fleet_ok_def no_tabs_def browsing.start [unfolded no_tabs_def])
next
  case (opens b chans t s kinds shown time)
  note d = fleet_okD [OF opens.IH]
  have s: "elect s = createElection True t" by (simp add: opens(3) createLiveChannel_def Let_def engage_def)
  have none: "tabs b t = None" using d(2) [of t] opens(2) by simp
  have "browsing (b\<lparr>tabs := (tabs b)(t \<mapsto> elect s)\<rparr>)"
    unfolding s using browsing.step [OF d(1) browser_step.open_tab [OF none]] .
  moreover have "running s" unfolding opens(3) by (rule running.start)
  moreover have "next_request b t = 0" using browser_okD(6) [OF browsing_ok [OF d(1)] none] .
  ultimately show ?case using d(2-4) by (auto simp: fleet_ok_def)
next
  case (reacts b chans t s i s')
  show ?case unfolding reacts.hyps(4) by (rule reacts_ok [OF reacts.IH reacts.hyps(2,3)])
next
  case (grants b chans t r rest s s' kept)
  show ?case unfolding grants.hyps(5) by (rule grants_ok [OF grants.IH grants.hyps(2-4,6)])
next
  case (frees b chans t r)
  note d = fleet_okD [OF frees.IH]
  have "browsing (b\<lparr>held := None\<rparr>)"
    using browsing.step [OF d(1) browser_step.locks [OF lock_step.free [OF frees(2,3)]]] .
  with d(2-4) show ?case by (simp add: fleet_ok_def)
next
  case (leaves b chans t r)
  note d = fleet_okD [OF leaves.IH]
  have "browsing (b\<lparr>queue := filter (\<lambda>q. q \<noteq> (t, r)) (queue b)\<rparr>)"
    using browsing.step [OF d(1) browser_step.locks [OF lock_step.leave [OF leaves(2,3)]]] .
  with d(2-4) show ?case by (simp add: fleet_ok_def)
next
  case (goes b chans t s)
  note d = fleet_okD [OF goes.IH]
  have "browsing (tab_gone t b)"
    using browsing.step [OF d(1) browser_step.gone [of b t "elect s"]] d(2) [of t] goes(2) by simp
  with d(2-4) show ?case by (auto simp: fleet_ok_def tab_gone_def)
qed

text \<open>Without Web Locks: no tab asks for a lock.\<close>

definition lone :: "election \<Rightarrow> bool" where
  "lone e \<longleftrightarrow> \<not> shared e \<and> pending e = None \<and> release e = None"

definition no_request :: "lock_call list \<Rightarrow> bool" where
  "no_request cs \<longleftrightarrow> (\<forall>r. RequestLeader r \<notin> set cs)"

lemma lone_methods:
  assumes "lone e"
  shows "lone (fst (want n e)) \<and> no_request (snd (want n e))" "lone (fst (withdraw e)) \<and> no_request (snd (withdraw e))"
    "lone (fst (watch other e)) \<and> no_request (snd (watch other e))"
    "lone (fst (tab_free other k e)) \<and> no_request (snd (tab_free other k e))"
    "lone (fst (close_election e)) \<and> no_request (snd (close_election e))"
    "lone (fst (lead_alone e)) \<and> no_request (snd (lead_alone e))"
  using assms by (auto simp: lone_def no_request_def want_def withdraw_def watch_def tab_free_def close_election_def
      lead_alone_def stopWatching_def Let_def)

lemma lone_on:
  assumes "\<exists>e' n' cs. (f, m, k) = (e', n', l @ cs) \<and> lone e' \<and> no_request cs"
    and "lone f \<Longrightarrow> lone (fst r) \<and> no_request (snd r)"
  shows "\<exists>e' n' cs. (fst r, m', k @ snd r) = (e', n', l @ cs) \<and> lone e' \<and> no_request cs"
  using assms by (auto simp: no_request_def)

lemma acts_lone:
  assumes "acts (e, n, l) v" and "lone e"
  shows "\<exists>e' n' cs. v = (e', n', l @ cs) \<and> lone e' \<and> no_request cs"
  using assms(1)
proof (induction rule: acts.induct)
  case rest
  then show ?case using assms(2) by (auto simp: no_request_def)
qed (erule lone_on, erule lone_methods)+

lemma obey_no_request:
  "no_request cs \<Longrightarrow> queue (obey t cs b) = queue b" "held (obey t cs b) = held b"
  by (induction t cs b rule: obey.induct) (auto simp: no_request_def)

lemma fleet_alone:
  "fleet False b chans \<Longrightarrow> held b = None \<and> queue b = [] \<and> (\<forall>t s. chans t = Some s \<longrightarrow> lone (elect s))"
proof (induction rule: fleet.induct)
  case start
  show ?case by (simp add: no_tabs_def)
next
  case (opens b chans t s kinds shown time)
  have "lone (elect s)" by (simp add: opens(3) createLiveChannel_def Let_def engage_def createElection_def lone_def)
  with opens show ?case by simp
next
  case (reacts b chans t s i s')
  have "acts (elect s, requests s, lock_log s) (lock_view s')"
    using acts_react [OF reacts.hyps(3), of s] reacts.hyps(4) by (simp add: lock_view_def [of s])
  from acts_lone [OF this] reacts obtain cs where "lock_log s' = lock_log s @ cs" "lone (elect s')" "no_request cs"
    by (auto simp: lock_view_def)
  moreover from this have "asked_locks s s' = cs" using asked_locks_cong by blast
  ultimately show ?case using reacts.IH by (auto simp: tab_call_def obey_no_request)
qed (auto simp: tab_gone_def)

section \<open>Properties\<close>

text \<open>
  C10. One connection per browser. The tabs' channels run together with the lock manager that their
  own calls drive, opening, closing and crashing in any order. In a browser with Web Locks at most
  one of them has an \<open>EventSource\<close> or shows itself as the leader, and it is the one that holds the
  leader's lock. In a browser without, no lock is asked for or held: there a tab leads itself.
\<close>

theorem one_connection:
  assumes "fleet both b chans" and "chans t = Some s" and "source s \<noteq> None \<or> st_leader s"
    and "chans u = Some s'" and "source s' \<noteq> None \<or> st_leader s'"
  shows "(both \<longrightarrow> t = u \<and> (\<exists>r. held b = Some (t, r))) \<and> (\<not> both \<longrightarrow> held b = None \<and> queue b = [])"
proof (cases both)
  case True
  then have "fleet True b chans" using assms(1) by simp
  note d = fleet_okD [OF fleet_reached [OF this]]
  have leads: "\<exists>r. held b = Some (w, r)" if "chans w = Some f" "source f \<noteq> None \<or> st_leader f" for w f
  proof -
    have "isLeader f" using shown_ok_running [OF d(3) [OF that(1)]] that(2) by (auto simp: shown_ok_def)
    moreover have "tabs b w = Some (elect f)" using d(2) [of w] that(1) by simp
    ultimately show ?thesis using browser_okD(5) [OF browsing_ok [OF d(1)], of w] by (auto simp: tab_ok_def)
  qed
  from leads [OF assms(2,3)] leads [OF assms(4,5)] True show ?thesis by auto
next
  case False
  with fleet_alone [of b chans] assms(1) show ?thesis by simp
qed

text \<open>Two tabs that subscribe and want to lead; the first is granted the lock.\<close>

definition page :: "jstring \<Rightarrow> channel_input list \<Rightarrow> chan" where
  "page t inputs = fold react inputs (createLiveChannel t RESUME True True 0)"

definition sub_input :: channel_input where
  "sub_input = Subscribe (js ''jobs'') (JObj []) None"

definition turn :: "jstring \<Rightarrow> chan \<Rightarrow> chan \<Rightarrow> browser \<Rightarrow> browser" where
  "turn t s s' b = tab_call t (elect s', asked_locks s s') b"

definition first_waits :: browser where
  "first_waits = turn (js ''a'') (page (js ''a'') [sub_input]) (page (js ''a'') [sub_input, TabLockHeld])
     (turn (js ''a'') (page (js ''a'') []) (page (js ''a'') [sub_input])
       (no_tabs\<lparr>tabs := (tabs no_tabs)(js ''a'' \<mapsto> elect (page (js ''a'') []))\<rparr>))"

definition first_leads :: browser where
  "first_leads = turn (js ''a'') (page (js ''a'') [sub_input, TabLockHeld]) (page (js ''a'') [sub_input, TabLockHeld, LockGranted 0])
     (first_waits\<lparr>queue := [], held := Some (js ''a'', 0)\<rparr>)"

definition second_waits :: browser where
  "second_waits = turn (js ''b'') (page (js ''b'') [sub_input]) (page (js ''b'') [sub_input, TabLockHeld])
     (turn (js ''b'') (page (js ''b'') []) (page (js ''b'') [sub_input])
       (first_leads\<lparr>tabs := (tabs first_leads)(js ''b'' \<mapsto> elect (page (js ''b'') []))\<rparr>))"

lemma page_step: "page t (inputs @ [i]) = react i (page t inputs)"
  by (simp add: page_def)

lemma page_waits:
  assumes "fleet True b chans" and "chans t = None"
  shows "fleet True (turn t (page t [sub_input]) (page t [sub_input, TabLockHeld]) (turn t (page t []) (page t [sub_input])
    (b\<lparr>tabs := (tabs b)(t \<mapsto> elect (page t []))\<rparr>))) (chans(t \<mapsto> page t [sub_input, TabLockHeld]))"
proof -
  have "fleet True (b\<lparr>tabs := (tabs b)(t \<mapsto> elect (page t []))\<rparr>) (chans(t \<mapsto> page t []))"
    by (rule fleet.opens [OF assms]) (simp add: page_def)
  then have "fleet True (turn t (page t []) (page t [sub_input]) (b\<lparr>tabs := (tabs b)(t \<mapsto> elect (page t []))\<rparr>))
      ((chans(t \<mapsto> page t []))(t \<mapsto> page t [sub_input]))"
    unfolding turn_def by (rule fleet.reacts [of _ _ _ _ _ sub_input]) (simp_all add: sub_input_def page_step [of _ "[]", simplified])
  then have "fleet True (turn t (page t [sub_input]) (page t [sub_input, TabLockHeld]) (turn t (page t []) (page t [sub_input])
      (b\<lparr>tabs := (tabs b)(t \<mapsto> elect (page t []))\<rparr>))) ((chans(t \<mapsto> page t [sub_input]))(t \<mapsto> page t [sub_input, TabLockHeld]))"
    unfolding turn_def [of t "page t [sub_input]"]
    by (intro fleet.reacts [of _ _ _ _ _ TabLockHeld]) (simp_all add: page_step [of _ "[sub_input]", simplified])
  then show ?thesis by simp
qed

lemma sample_locks:
  "asked_locks (page (js ''a'') []) (page (js ''a'') [sub_input]) = []"
  "asked_locks (page (js ''a'') [sub_input]) (page (js ''a'') [sub_input, TabLockHeld]) = [RequestLeader 0]"
  "fst (granted 0 (pending (elect (page (js ''a'') [sub_input, TabLockHeld])) \<noteq> Some 0) (elect (page (js ''a'') [sub_input, TabLockHeld])))"
  by code_simp+

lemma fleet_sample:
  "fleet True second_waits [js ''a'' \<mapsto> page (js ''a'') [sub_input, TabLockHeld, LockGranted 0], js ''b'' \<mapsto> page (js ''b'') [sub_input, TabLockHeld]]"
proof -
  let ?w = "page (js ''a'') [sub_input, TabLockHeld]" and ?l = "page (js ''a'') [sub_input, TabLockHeld, LockGranted 0]"
  have w: "fleet True first_waits [js ''a'' \<mapsto> ?w]"
    unfolding first_waits_def by (rule page_waits [OF fleet.start]) simp
  have q: "held first_waits = None" "queue first_waits = [(js ''a'', 0)]"
    unfolding first_waits_def turn_def tab_call_def sample_locks no_tabs_def by simp_all
  have "?l = react (LockGranted 0) ?w" by (simp add: page_def)
  from fleet.grants [OF w q _ this, of True] sample_locks(3)
  have "fleet True first_leads ([js ''a'' \<mapsto> ?w](js ''a'' \<mapsto> ?l))" by (simp add: first_leads_def turn_def)
  then have "fleet True first_leads [js ''a'' \<mapsto> ?l]" by simp
  then show ?thesis unfolding second_waits_def by (rule page_waits) simp
qed

theorem one_connection_witness:
  "fleet True second_waits [js ''a'' \<mapsto> page (js ''a'') [sub_input, TabLockHeld, LockGranted 0], js ''b'' \<mapsto> page (js ''b'') [sub_input, TabLockHeld]] \<and>
   source (page (js ''a'') [sub_input, TabLockHeld, LockGranted 0]) \<noteq> None \<and> wanting (elect (page (js ''b'') [sub_input, TabLockHeld])) \<and>
   source (page (js ''b'') [sub_input, TabLockHeld]) = None \<and> \<not> st_leader (page (js ''b'') [sub_input, TabLockHeld]) \<and>
   (\<exists>r. held second_waits = Some (js ''a'', r))"
proof -
  have s: "source (page (js ''a'') [sub_input, TabLockHeld, LockGranted 0]) \<noteq> None"
    and w: "wanting (elect (page (js ''b'') [sub_input, TabLockHeld]))" by code_simp+
  note one = one_connection [OF fleet_sample, of "js ''a''" "page (js ''a'') [sub_input, TabLockHeld, LockGranted 0]"]
  from one [of "js ''a''" "page (js ''a'') [sub_input, TabLockHeld, LockGranted 0]"] s have "\<exists>r. held second_waits = Some (js ''a'', r)" by simp
  moreover from one [of "js ''b''" "page (js ''b'') [sub_input, TabLockHeld]"] s
  have "source (page (js ''b'') [sub_input, TabLockHeld]) = None \<and> \<not> st_leader (page (js ''b'') [sub_input, TabLockHeld])"
    by (cases "source (page (js ''b'') [sub_input, TabLockHeld])") auto
  ultimately show ?thesis using fleet_sample s w by blast
qed

end
