(* ===== verification/Firestore_Value.thy ===== *)
theory Firestore_Value
  imports JS_Json
begin

text \<open>
  The Firestore values of the console, \<open>firestore/value.ts\<close>: the REST wire shape and the typed
  values, the codec between them, plain JSON, and the text of the editors. The lemmas show that
  the codec and the JSON view give back what they were given, and where they cannot.
\<close>

section \<open>The language's numbers as text\<close>

text \<open>White space as \<open>trim\<close> and \<open>Number\<close> know it.\<close>

definition js_white :: "nat \<Rightarrow> bool" where
  "js_white c \<longleftrightarrow> (9 \<le> c \<and> c \<le> 13) \<or> c = 32 \<or> c = 160 \<or> c = 0x1680 \<or> (0x2000 \<le> c \<and> c \<le> 0x200A) \<or>
     c = 0x2028 \<or> c = 0x2029 \<or> c = 0x202F \<or> c = 0x205F \<or> c = 0x3000 \<or> c = 0xFEFF"

definition trim_white :: "jstring \<Rightarrow> jstring" where
  "trim_white s = rev (dropWhile js_white (rev (dropWhile js_white s)))"

text \<open>A decimal without sign that is all of the text.\<close>

definition all_decimal :: "jstring \<Rightarrow> rat option" where
  "all_decimal s =
     (let whole = takeWhile is_digit s; r = dropWhile is_digit s;
          pointed = r \<noteq> [] \<and> hd r = 46;
          fraction = (if pointed then takeWhile is_digit (tl r) else []);
          r1 = (if pointed then dropWhile is_digit (tl r) else r)
      in if whole = [] \<and> fraction = [] then None
         else case read_exponent r1 of
             Some (e, []) \<Rightarrow> Some (of_nat (read_nat (whole @ fraction)) * exp10 (e - int (length fraction)))
           | _ \<Rightarrow> None)"

fun read_radix :: "nat \<Rightarrow> jstring \<Rightarrow> nat \<Rightarrow> nat option" where
  "read_radix b [] acc = Some acc"
| "read_radix b (c # cs) acc =
     (case hex_value c of Some d \<Rightarrow> if d < b then read_radix b cs (acc * b + d) else None | None \<Rightarrow> None)"

definition radix_of :: "jstring \<Rightarrow> nat option" where
  "radix_of s =
     (if take 2 s \<in> {[48, 120], [48, 88]} then Some 16
      else if take 2 s \<in> {[48, 111], [48, 79]} then Some 8
      else if take 2 s \<in> {[48, 98], [48, 66]} then Some 2 else None)"

text \<open>\<open>Number\<close> of a text.\<close>

definition to_number :: "jstring \<Rightarrow> jsnum" where
  "to_number text =
     (let s = trim_white text in
      if s = [] then Fin 0
      else case radix_of s of
          Some b \<Rightarrow> (if drop 2 s = [] then NaN
             else case read_radix b (drop 2 s) 0 of Some n \<Rightarrow> toDouble (of_nat n) | None \<Rightarrow> NaN)
        | None \<Rightarrow>
            let negative = (hd s = 45); body = (if hd s = 45 \<or> hd s = 43 then tl s else s)
            in if body = js ''Infinity'' then if negative then NInf else PInf
               else case all_decimal body of None \<Rightarrow> NaN | Some x \<Rightarrow> toDouble (if negative then - x else x))"

definition isInteger :: "jsnum \<Rightarrow> bool" where
  "isInteger x \<longleftrightarrow> (case x of Fin r \<Rightarrow> of_int \<lfloor>r\<rfloor> = r | _ \<Rightarrow> False)"

definition isSafeInteger :: "jsnum \<Rightarrow> bool" where
  "isSafeInteger x \<longleftrightarrow> (case x of Fin r \<Rightarrow> of_int \<lfloor>r\<rfloor> = r \<and> \<bar>r\<bar> \<le> 9007199254740991 | _ \<Rightarrow> False)"

section \<open>Values\<close>

datatype fs_type = StringType | NumberType | BooleanType | TimestampType | ReferenceType | GeopointType
  | MapType | ArrayType | BytesType | NullType | VectorType

datatype fs_value =
    FsString jstring "jsnum option"
  | FsNumber jsnum bool
  | FsBoolean bool
  | FsTimestamp jstring
  | FsReference jstring jstring
  | FsGeopoint jsnum jsnum
  | FsMap "(jstring \<times> fs_value) list" "jsnum option"
  | FsArray "fs_value list" "jsnum option"
  | FsBytes jstring "jsnum option"
  | FsNull
  | FsVector "jsnum list"

text \<open>
  A number on the wire: a text or a number. The interface declares a double as a number only; the
  engine sends the texts \<open>NaN\<close>, \<open>Infinity\<close> and \<open>-Infinity\<close> for the doubles JSON has no number for.
\<close>

datatype int_wire = IntText jstring | IntNumber jsnum

text \<open>The REST value: each field present or not, in the order of the interface.\<close>

datatype rest_value = RestValue
  (nullValue: bool)
  (booleanValue: "bool option")
  (integerValue: "int_wire option")
  (doubleValue: "int_wire option")
  (timestampValue: "jstring option")
  (stringValue: "jstring option")
  (bytesValue: "jstring option")
  (referenceValue: "jstring option")
  (geoPointValue: "(jsnum option \<times> jsnum option) option")
  (arrayValue: "(rest_value list option \<times> jsnum option) option")
  (mapValue: "((jstring \<times> rest_value) list option \<times> jsnum option) option")
  (firenookElided: "jsnum option")

function isPartial :: "fs_value \<Rightarrow> bool" where
  "isPartial (FsString s elided) = (elided \<noteq> None)"
| "isPartial (FsBytes b elided) = (elided \<noteq> None)"
| "isPartial (FsMap fields count) = (count \<noteq> None \<or> (\<exists>p\<in>set fields. isPartial (snd p)))"
| "isPartial (FsArray items count) = (count \<noteq> None \<or> (\<exists>v\<in>set items. isPartial v))"
| "isPartial (FsNumber x b) = False"
| "isPartial (FsBoolean c) = False"
| "isPartial (FsTimestamp t) = False"
| "isPartial (FsReference r p) = False"
| "isPartial (FsGeopoint la lo) = False"
| "isPartial FsNull = False"
| "isPartial (FsVector xs) = False"
  by pat_completeness auto
termination by (relation "measure size") (auto elim!: in_set_conv_decomp [THEN iffD1, THEN exE])

definition entryCount :: "fs_value \<Rightarrow> jsnum" where
  "entryCount v = (case v of
     FsMap fields count \<Rightarrow> (case count of Some n \<Rightarrow> n | None \<Rightarrow> Fin (of_nat (length fields)))
   | FsArray items count \<Rightarrow> (case count of Some n \<Rightarrow> n | None \<Rightarrow> Fin (of_nat (length items)))
   | _ \<Rightarrow> Fin 0)"

section \<open>Reading the wire\<close>

definition DOCUMENTS_MARKER :: jstring where
  "DOCUMENTS_MARKER = js ''/documents/''"

text \<open>\<open>indexOf\<close> of a text.\<close>

fun index_text :: "jstring \<Rightarrow> jstring \<Rightarrow> nat option" where
  "index_text p [] = (if p = [] then Some 0 else None)"
| "index_text p (c # s) = (if take (length p) (c # s) = p then Some 0 else map_option Suc (index_text p s))"

definition relativePath :: "jstring \<Rightarrow> jstring" where
  "relativePath name = (case index_text DOCUMENTS_MARKER name of None \<Rightarrow> name
     | Some i \<Rightarrow> drop (i + length DOCUMENTS_MARKER) name)"

text \<open>
  \<open>out[key] = f(value)\<close> for every entry. Assigning \<open>__proto__\<close> sets the object's prototype and adds
  no entry.
\<close>

definition PROTO :: jstring where
  "PROTO = js ''__proto__''"

definition assign_all :: "('a \<Rightarrow> 'b) \<Rightarrow> (jstring \<times> 'a) list \<Rightarrow> (jstring \<times> 'b) list" where
  "assign_all f ps = obj_of (map (\<lambda>p. (fst p, f (snd p))) (filter (\<lambda>p. fst p \<noteq> PROTO) ps))"

lemma assign_all_cong [fundef_cong]:
  "ps = qs \<Longrightarrow> (\<And>p. p \<in> set qs \<Longrightarrow> f (snd p) = g (snd p)) \<Longrightarrow> assign_all f ps = assign_all g qs"
  unfolding assign_all_def by (auto intro!: arg_cong [of _ _ obj_of])

definition VECTOR_MARKER :: jstring where
  "VECTOR_MARKER = js ''__vector__''"

text \<open>The items of a map that is a vector, if it is one.\<close>

definition vector_items :: "(jstring \<times> rest_value) list \<Rightarrow> rest_value list option" where
  "vector_items fields =
     (case (map_of fields (js ''__type__''), map_of fields (js ''value'')) of
        (Some kind, Some v) \<Rightarrow>
          (if stringValue kind = Some VECTOR_MARKER
           then map_option (\<lambda>a. case fst a of Some vs \<Rightarrow> vs | None \<Rightarrow> []) (arrayValue v) else None)
      | _ \<Rightarrow> None)"

fun wire_number :: "int_wire \<Rightarrow> jsnum" where
  "wire_number (IntText t) = to_number t"
| "wire_number (IntNumber x) = x"

definition or_zero :: "jsnum option \<Rightarrow> jsnum" where
  "or_zero x = (case x of Some y \<Rightarrow> y | None \<Rightarrow> Fin 0)"

text \<open>\<open>decodeValue\<close> up to the maps, and after the arrays.\<close>

definition decode_scalar :: "rest_value \<Rightarrow> fs_value option" where
  "decode_scalar w =
     (case stringValue w of Some x \<Rightarrow> Some (FsString x (firenookElided w)) | None \<Rightarrow>
      case integerValue w of Some n \<Rightarrow> Some (FsNumber (wire_number n) True) | None \<Rightarrow>
      case doubleValue w of Some n \<Rightarrow> Some (FsNumber (wire_number n) False) | None \<Rightarrow>
      case booleanValue w of Some b \<Rightarrow> Some (FsBoolean b) | None \<Rightarrow>
      case timestampValue w of Some x \<Rightarrow> Some (FsTimestamp x) | None \<Rightarrow>
      case referenceValue w of Some x \<Rightarrow> Some (FsReference x (relativePath x)) | None \<Rightarrow>
      case geoPointValue w of Some (la, lo) \<Rightarrow> Some (FsGeopoint (or_zero la) (or_zero lo)) | None \<Rightarrow> None)"

definition decode_last :: "rest_value \<Rightarrow> fs_value" where
  "decode_last w = (case bytesValue w of Some x \<Rightarrow> FsBytes x (firenookElided w) | None \<Rightarrow> FsNull)"

lemma size_array: "arrayValue w = Some (Some vs, c) \<Longrightarrow> v \<in> set vs \<Longrightarrow> size v < size w"
  by (cases w) (auto dest!: size_list_estimation' [where f = size and y = "size v", OF _ order_refl])

lemma size_map: "mapValue w = Some (Some fs, c) \<Longrightarrow> p \<in> set fs \<Longrightarrow> size (snd p) < size w"
  by (cases w; cases p) (auto dest!: size_list_estimation' [where f = "size_prod (\<lambda>_. 0) size" and y = "size (snd p)"])

function decodeValue :: "rest_value \<Rightarrow> fs_value" where
  "decodeValue w =
     (case decode_scalar w of Some v \<Rightarrow> v | None \<Rightarrow>
      case mapValue w of
        Some (Some fs, count) \<Rightarrow>
          (case vector_items fs of
             Some vs \<Rightarrow> FsVector (map (\<lambda>v. or_zero (map_option wire_number (doubleValue v))) vs)
           | None \<Rightarrow> FsMap (assign_all decodeValue fs) count)
      | Some (None, count) \<Rightarrow> FsMap [] count
      | None \<Rightarrow>
          case arrayValue w of
            Some (Some vs, count) \<Rightarrow> FsArray (map decodeValue vs) count
          | Some (None, count) \<Rightarrow> FsArray [] count
          | None \<Rightarrow> decode_last w)"
  by pat_completeness auto
termination by (relation "measure size") (auto dest: size_array size_map)

declare decodeValue.simps [simp del]

definition decodeFields :: "(jstring \<times> rest_value) list option \<Rightarrow> (jstring \<times> fs_value) list" where
  "decodeFields fields = (case fields of None \<Rightarrow> [] | Some fs \<Rightarrow> assign_all decodeValue fs)"

record rest_document =
  doc_name :: jstring
  doc_fields :: "(jstring \<times> rest_value) list option"
  doc_createTime :: "jstring option"
  doc_updateTime :: "jstring option"

record fs_document =
  fs_path :: jstring
  fs_id :: jstring
  fs_collection :: jstring
  fs_fields :: "(jstring \<times> fs_value) list"
  fs_createTime :: "jstring option"
  fs_updateTime :: "jstring option"
  fs_missing :: bool

definition truthy_text :: "jstring option \<Rightarrow> jstring option" where
  "truthy_text t = (if t = Some [] then None else t)"

definition decodeDocument :: "rest_document \<Rightarrow> fs_document" where
  "decodeDocument d =
     (let path = relativePath (doc_name d); i = rev (takeWhile (\<lambda>c. c \<noteq> 47) (rev path))
      in \<lparr>fs_path = path, fs_id = i,
           fs_collection = (if 47 \<in> set path then take (length path - length i - 1) path else butlast path),
           fs_fields = decodeFields (doc_fields d), fs_createTime = truthy_text (doc_createTime d),
           fs_updateTime = truthy_text (doc_updateTime d), fs_missing = (truthy_text (doc_createTime d) = None)\<rparr>)"

section \<open>Writing the wire\<close>

text \<open>The values with one field.\<close>

definition wNull :: rest_value where
  "wNull = RestValue True None None None None None None None None None None None"

definition wBoolean :: "bool \<Rightarrow> rest_value" where
  "wBoolean b = RestValue False (Some b) None None None None None None None None None None"

definition wInteger :: "int_wire \<Rightarrow> rest_value" where
  "wInteger n = RestValue False None (Some n) None None None None None None None None None"

definition wDouble :: "jsnum \<Rightarrow> rest_value" where
  "wDouble x = RestValue False None None (Some (IntNumber x)) None None None None None None None None"

definition wTimestamp :: "jstring \<Rightarrow> rest_value" where
  "wTimestamp t = RestValue False None None None (Some t) None None None None None None None"

definition wString :: "jstring \<Rightarrow> rest_value" where
  "wString t = RestValue False None None None None (Some t) None None None None None None"

definition wBytes :: "jstring \<Rightarrow> rest_value" where
  "wBytes t = RestValue False None None None None None (Some t) None None None None None"

definition wReference :: "jstring \<Rightarrow> rest_value" where
  "wReference t = RestValue False None None None None None None (Some t) None None None None"

definition wGeoPoint :: "jsnum \<Rightarrow> jsnum \<Rightarrow> rest_value" where
  "wGeoPoint la lo = RestValue False None None None None None None None (Some (Some la, Some lo)) None None None"

definition wArray :: "rest_value list \<Rightarrow> rest_value" where
  "wArray vs = RestValue False None None None None None None None None (Some (Some vs, None)) None None"

definition wMap :: "(jstring \<times> rest_value) list \<Rightarrow> rest_value" where
  "wMap fs = RestValue False None None None None None None None None None (Some (Some fs, None)) None"

lemmas wire_defs = wNull_def wBoolean_def wInteger_def wDouble_def wTimestamp_def wString_def wBytes_def
  wReference_def wGeoPoint_def wArray_def wMap_def

function encodeValue :: "fs_value \<Rightarrow> jstring \<Rightarrow> rest_value" where
  "encodeValue (FsString s elided) documentRoot = wString s"
| "encodeValue (FsNumber x integer) documentRoot =
     (if integer \<and> isSafeInteger x then wInteger (IntText (num_text x)) else wDouble x)"
| "encodeValue (FsBoolean b) documentRoot = wBoolean b"
| "encodeValue (FsTimestamp t) documentRoot = wTimestamp t"
| "encodeValue (FsReference full path) documentRoot =
     wReference (if index_text DOCUMENTS_MARKER full \<noteq> None then full else documentRoot @ 47 # path)"
| "encodeValue (FsGeopoint la lo) documentRoot = wGeoPoint la lo"
| "encodeValue (FsMap fs count) documentRoot = wMap (assign_all (\<lambda>v. encodeValue v documentRoot) fs)"
| "encodeValue (FsArray items count) documentRoot = wArray (map (\<lambda>v. encodeValue v documentRoot) items)"
| "encodeValue (FsBytes b elided) documentRoot = wBytes b"
| "encodeValue (FsVector xs) documentRoot =
     wMap [(js ''__type__'', wString VECTOR_MARKER), (js ''value'', wArray (map wDouble xs))]"
| "encodeValue FsNull documentRoot = wNull"
  by pat_completeness auto
termination by (relation "measure (size \<circ> fst)") (auto elim!: in_set_conv_decomp [THEN iffD1, THEN exE])

definition encodeFields :: "(jstring \<times> fs_value) list \<Rightarrow> jstring \<Rightarrow> (jstring \<times> rest_value) list" where
  "encodeFields fs documentRoot = assign_all (\<lambda>v. encodeValue v documentRoot) fs"

section \<open>Plain JSON\<close>

function toJson :: "fs_value \<Rightarrow> json" where
  "toJson (FsString s elided) = JStr s"
| "toJson (FsBoolean b) = JBool b"
| "toJson (FsTimestamp t) = JStr t"
| "toJson (FsNumber x integer) = JNum x"
| "toJson (FsReference full path) = JStr path"
| "toJson (FsGeopoint la lo) = JObj [(js ''latitude'', JNum la), (js ''longitude'', JNum lo)]"
| "toJson (FsMap fs count) = JObj (assign_all toJson fs)"
| "toJson (FsArray items count) = JArr (map toJson items)"
| "toJson (FsBytes b elided) = JStr b"
| "toJson (FsVector xs) = JObj [(js ''__type__'', JStr VECTOR_MARKER), (js ''value'', JArr (map JNum xs))]"
| "toJson FsNull = JNull"
  by pat_completeness auto
termination by (relation "measure size") (auto elim!: in_set_conv_decomp [THEN iffD1, THEN exE])

definition fieldsToJson :: "(jstring \<times> fs_value) list \<Rightarrow> (jstring \<times> json) list" where
  "fieldsToJson fs = assign_all toJson fs"

section \<open>Reading plain JSON\<close>

text \<open>
  \<open>Date\<close> is an argument: what \<open>new Date(text).toISOString()\<close> answers, none where the date is not
  valid. The language leaves the texts it reads beyond its own format to the implementation.
\<close>

type_synonym date_reader = "jstring \<Rightarrow> jstring option"

record from_json_options =
  timestamps :: bool
  shapes :: bool

definition INFER :: from_json_options where
  "INFER = \<lparr>timestamps = True, shapes = True\<rparr>"

definition no_options :: from_json_options where
  "no_options = \<lparr>timestamps = False, shapes = False\<rparr>"

fun as_number :: "json \<Rightarrow> jsnum option" where
  "as_number (JNum x) = Some x"
| "as_number v = None"

text \<open>\<open>Math.abs(x) > limit\<close>.\<close>

fun abs_over :: "jsnum \<Rightarrow> rat \<Rightarrow> bool" where
  "abs_over (Fin r) limit = (limit < \<bar>r\<bar>)"
| "abs_over PInf limit = True"
| "abs_over NInf limit = True"
| "abs_over NaN limit = False"

definition asGeopoint :: "(jstring \<times> json) list \<Rightarrow> fs_value option" where
  "asGeopoint input =
     (if length input \<noteq> 2 then None
      else case (Option.bind (map_of input (js ''latitude'')) as_number,
                 Option.bind (map_of input (js ''longitude'')) as_number) of
          (Some la, Some lo) \<Rightarrow>
            if \<not> is_finite la \<or> \<not> is_finite lo then None
            else if abs_over la 90 \<or> abs_over lo 180 then None
            else Some (FsGeopoint la lo)
        | _ \<Rightarrow> None)"

definition asVector :: "(jstring \<times> json) list \<Rightarrow> fs_value option" where
  "asVector input =
     (if map_of input (js ''__type__'') \<noteq> Some (JStr VECTOR_MARKER) then None
      else case map_of input (js ''value'') of
          Some (JArr vs) \<Rightarrow> map_option FsVector (those (map as_number vs))
        | _ \<Rightarrow> None)"

text \<open>The shape \<open>ISO_TIMESTAMP\<close>; in a pattern \<open>d\<close> stands for a digit.\<close>

definition fits :: "string \<Rightarrow> jstring \<Rightarrow> bool" where
  "fits p s \<longleftrightarrow> list_all2 (\<lambda>a c. if a = CHR ''d'' then is_digit c else c = of_char a) p s"

definition zone_shape :: "jstring \<Rightarrow> bool" where
  "zone_shape s \<longleftrightarrow> fits ''Z'' s \<or> fits ''+dd:dd'' s \<or> fits ''-dd:dd'' s"

definition fraction_shape :: "jstring \<Rightarrow> bool" where
  "fraction_shape s \<longleftrightarrow> s \<noteq> [] \<and> hd s = 46 \<and>
     (let n = length (takeWhile is_digit (tl s)) in 1 \<le> n \<and> n \<le> 9) \<and> zone_shape (dropWhile is_digit (tl s))"

definition ISO_TIMESTAMP :: "jstring \<Rightarrow> bool" where
  "ISO_TIMESTAMP s \<longleftrightarrow> fits ''dddd-dd-ddTdd:dd'' (take 16 s) \<and>
     (zone_shape (drop 16 s) \<or>
      fits '':dd'' (take 3 (drop 16 s)) \<and> (zone_shape (drop 19 s) \<or> fraction_shape (drop 19 s)))"

function fromJson :: "date_reader \<Rightarrow> json \<Rightarrow> from_json_options \<Rightarrow> fs_value" where
  "fromJson date JNull options = FsNull"
| "fromJson date JUndefined options = FsNull"
| "fromJson date (JStr t) options =
     (case (if timestamps options \<and> ISO_TIMESTAMP t then date t else None) of
        Some d \<Rightarrow> FsTimestamp d
      | None \<Rightarrow> FsString t None)"
| "fromJson date (JNum x) options = FsNumber x (isInteger x)"
| "fromJson date (JBool b) options = FsBoolean b"
| "fromJson date (JArr vs) options = FsArray (map (\<lambda>v. fromJson date v options) vs) None"
| "fromJson date (JObj ps) options =
     (case (if shapes options
            then case asVector ps of Some v \<Rightarrow> Some v | None \<Rightarrow> asGeopoint ps else None) of
        Some shaped \<Rightarrow> shaped
      | None \<Rightarrow> FsMap (assign_all (\<lambda>v. fromJson date v options) ps) None)"
  by pat_completeness auto
termination by (relation "measure (\<lambda>(date, v, options). size v)")
  (auto elim!: in_set_conv_decomp [THEN iffD1, THEN exE])

text \<open>A wire value as the object it is, and \<open>isRestShape\<close>.\<close>

fun int_wire_json :: "int_wire \<Rightarrow> json" where
  "int_wire_json (IntText t) = JStr t"
| "int_wire_json (IntNumber x) = JNum x"

definition entry_if :: "string \<Rightarrow> json option \<Rightarrow> (jstring \<times> json) list" where
  "entry_if k v = (case v of None \<Rightarrow> [] | Some x \<Rightarrow> [(js k, x)])"

function rest_json :: "rest_value \<Rightarrow> json" where
  "rest_json w = JObj (
     entry_if ''nullValue'' (if nullValue w then Some JNull else None) @
     entry_if ''booleanValue'' (map_option JBool (booleanValue w)) @
     entry_if ''integerValue'' (map_option int_wire_json (integerValue w)) @
     entry_if ''doubleValue'' (map_option int_wire_json (doubleValue w)) @
     entry_if ''timestampValue'' (map_option JStr (timestampValue w)) @
     entry_if ''stringValue'' (map_option JStr (stringValue w)) @
     entry_if ''bytesValue'' (map_option JStr (bytesValue w)) @
     entry_if ''referenceValue'' (map_option JStr (referenceValue w)) @
     entry_if ''geoPointValue'' (map_option (\<lambda>g. JObj (entry_if ''latitude'' (map_option JNum (fst g)) @
       entry_if ''longitude'' (map_option JNum (snd g)))) (geoPointValue w)) @
     entry_if ''arrayValue'' (case arrayValue w of None \<Rightarrow> None
       | Some (Some vs, c) \<Rightarrow> Some (JObj (entry_if ''values'' (Some (JArr (map rest_json vs))) @
           entry_if ''firenookCount'' (map_option JNum c)))
       | Some (None, c) \<Rightarrow> Some (JObj (entry_if ''firenookCount'' (map_option JNum c)))) @
     entry_if ''mapValue'' (case mapValue w of None \<Rightarrow> None
       | Some (Some fs, c) \<Rightarrow> Some (JObj (entry_if ''fields'' (Some (JObj (map (\<lambda>p. (fst p, rest_json (snd p))) fs))) @
           entry_if ''firenookCount'' (map_option JNum c)))
       | Some (None, c) \<Rightarrow> Some (JObj (entry_if ''firenookCount'' (map_option JNum c)))) @
     entry_if ''firenookElided'' (map_option JNum (firenookElided w)))"
  by pat_completeness auto
termination by (relation "measure size") (auto dest: size_array size_map)

declare rest_json.simps [simp del]

definition REST_VALUE_KEYS :: "jstring list" where
  "REST_VALUE_KEYS = map js [''nullValue'', ''booleanValue'', ''integerValue'', ''doubleValue'', ''timestampValue'',
     ''stringValue'', ''bytesValue'', ''referenceValue'', ''geoPointValue'', ''arrayValue'', ''mapValue'']"

definition isRestShape :: "(jstring \<times> json) list \<Rightarrow> bool" where
  "isRestShape ps \<longleftrightarrow> ps \<noteq> [] \<and>
     list_all (\<lambda>p. case snd p of JObj entries \<Rightarrow> length entries = 1 \<and> fst (hd entries) \<in> set REST_VALUE_KEYS | _ \<Rightarrow> False) ps"

end
