(* ===== verification/Firestore_Codec.thy ===== *)
theory Firestore_Codec
  imports Firestore_Value JS_Object
begin

text \<open>
  The wire codec of Firestore values gives back what it was given: numbers survive as text, and a
  complete value in the wire's exact form is decoded and encoded to itself.
\<close>

section \<open>Numbers as text\<close>

lemma num_text_units: "u \<in> set (num_text (Fin x)) \<Longrightarrow> u \<in> {43, 45, 46, 101} \<or> is_digit u"
proof -
  have "u \<in> {43, 45, 46, 101} \<or> is_digit u" if "u \<in> set (positive_text y)" for y
  proof -
    obtain k s n where d: "shortest_digits y = (k, s, n)" by (cases "shortest_digits y")
    have "v \<in> set (show_nat m) \<Longrightarrow> is_digit v" "v \<in> set (zeros m) \<Longrightarrow> is_digit v" for v m
      using show_nat_is_digit zeros_digits(1) by (auto simp: list_all_iff)
    then show ?thesis using that unfolding positive_text_def d
      by (auto simp: Let_def is_digit_def [of 48] split: if_splits dest!: in_set_takeD in_set_dropD)
  qed
  moreover assume "u \<in> set (num_text (Fin x))"
  ultimately show ?thesis by (auto simp: is_digit_def [of 48] split: if_splits)
qed

lemma dropWhile_none: "\<forall>c\<in>set s. \<not> P c \<Longrightarrow> dropWhile P s = s"
  by (cases s) auto

lemma trim_white_id: "\<forall>c\<in>set s. \<not> js_white c \<Longrightarrow> trim_white s = s"
  by (simp add: trim_white_def dropWhile_none)

lemma trim_num_text [simp]: "trim_white (num_text (Fin x)) = num_text (Fin x)"
  by (rule trim_white_id) (auto dest!: num_text_units simp: js_white_def is_digit_def simp del: num_text.simps)

lemma read_unsigned_all: "read_unsigned s = Some (y, []) \<Longrightarrow> all_decimal s = Some y"
  by (auto simp: read_unsigned_def all_decimal_def Let_def split: if_splits option.splits)

lemma to_number_text:
  assumes "is_double x"
  shows "to_number (num_text (Fin x)) = Fin x"
proof -
  let ?s = "num_text (Fin x)"
  have r: "read_number ?s = Some (Fin x, [])"
    using read_number_text [OF assms, of "[]"] by (simp add: number_end_def del: num_text.simps)
  have no: "u \<notin> set ?s" if "u \<notin> {43, 45, 46, 101}" "\<not> is_digit u" for u
    using num_text_units that by blast
  have "radix_of ?s = None"
  proof -
    have "take 2 ?s \<noteq> [48, c]" if "c \<in> {120, 88, 111, 79, 98, 66}" for c
    proof
      assume "take 2 ?s = [48, c]"
      then have "c \<in> set ?s" by (metis in_set_takeD list.set_intros(1,2))
      with no [of c] that show False by (auto simp: is_digit_def)
    qed
    then show ?thesis by (simp add: radix_of_def del: num_text.simps)
  qed
  moreover have "?s \<noteq> []" and h: "hd ?s = 45 \<or> is_digit (hd ?s)"
    using num_text_head [OF assms] by (simp_all del: num_text.simps)
  moreover have "73 \<notin> set ?s" by (rule no) (simp_all add: is_digit_def)
  moreover from this have "73 \<notin> set (tl ?s)" by (metis list.sel(2) list.set_sel(2))
  moreover have "73 \<in> set (js ''Infinity'')" by simp
  ultimately show ?thesis using r
    by (auto simp: to_number_def read_number_def Let_def is_digit_def split: if_splits dest!: read_unsigned_all
        simp del: num_text.simps)
qed

lemma safe_integer_text: "isSafeInteger x \<Longrightarrow> to_number (num_text x) = x"
proof -
  assume safe: "isSafeInteger x"
  then obtain r where x: "x = Fin r" and r: "of_int \<lfloor>r\<rfloor> = r" "\<bar>r\<bar> \<le> 9007199254740991"
    by (auto simp: isSafeInteger_def split: jsnum.splits)
  have "of_int \<bar>\<lfloor>r\<rfloor>\<bar> \<le> (of_int 9007199254740991 :: rat)"
    using r(2) by (simp only: of_int_abs r(1) of_int_numeral)
  then have "\<bar>\<lfloor>r\<rfloor>\<bar> \<le> 2 ^ 53" unfolding of_int_le_iff by simp
  then have "is_double r" using toDouble_int [of "\<lfloor>r\<rfloor>"] r(1) by (simp add: is_double_def)
  then show ?thesis using to_number_text x by (simp del: num_text.simps)
qed

section \<open>The exact wire form\<close>

definition wVector :: "jsnum list \<Rightarrow> rest_value" where
  "wVector xs = wMap [(js ''__type__'', wString VECTOR_MARKER), (js ''value'', wArray (map wDouble xs))]"

text \<open>
  A complete wire value as the console itself writes them: one field, integers of at most 53 bits
  in their own text, finite doubles as numbers, references in full, containers with all their
  entries, objects with no key \<open>__proto__\<close>.
\<close>

definition assignable :: "(jstring \<times> 'a) list \<Rightarrow> bool" where
  "assignable ps \<longleftrightarrow> enumerated (map fst ps) \<and> PROTO \<notin> fst ` set ps"

inductive exact :: "rest_value \<Rightarrow> bool" where
  exact_null: "exact wNull"
| exact_boolean: "exact (wBoolean b)"
| exact_integer: "isSafeInteger x \<Longrightarrow> exact (wInteger (IntText (num_text x)))"
| exact_double: "is_finite x \<Longrightarrow> exact (wDouble x)"
| exact_timestamp: "exact (wTimestamp t)"
| exact_string: "exact (wString t)"
| exact_bytes: "exact (wBytes t)"
| exact_reference: "index_text DOCUMENTS_MARKER t \<noteq> None \<Longrightarrow> exact (wReference t)"
| exact_geopoint: "is_finite la \<Longrightarrow> is_finite lo \<Longrightarrow> exact (wGeoPoint la lo)"
| exact_array: "\<forall>v\<in>set vs. exact v \<Longrightarrow> exact (wArray vs)"
| exact_map: "assignable fs \<Longrightarrow> vector_items fs = None \<Longrightarrow> \<forall>p\<in>set fs. exact (snd p) \<Longrightarrow> exact (wMap fs)"
| exact_vector: "\<forall>x\<in>set xs. is_finite x \<Longrightarrow> exact (wVector xs)"

lemma assign_all_plain: "assignable ps \<Longrightarrow> assign_all f ps = map (\<lambda>p. (fst p, f (snd p))) ps"
proof -
  assume p: "assignable ps"
  then have "filter (\<lambda>p. fst p \<noteq> PROTO) ps = ps" by (intro filter_True) (force simp: assignable_def)
  moreover have "obj_of (map (\<lambda>p. (fst p, f (snd p))) ps) = map (\<lambda>p. (fst p, f (snd p))) ps"
    using p by (intro obj_of_enumerated) (simp add: assignable_def comp_def)
  ultimately show ?thesis by (simp add: assign_all_def)
qed

lemma assignable_map: "assignable (map (\<lambda>p. (fst p, f (snd p))) ps) = assignable ps"
  by (simp add: assignable_def comp_def image_image)

lemmas decode_unfold = decodeValue.simps decode_scalar_def decode_last_def wire_defs

lemma decode_wire:
  "decodeValue wNull = FsNull"
  "decodeValue (wBoolean b) = FsBoolean b"
  "decodeValue (wInteger n) = FsNumber (wire_number n) True"
  "decodeValue (wDouble x) = FsNumber x False"
  "decodeValue (wTimestamp t) = FsTimestamp t"
  "decodeValue (wString t) = FsString t None"
  "decodeValue (wBytes t) = FsBytes t None"
  "decodeValue (wReference t) = FsReference t (relativePath t)"
  "decodeValue (wGeoPoint la lo) = FsGeopoint la lo"
  by (simp_all add: decode_unfold or_zero_def)

lemma decode_wArray: "decodeValue (wArray vs) = FsArray (map decodeValue vs) None"
  by (subst decodeValue.simps) (simp add: decode_scalar_def wArray_def)

lemma decode_wMap: "vector_items fs = None \<Longrightarrow> decodeValue (wMap fs) = FsMap (assign_all decodeValue fs) None"
  by (subst decodeValue.simps) (simp add: decode_scalar_def wMap_def)

lemma decode_wVector: "decodeValue (wVector xs) = FsVector xs"
proof -
  have "vector_items [(js ''__type__'', wString VECTOR_MARKER), (js ''value'', wArray (map wDouble xs))] =
      Some (map wDouble xs)"
    by (simp add: vector_items_def wString_def wArray_def)
  moreover have "map (\<lambda>v. or_zero (map_option wire_number (doubleValue v))) (map wDouble xs) = xs"
    by (simp add: comp_def or_zero_def wDouble_def)
  ultimately show ?thesis
    by (subst decodeValue.simps) (simp add: decode_scalar_def wMap_def wVector_def)
qed

lemma encode_decode: "exact w \<Longrightarrow> encodeValue (decodeValue w) documentRoot = w \<and> \<not> isPartial (decodeValue w)"
proof (induction rule: exact.induct)
  case (exact_integer x)
  then show ?case by (simp add: decode_wire safe_integer_text)
next
  case (exact_reference t)
  then show ?case by (simp add: decode_wire)
next
  case (exact_array vs)
  then show ?case by (simp add: decode_wArray map_idI)
next
  case (exact_map fs)
  then have "assign_all decodeValue fs = map (\<lambda>p. (fst p, decodeValue (snd p))) fs"
    by (simp add: assign_all_plain)
  moreover have "assign_all (\<lambda>v. encodeValue v documentRoot) (map (\<lambda>p. (fst p, decodeValue (snd p))) fs) = fs"
    using exact_map by (simp add: assign_all_plain assignable_map comp_def map_idI)
  ultimately show ?case using exact_map by (simp add: decode_wMap)
next
  case (exact_vector xs)
  have "encodeValue (FsVector xs) documentRoot = wVector xs" by (simp add: wVector_def)
  then show ?case by (simp add: decode_wVector)
qed (simp_all add: decode_wire)

text \<open>What does not come back: a wider integer is written as a double, and NaN as a number.\<close>

lemma wide_integer_back:
  "\<not> isSafeInteger (to_number t) \<Longrightarrow>
   encodeValue (decodeValue (wInteger (IntText t))) documentRoot = wDouble (to_number t)"
  by (simp add: decode_wire)

lemma nan_back:
  "encodeValue (decodeValue (RestValue False None None (Some (IntText (js ''NaN''))) None None None None None None None None))
     documentRoot = wDouble NaN"
proof -
  have "to_number (js ''NaN'') = NaN" by code_simp
  then show ?thesis by (simp add: decode_unfold)
qed

section \<open>The shape recognised on import\<close>

definition rest_shaped :: "rest_value \<Rightarrow> bool" where
  "rest_shaped w \<longleftrightarrow> isRestShape [([], rest_json w)]"

lemma rest_shaped_wire:
  "rest_shaped wNull" "rest_shaped (wBoolean b)" "rest_shaped (wInteger n)" "rest_shaped (wDouble x)"
  "rest_shaped (wTimestamp t)" "rest_shaped (wString t)" "rest_shaped (wBytes t)" "rest_shaped (wReference t)"
  "rest_shaped (wGeoPoint la lo)" "rest_shaped (wArray vs)" "rest_shaped (wMap fs)"
  by (simp_all add: rest_shaped_def isRestShape_def rest_json.simps REST_VALUE_KEYS_def entry_if_def wire_defs)

lemma encoded_shaped: "rest_shaped (encodeValue v documentRoot)"
  by (cases v) (simp_all add: rest_shaped_wire)

lemma isRestShape_shaped:
  "isRestShape (map (\<lambda>p. (fst p, rest_json (snd p))) fs) \<longleftrightarrow> fs \<noteq> [] \<and> (\<forall>p\<in>set fs. rest_shaped (snd p))"
  by (auto simp: isRestShape_def rest_shaped_def list_all_iff)

section \<open>Properties\<close>

definition exact_fields :: "(jstring \<times> rest_value) list \<Rightarrow> bool" where
  "exact_fields fs \<longleftrightarrow> assignable fs \<and> (\<forall>p\<in>set fs. exact (snd p))"

text \<open>
  C38. Fields in the form the console itself writes, decoded and encoded again, are the same fields
  in the same order; no decoded value is taken for a partial one; and an import recognises the
  fields as typed, unless there are none. The form asks that nothing was left out of the values,
  that integers have at most 53 bits and doubles are finite, that references are full names and
  that no key is \<open>__proto__\<close>: wider integers come back as doubles, and the engine's texts for NaN and
  the infinities as numbers that JSON cannot carry.
\<close>

theorem wire_unchanged:
  assumes "exact_fields fs"
  shows "encodeFields (decodeFields (Some fs)) documentRoot = fs \<and>
    \<not> list_ex (\<lambda>p. isPartial (snd p)) (decodeFields (Some fs)) \<and>
    (isRestShape (map (\<lambda>p. (fst p, rest_json (snd p))) fs) \<longleftrightarrow> fs \<noteq> [])"
proof -
  have p: "assignable fs" and e: "\<And>p. p \<in> set fs \<Longrightarrow> exact (snd p)"
    using assms by (auto simp: exact_fields_def)
  have d: "decodeFields (Some fs) = map (\<lambda>p. (fst p, decodeValue (snd p))) fs"
    using p by (simp add: decodeFields_def assign_all_plain)
  have "encodeFields (decodeFields (Some fs)) documentRoot = fs"
    unfolding d encodeFields_def using p e
    by (simp add: assign_all_plain assignable_map comp_def map_idI encode_decode)
  moreover have "\<not> list_ex (\<lambda>p. isPartial (snd p)) (decodeFields (Some fs))"
    unfolding d using e encode_decode by (auto simp: list_ex_iff)
  moreover have "\<forall>p\<in>set fs. rest_shaped (snd p)"
    using e encode_decode encoded_shaped by metis
  ultimately show ?thesis by (simp add: isRestShape_shaped)
qed

definition sample_wire :: "(jstring \<times> rest_value) list" where
  "sample_wire =
     [(js ''age'', wInteger (IntText (num_text (Fin 36)))),
      (js ''boss'', wReference (js ''projects/p/databases/d/documents/users/u1'')),
      (js ''spot'', wMap [(js ''at'', wVector [Fin 1, Fin (1/2)]), (js ''tags'', wArray [wString (js ''a''), wNull])])]"

theorem wire_unchanged_witness:
  "exact_fields sample_wire \<and>
   encodeFields (decodeFields (Some sample_wire)) (js ''projects/p/databases/d/documents'') = sample_wire \<and>
   isRestShape (map (\<lambda>p. (fst p, rest_json (snd p))) sample_wire)"
proof -
  have "exact (snd p)" if "p \<in> set sample_wire" for p
    using that unfolding sample_wire_def
    by (auto intro!: exact.intros simp: is_finite_def isSafeInteger_def DOCUMENTS_MARKER_def assignable_def enumerated_def
        PROTO_def vector_items_def index_key_def is_digit_def simp del: num_text.simps)
  then have "exact_fields sample_wire"
    by (auto simp: exact_fields_def assignable_def sample_wire_def enumerated_def PROTO_def index_key_def is_digit_def
        simp del: num_text.simps)
  moreover have "sample_wire \<noteq> []" by (simp add: sample_wire_def)
  ultimately show ?thesis using wire_unchanged by blast
qed

end
