(* ===== verification/Firestore_Editor.thy ===== *)
theory Firestore_Editor
  imports Firestore_Codec JS_Spelling
begin

text \<open>
  The text of a Firestore value, \<open>firestore/value.ts\<close>: what a grid cell shows, what an editor
  starts with, and what an editor's text is read as. The lemmas show that the editor reads its own
  text back and that whatever it accepts is a well-formed value of the type asked for.
\<close>

section \<open>Writing\<close>

fun fsType :: "fs_value \<Rightarrow> fs_type" where
  "fsType (FsString s elided) = StringType"
| "fsType (FsNumber x integer) = NumberType"
| "fsType (FsBoolean b) = BooleanType"
| "fsType (FsTimestamp t) = TimestampType"
| "fsType (FsReference full path) = ReferenceType"
| "fsType (FsGeopoint la lo) = GeopointType"
| "fsType (FsMap fs count) = MapType"
| "fsType (FsArray items count) = ArrayType"
| "fsType (FsBytes b elided) = BytesType"
| "fsType FsNull = NullType"
| "fsType (FsVector xs) = VectorType"

text \<open>\<open>formatNumber\<close>: an integer with its digits in groups of three, any other number as it is.\<close>

fun group_digits :: "jstring \<Rightarrow> jstring" where
  "group_digits (a # b # c # d # r) = a # b # c # 44 # group_digits (d # r)"
| "group_digits r = r"

definition grouped :: "int \<Rightarrow> jstring" where
  "grouped i = (if i < 0 then [45] else []) @ rev (group_digits (rev (show_nat (nat \<bar>i\<bar>))))"

definition formatNumber :: "jsnum \<Rightarrow> jstring" where
  "formatNumber x = (case x of Fin r \<Rightarrow> if isInteger x then grouped \<lfloor>r\<rfloor> else num_text x | _ \<Rightarrow> num_text x)"

definition count_text :: "string \<Rightarrow> jsnum \<Rightarrow> jstring" where
  "count_text noun n = num_text n @ 32 # js noun @ (if n = Fin 1 then [] else [115])"

fun displayValue :: "fs_value \<Rightarrow> jstring" where
  "displayValue (FsString s elided) = s"
| "displayValue (FsNumber x integer) = formatNumber x"
| "displayValue (FsBoolean b) = (if b then js ''true'' else js ''false'')"
| "displayValue (FsTimestamp t) = t"
| "displayValue (FsReference full path) = path"
| "displayValue (FsGeopoint la lo) = num_text la @ js '', '' @ num_text lo"
| "displayValue (FsMap fs count) =
     (let n = entryCount (FsMap fs count)
      in if n = Fin 0 then js ''{}'' else js ''{ '' @ count_text ''field'' n @ js '' }'')"
| "displayValue (FsArray items count) =
     (let n = entryCount (FsArray items count)
      in if n = Fin 0 then js ''[]'' else js ''[ '' @ count_text ''item'' n @ js '' ]'')"
| "displayValue (FsBytes b elided) = show_nat ((length b * 3 + 3) div 4) @ js '' bytes''"
| "displayValue (FsVector xs) = js ''vector('' @ show_nat (length xs) @ js '')''"
| "displayValue FsNull = js ''null''"

text \<open>\<open>JSON.stringify\<close>: of an array of numbers, and of any value over lines two spaces apart.\<close>

definition finite_text :: "jsnum \<Rightarrow> jstring" where
  "finite_text x = (if is_finite x then num_text x else js ''null'')"

definition numbers_text :: "jsnum list \<Rightarrow> jstring" where
  "numbers_text xs = 91 # join_with [44] (map finite_text xs) @ [93]"

definition block :: "nat \<Rightarrow> jstring \<Rightarrow> nat \<Rightarrow> jstring list \<Rightarrow> jstring" where
  "block a indent b parts =
     (if parts = [] then [a, b]
      else a # 10 # indent @ [32, 32] @ join_with (44 # 10 # indent @ [32, 32]) parts @ 10 # indent @ [b])"

function pretty_json :: "jstring \<Rightarrow> json \<Rightarrow> jstring" where
  "pretty_json indent (JArr vs) = block 91 indent 93 (map (pretty_json (indent @ [32, 32])) vs)"
| "pretty_json indent (JObj ps) =
     block 123 indent 125 (map (\<lambda>p. quote_json (fst p) @ 58 # 32 # pretty_json (indent @ [32, 32]) (snd p))
       (filter (\<lambda>p. snd p \<noteq> JUndefined) ps))"
| "pretty_json indent JUndefined = js ''null''"
| "pretty_json indent JNull = js ''null''"
| "pretty_json indent (JBool b) = (if b then js ''true'' else js ''false'')"
| "pretty_json indent (JNum x) = finite_text x"
| "pretty_json indent (JStr s) = quote_json s"
  by pat_completeness auto
termination by (relation "measure (size \<circ> snd)") (auto elim!: in_set_conv_decomp [THEN iffD1, THEN exE])

fun editorText :: "fs_value \<Rightarrow> jstring" where
  "editorText (FsString s elided) = s"
| "editorText (FsNumber x integer) = num_text x"
| "editorText (FsBoolean b) = (if b then js ''true'' else js ''false'')"
| "editorText (FsTimestamp t) = t"
| "editorText (FsReference full path) = path"
| "editorText (FsGeopoint la lo) = num_text la @ js '', '' @ num_text lo"
| "editorText (FsBytes b elided) = b"
| "editorText (FsVector xs) = numbers_text xs"
| "editorText (FsMap fs count) = pretty_json [] (JObj (fieldsToJson fs))"
| "editorText (FsArray items count) = pretty_json [] (JArr (map toJson items))"
| "editorText FsNull = js ''null''"

section \<open>Reading\<close>

text \<open>The shapes \<open>/^-?\d+$/\<close> and \<open>/^[A-Za-z0-9+/]*={0,2}$/\<close>.\<close>

definition whole_shape :: "jstring \<Rightarrow> bool" where
  "whole_shape s \<longleftrightarrow> (let ds = (if s \<noteq> [] \<and> hd s = 45 then tl s else s) in ds \<noteq> [] \<and> list_all is_digit ds)"

definition base64_unit :: "nat \<Rightarrow> bool" where
  "base64_unit c \<longleftrightarrow> (65 \<le> c \<and> c \<le> 90) \<or> (97 \<le> c \<and> c \<le> 122) \<or> is_digit c \<or> c = 43 \<or> c = 47"

definition base64_shape :: "jstring \<Rightarrow> bool" where
  "base64_shape s \<longleftrightarrow> dropWhile base64_unit s \<in> {[], [61], [61, 61]}"

text \<open>\<open>replace(/^\/+|\/+$/g, '')\<close>.\<close>

definition strip_slashes :: "jstring \<Rightarrow> jstring" where
  "strip_slashes p = rev (dropWhile (\<lambda>c. c = 47) (rev (dropWhile (\<lambda>c. c = 47) p)))"

definition parse_number :: "jstring \<Rightarrow> jstring + fs_value" where
  "parse_number trimmed =
     (if trimmed = [] \<or> to_number trimmed = NaN then Inl (js ''Not a number'')
      else Inr (FsNumber (to_number trimmed) (whole_shape trimmed)))"

definition parse_boolean :: "jstring \<Rightarrow> jstring + fs_value" where
  "parse_boolean trimmed =
     (if trimmed = js ''true'' then Inr (FsBoolean True)
      else if trimmed = js ''false'' then Inr (FsBoolean False)
      else Inl (js ''true or false''))"

definition parse_timestamp :: "date_reader \<Rightarrow> jstring \<Rightarrow> jstring + fs_value" where
  "parse_timestamp date trimmed =
     (case (if trimmed = [] then None else date trimmed) of
        None \<Rightarrow> Inl (js ''Not a date; use ISO 8601, e.g. 2026-09-20T09:00:00Z'')
      | Some d \<Rightarrow> Inr (FsTimestamp d))"

definition parse_reference :: "jstring \<Rightarrow> jstring + fs_value" where
  "parse_reference trimmed =
     (let path = strip_slashes (relativePath trimmed); parts = split_on 47 path
      in if path = [] \<or> length parts mod 2 \<noteq> 0 \<or> list_ex (\<lambda>p. p = []) parts
         then Inl (js ''A document path has an even number of segments'')
         else Inr (FsReference path path))"

definition parse_geopoint :: "jstring \<Rightarrow> jstring + fs_value" where
  "parse_geopoint trimmed =
     (case map (\<lambda>part. to_number (trim_white part)) (split_on 44 trimmed) of
        [la, lo] \<Rightarrow>
          if la = NaN \<or> lo = NaN then Inl (js ''latitude, longitude'')
          else if abs_over la 90 \<or> abs_over lo 180
          then Inl (js ''Latitude within '' @ 177 # js ''90, longitude within '' @ 177 # js ''180'')
          else Inr (FsGeopoint la lo)
      | _ \<Rightarrow> Inl (js ''latitude, longitude''))"

definition parse_bytes :: "jstring \<Rightarrow> jstring + fs_value" where
  "parse_bytes trimmed = (if base64_shape trimmed then Inr (FsBytes trimmed None) else Inl (js ''Base64 only''))"

definition parse_vector :: "jstring \<Rightarrow> jstring + fs_value" where
  "parse_vector trimmed =
     (case parse_json trimmed of
        Some (JArr vs) \<Rightarrow> (case those (map as_number vs) of
            Some xs \<Rightarrow> Inr (FsVector xs) | None \<Rightarrow> Inl (js ''A JSON array of numbers''))
      | _ \<Rightarrow> Inl (js ''A JSON array of numbers''))"

definition parse_container :: "date_reader \<Rightarrow> fs_type \<Rightarrow> jstring \<Rightarrow> jstring + fs_value" where
  "parse_container date type trimmed =
     (case parse_json trimmed of
        None \<Rightarrow> Inl (js ''Not valid JSON'')
      | Some parsed \<Rightarrow>
          let v = fromJson date parsed no_options
          in if fsType v \<noteq> type then Inl (js ''JSON '' @ (if type = MapType then js ''object'' else js ''array''))
             else Inr v)"

definition parseEditorText :: "date_reader \<Rightarrow> fs_type \<Rightarrow> jstring \<Rightarrow> jstring + fs_value" where
  "parseEditorText date type t =
     (let trimmed = trim_white t in
      case type of
        StringType \<Rightarrow> Inr (FsString t None)
      | NumberType \<Rightarrow> parse_number trimmed
      | BooleanType \<Rightarrow> parse_boolean trimmed
      | TimestampType \<Rightarrow> parse_timestamp date trimmed
      | ReferenceType \<Rightarrow> parse_reference trimmed
      | GeopointType \<Rightarrow> parse_geopoint trimmed
      | BytesType \<Rightarrow> parse_bytes trimmed
      | NullType \<Rightarrow> Inr FsNull
      | VectorType \<Rightarrow> parse_vector trimmed
      | MapType \<Rightarrow> parse_container date MapType trimmed
      | ArrayType \<Rightarrow> parse_container date ArrayType trimmed)"

definition VALUE_TYPES :: "fs_type list" where
  "VALUE_TYPES = [StringType, NumberType, BooleanType, MapType, ArrayType, NullType, TimestampType,
     GeopointType, ReferenceType, BytesType, VectorType]"

text \<open>\<open>emptyValue\<close>; the time of day is an argument.\<close>

fun emptyValue :: "jstring \<Rightarrow> fs_type \<Rightarrow> fs_value" where
  "emptyValue now StringType = FsString [] None"
| "emptyValue now NumberType = FsNumber (Fin 0) True"
| "emptyValue now BooleanType = FsBoolean False"
| "emptyValue now TimestampType = FsTimestamp now"
| "emptyValue now ReferenceType = FsReference [] []"
| "emptyValue now GeopointType = FsGeopoint (Fin 0) (Fin 0)"
| "emptyValue now MapType = FsMap [] None"
| "emptyValue now ArrayType = FsArray [] None"
| "emptyValue now BytesType = FsBytes [] None"
| "emptyValue now VectorType = FsVector []"
| "emptyValue now NullType = FsNull"

section \<open>JSON text read back\<close>

text \<open>JSON that text carries without loss: finite doubles, UTF-16 units, objects as enumerated.\<close>

function settled :: "json \<Rightarrow> bool" where
  "settled (JArr vs) \<longleftrightarrow> (\<forall>v\<in>set vs. settled v)"
| "settled (JObj ps) \<longleftrightarrow> enumerated (map fst ps) \<and> (\<forall>p\<in>set ps. units_ok (fst p) \<and> settled (snd p))"
| "settled (JNum x) \<longleftrightarrow> (case x of Fin r \<Rightarrow> is_double r | _ \<Rightarrow> False)"
| "settled (JStr s) \<longleftrightarrow> units_ok s"
| "settled JUndefined \<longleftrightarrow> False"
| "settled JNull \<longleftrightarrow> True"
| "settled (JBool b) \<longleftrightarrow> True"
  by pat_completeness auto
termination by (relation "measure size") (auto elim!: in_set_conv_decomp [THEN iffD1, THEN exE])

lemma spells_finite: "is_double r \<Longrightarrow> spells (finite_text (Fin r)) (JNum (Fin r))"
  by (simp add: finite_text_def is_finite_def spells_number del: num_text.simps)

lemma spells_block:
  assumes "blank indent" and "\<forall>v\<in>set vs. spells (f v) v"
  shows "spells (block 91 indent 93 (map f vs)) (JArr vs)"
proof (cases "vs = []")
  case True
  then show ?thesis using spells_no_items [of "[]"] by (simp add: block_def)
next
  case False
  have "spells_items (join_with (44 # 10 # indent @ [32, 32]) (map f vs) @ 10 # indent) (map (\<lambda>v. v) vs)"
    using assms False by (intro spells_join_items) (simp_all add: json_space_def)
  then have "spells (91 # (10 # indent @ [32, 32]) @ (join_with (44 # 10 # indent @ [32, 32]) (map f vs) @ 10 # indent) @ [93]) (JArr vs)"
    using assms(1) by (intro spells_array) (simp_all add: json_space_def)
  with False show ?thesis by (simp add: block_def)
qed

lemma spells_block_members:
  assumes "blank indent" and "enumerated (map fst ps)" and "\<forall>p\<in>set ps. units_ok (fst p) \<and> spells (f (snd p)) (snd p)"
  shows "spells (block 123 indent 125 (map (\<lambda>p. quote_json (fst p) @ 58 # 32 # f (snd p)) ps)) (JObj ps)"
proof (cases "ps = []")
  case True
  then show ?thesis using spells_no_members [of "[]"] by (simp add: block_def)
next
  case False
  let ?m = "map (\<lambda>p. quote_json (fst p) @ 58 # [32] @ f (snd p)) ps"
  have "spells_members (join_with (44 # 10 # indent @ [32, 32]) ?m @ 10 # indent) (map (\<lambda>p. (fst p, snd p)) ps)"
    using assms False by (intro spells_join_members) (simp_all add: json_space_def)
  then have "spells (123 # (10 # indent @ [32, 32]) @ (join_with (44 # 10 # indent @ [32, 32]) ?m @ 10 # indent) @ [125]) (JObj (obj_of ps))"
    using assms(1) by (intro spells_object) (simp_all add: json_space_def)
  with False show ?thesis by (simp add: block_def obj_of_enumerated [OF assms(2)])
qed

lemma spells_pretty: "settled v \<Longrightarrow> blank indent \<Longrightarrow> spells (pretty_json indent v) v"
proof (induction indent v rule: pretty_json.induct)
  case (1 indent vs)
  then show ?case by (auto intro!: spells_block simp: json_space_def)
next
  case (2 indent ps)
  have "snd p \<noteq> JUndefined" if "p \<in> set ps" for p using 2(2) that by force
  then have "filter (\<lambda>p. snd p \<noteq> JUndefined) ps = ps" by simp
  with 2 show ?case using spells_block_members [of indent ps "pretty_json (indent @ [32, 32])"]
    by (simp add: json_space_def)
next
  case (5 indent b)
  then show ?case using spells_true spells_false by simp
next
  case (6 indent x)
  then show ?case by (cases x) (simp_all add: spells_finite)
qed (use spells_null in \<open>simp_all add: spells_string\<close>)

interpretation view_text: json_writer "pretty_json []" "\<lambda>v. v" settled
  by unfold_locales (simp add: spells_pretty)

lemma spells_numbers: "\<forall>x\<in>set xs. settled (JNum x) \<Longrightarrow> spells (numbers_text xs) (JArr (map JNum xs))"
proof (cases "xs = []")
  case True
  then show ?thesis using spells_no_items [of "[]"] by (simp add: numbers_text_def)
next
  case False
  assume x: "\<forall>x\<in>set xs. settled (JNum x)"
  have "spells (finite_text x) (JNum x)" if "x \<in> set xs" for x
    using bspec [OF x that] by (cases x) (simp_all add: spells_finite)
  then have "spells_items (join_with [44] (map finite_text xs) @ []) (map JNum xs)"
    using False by (intro spells_join_items) simp_all
  then show ?thesis using spells_array [of "[]"] by (simp add: numbers_text_def)
qed

section \<open>Plain JSON read back\<close>

text \<open>The values that plain JSON gives back with the given options.\<close>

function stable :: "date_reader \<Rightarrow> from_json_options \<Rightarrow> fs_value \<Rightarrow> bool" where
  "stable date options (FsString s elided) \<longleftrightarrow>
     elided = None \<and> \<not> (timestamps options \<and> ISO_TIMESTAMP s \<and> date s \<noteq> None)"
| "stable date options (FsNumber x integer) \<longleftrightarrow> integer = isInteger x"
| "stable date options (FsBoolean b) \<longleftrightarrow> True"
| "stable date options (FsTimestamp t) \<longleftrightarrow> timestamps options \<and> ISO_TIMESTAMP t \<and> date t = Some t"
| "stable date options (FsReference full path) \<longleftrightarrow> False"
| "stable date options (FsGeopoint la lo) \<longleftrightarrow>
     shapes options \<and> is_finite la \<and> is_finite lo \<and> \<not> abs_over la 90 \<and> \<not> abs_over lo 180"
| "stable date options (FsMap fs count) \<longleftrightarrow>
     count = None \<and> assignable fs \<and> (\<forall>p\<in>set fs. stable date options (snd p)) \<and>
     (shapes options \<longrightarrow> asVector (fieldsToJson fs) = None \<and> asGeopoint (fieldsToJson fs) = None)"
| "stable date options (FsArray items count) \<longleftrightarrow> count = None \<and> (\<forall>v\<in>set items. stable date options v)"
| "stable date options (FsBytes b elided) \<longleftrightarrow> False"
| "stable date options (FsVector xs) \<longleftrightarrow> shapes options"
| "stable date options FsNull \<longleftrightarrow> True"
  by pat_completeness auto
termination by (relation "measure (\<lambda>(date, options, v). size v)")
  (auto elim!: in_set_conv_decomp [THEN iffD1, THEN exE])

lemma fieldsToJson_plain: "assignable fs \<Longrightarrow> fieldsToJson fs = map (\<lambda>p. (fst p, toJson (snd p))) fs"
  by (simp add: fieldsToJson_def assign_all_plain)

lemma those_numbers: "those (map as_number (map JNum xs)) = Some xs"
  by (induction xs) simp_all

lemma from_map:
  assumes "assignable fs" and "\<forall>p\<in>set fs. fromJson date (toJson (snd p)) options = snd p"
    and "shapes options \<longrightarrow> asVector (fieldsToJson fs) = None \<and> asGeopoint (fieldsToJson fs) = None"
  shows "fromJson date (JObj (fieldsToJson fs)) options = FsMap fs None"
proof -
  have "assign_all (\<lambda>v. fromJson date v options) (fieldsToJson fs) = fs"
    using assms(1,2) by (simp add: fieldsToJson_plain assign_all_plain assignable_map comp_def map_idI)
  with assms(3) show ?thesis by simp
qed

lemma json_back: "stable date options v \<Longrightarrow> fromJson date (toJson v) options = v"
proof (induction date options v rule: stable.induct)
  case (6 date options la lo)
  have "asVector [(js ''latitude'', JNum la), (js ''longitude'', JNum lo)] = None"
    by (simp add: asVector_def)
  moreover have "asGeopoint [(js ''latitude'', JNum la), (js ''longitude'', JNum lo)] = Some (FsGeopoint la lo)"
    using 6 by (simp add: asGeopoint_def)
  ultimately show ?case using 6 by simp
next
  case (7 date options fs count)
  then have "fromJson date (JObj (fieldsToJson fs)) options = FsMap fs None" by (intro from_map) auto
  with 7 show ?case by (simp add: fieldsToJson_def)
next
  case (8 date options items count)
  then show ?case by (auto simp: map_idI)
next
  case (10 date options xs)
  have "asVector [(js ''__type__'', JStr VECTOR_MARKER), (js ''value'', JArr (map JNum xs))] = Some (FsVector xs)"
    using those_numbers [of xs] by (simp add: asVector_def del: map_map)
  with 10 show ?case by simp
qed auto

section \<open>The editor's text read back\<close>

lemma drop_ends:
  assumes "s \<noteq> []" and "\<not> P (hd s)" and "\<not> P (last s)"
  shows "rev (dropWhile P (rev (dropWhile P s))) = s"
proof -
  have "dropWhile P s = s" using assms(1,2) by (cases s) auto
  moreover have "dropWhile P (rev s) = rev s" using assms(1,3) by (cases s rule: rev_cases) auto
  ultimately show ?thesis by simp
qed

lemmas trim_ends = drop_ends [of _ js_white, folded trim_white_def]

lemma js_white_marks [simp]:
  "\<not> js_white 91" "\<not> js_white 93" "\<not> js_white 123" "\<not> js_white 125" "js_white 32" "\<not> js_white 44"
  by (simp_all add: js_white_def)

lemma trim_block: "\<not> js_white a \<Longrightarrow> \<not> js_white b \<Longrightarrow> trim_white (block a indent b parts) = block a indent b parts"
  by (rule trim_ends) (simp_all add: block_def)

lemma num_text_not_white: "u \<in> set (num_text (Fin x)) \<Longrightarrow> \<not> js_white u"
  using num_text_units [of u x] by (auto simp: js_white_def is_digit_def simp del: num_text.simps)

lemma num_text_no_comma: "44 \<notin> set (num_text (Fin x))"
  using num_text_units [of 44 x] by (auto simp: is_digit_def simp del: num_text.simps)

text \<open>Numbers and places.\<close>

definition double_value :: "jsnum \<Rightarrow> bool" where
  "double_value x \<longleftrightarrow> (case x of Fin r \<Rightarrow> is_double r | _ \<Rightarrow> False)"

lemma parse_number_text:
  "double_value x \<Longrightarrow> parse_number (trim_white (num_text x)) = Inr (FsNumber x (whole_shape (num_text x)))"
  using num_text_head by (cases x) (auto simp: double_value_def parse_number_def to_number_text simp del: num_text.simps)

lemma parse_geopoint_text:
  assumes "double_value la" "double_value lo" "\<not> abs_over la 90" "\<not> abs_over lo 180"
  shows "parse_geopoint (trim_white (num_text la @ js '', '' @ num_text lo)) = Inr (FsGeopoint la lo)"
proof -
  obtain x y where x: "la = Fin x" "is_double x" and y: "lo = Fin y" "is_double y"
    using assms(1,2) by (auto simp: double_value_def split: jsnum.splits)
  let ?s = "num_text la @ 44 # 32 # num_text lo"
  have ne: "num_text la \<noteq> []" "num_text lo \<noteq> []"
    using num_text_head x y by (simp_all del: num_text.simps)
  then have "\<not> js_white (hd ?s)" "\<not> js_white (last ?s)"
    using x(1) y(1) num_text_not_white [OF hd_in_set] num_text_not_white [OF last_in_set]
    by (simp_all del: num_text.simps)
  then have "trim_white ?s = ?s" using ne by (intro trim_ends) simp_all
  moreover have "split_on 44 ?s = [num_text la, 32 # num_text lo]"
    using num_text_no_comma x(1) y(1) by (simp add: split_on_piece split_on_whole del: num_text.simps)
  moreover have "trim_white (32 # num_text lo) = num_text lo"
    using trim_num_text [of y] y(1) by (simp add: trim_white_def del: num_text.simps trim_num_text)
  ultimately show ?thesis
    using assms x y by (simp add: parse_geopoint_def to_number_text del: num_text.simps)
qed

text \<open>Paths and bytes.\<close>

definition document_path :: "jstring \<Rightarrow> bool" where
  "document_path p \<longleftrightarrow> p \<noteq> [] \<and> length (split_on 47 p) mod 2 = 0 \<and> \<not> list_ex (\<lambda>q. q = []) (split_on 47 p)"

lemma split_on_last: "\<exists>q qs. split_on c (p @ [c]) = q # qs @ [[]]"
proof (induction p)
  case (Cons x p)
  then obtain q qs where "split_on c (p @ [c]) = q # qs @ [[]]" by blast
  then show ?case by (cases "x = c") (force intro: exI [of _ "q # qs"])+
qed simp

lemma strip_document_path: "document_path p \<Longrightarrow> strip_slashes p = p"
proof -
  assume p: "document_path p"
  have "hd p \<noteq> 47" using p by (cases p) (auto simp: document_path_def)
  moreover have "last p \<noteq> 47"
  proof
    assume "last p = 47"
    then have "p = butlast p @ [47]" using p by (metis append_butlast_last_id document_path_def)
    then have "[] \<in> set (split_on 47 p)" by (metis in_set_conv_decomp list.set_intros(2) split_on_last)
    with p show False by (auto simp: document_path_def list_ex_iff)
  qed
  ultimately show ?thesis
    using p drop_ends [of p "\<lambda>c. c = 47"] by (simp add: strip_slashes_def document_path_def)
qed

lemma parse_reference_text:
  assumes "document_path p" and "index_text DOCUMENTS_MARKER p = None" and "trim_white p = p"
  shows "parse_reference (trim_white p) = Inr (FsReference p p)"
  using assms strip_document_path [OF assms(1)]
  by (simp add: parse_reference_def relativePath_def document_path_def)

lemma base64_trim: "base64_shape b \<Longrightarrow> trim_white b = b"
proof -
  assume b: "base64_shape b"
  have "c \<in> set b \<Longrightarrow> base64_unit c \<or> c = 61" for c
  proof -
    assume "c \<in> set b"
    then have "c \<in> set (takeWhile base64_unit b) \<or> c \<in> set (dropWhile base64_unit b)"
      by (metis Un_iff set_append takeWhile_dropWhile_id)
    then show ?thesis using b by (auto simp: base64_shape_def simp del: dropWhile_eq_Nil_conv dest: set_takeWhileD)
  qed
  then show ?thesis by (intro trim_white_id) (force simp: base64_unit_def is_digit_def js_white_def)
qed

text \<open>
  The values the editor can carry. A number's mark \<open>integer\<close> is the one its text has, a reference
  is held by its path or in full, and a map or an array is plain JSON.
\<close>

fun editable :: "date_reader \<Rightarrow> jstring \<Rightarrow> fs_value \<Rightarrow> bool" where
  "editable date documentRoot (FsString s elided) \<longleftrightarrow> elided = None"
| "editable date documentRoot (FsNumber x integer) \<longleftrightarrow> double_value x \<and> integer = whole_shape (num_text x)"
| "editable date documentRoot (FsBoolean b) \<longleftrightarrow> True"
| "editable date documentRoot (FsTimestamp t) \<longleftrightarrow> t \<noteq> [] \<and> trim_white t = t \<and> date t = Some t"
| "editable date documentRoot (FsReference full path) \<longleftrightarrow>
     (full = path \<or> full = documentRoot @ 47 # path) \<and> document_path path \<and>
     index_text DOCUMENTS_MARKER path = None \<and> trim_white path = path"
| "editable date documentRoot (FsGeopoint la lo) \<longleftrightarrow>
     double_value la \<and> double_value lo \<and> \<not> abs_over la 90 \<and> \<not> abs_over lo 180"
| "editable date documentRoot (FsBytes b elided) \<longleftrightarrow> elided = None \<and> base64_shape b"
| "editable date documentRoot (FsVector xs) \<longleftrightarrow> (\<forall>x\<in>set xs. double_value x)"
| "editable date documentRoot (FsMap fs count) \<longleftrightarrow>
     stable date no_options (FsMap fs count) \<and> settled (JObj (fieldsToJson fs))"
| "editable date documentRoot (FsArray items count) \<longleftrightarrow>
     stable date no_options (FsArray items count) \<and> settled (JArr (map toJson items))"
| "editable date documentRoot FsNull \<longleftrightarrow> True"

lemma parse_vector_text:
  assumes "\<forall>x\<in>set xs. double_value x"
  shows "parse_vector (trim_white (numbers_text xs)) = Inr (FsVector xs)"
proof -
  have "trim_white (numbers_text xs) = numbers_text xs" by (rule trim_ends) (simp_all add: numbers_text_def)
  moreover have "parse_json (numbers_text xs) = Some (JArr (map JNum xs))"
    using assms by (intro parse_spelled spells_numbers) (simp add: double_value_def)
  ultimately show ?thesis using those_numbers [of xs] by (simp add: parse_vector_def del: map_map)
qed

lemma parse_container_text:
  assumes "stable date no_options v" and "settled (toJson v)" and "fsType v \<in> {MapType, ArrayType}"
  shows "parse_container date (fsType v) (trim_white (pretty_json [] (toJson v))) = Inr v"
proof -
  have "trim_white (pretty_json [] (toJson v)) = pretty_json [] (toJson v)"
    using assms(3) by (cases v) (simp_all add: trim_block)
  moreover have "parse_json (pretty_json [] (toJson v)) = Some (toJson v)"
    using assms(2) by (rule view_text.parse_written)
  ultimately show ?thesis using json_back [OF assms(1)] by (simp add: parse_container_def)
qed

lemma editor_text_back:
  assumes "editable date documentRoot v"
  shows "parseEditorText date (fsType v) (editorText v) =
    Inr (case v of FsReference full path \<Rightarrow> FsReference path path | _ \<Rightarrow> v)"
proof (cases v)
  case (FsMap fs count)
  then show ?thesis using assms parse_container_text [of date v]
    by (simp add: parseEditorText_def fieldsToJson_def)
next
  case (FsArray items count)
  then show ?thesis using assms parse_container_text [of date v] by (simp add: parseEditorText_def)
next
  case (FsBoolean b)
  then show ?thesis by (simp add: parseEditorText_def parse_boolean_def trim_white_def js_white_def)
next
  case (FsReference full path)
  with assms have "document_path path" "index_text DOCUMENTS_MARKER path = None" "trim_white path = path"
    by auto
  from parse_reference_text [OF this] FsReference show ?thesis by (simp add: parseEditorText_def)
next
  case (FsGeopoint la lo)
  with assms parse_geopoint_text [of la lo] show ?thesis by (simp add: parseEditorText_def)
next
  case (FsBytes b elided)
  with assms base64_trim [of b] show ?thesis by (simp add: parseEditorText_def parse_bytes_def)
qed (use assms in \<open>auto simp: parseEditorText_def parse_number_text parse_vector_text parse_timestamp_def
    simp del: num_text.simps\<close>)

section \<open>What the editor accepts\<close>

function value_ok :: "fs_value \<Rightarrow> bool" where
  "value_ok (FsString s elided) \<longleftrightarrow> elided = None"
| "value_ok (FsNumber x integer) \<longleftrightarrow> x \<noteq> NaN"
| "value_ok (FsBoolean b) \<longleftrightarrow> True"
| "value_ok (FsTimestamp t) \<longleftrightarrow> True"
| "value_ok (FsReference full path) \<longleftrightarrow> full = path \<and> document_path path"
| "value_ok (FsGeopoint la lo) \<longleftrightarrow> is_finite la \<and> is_finite lo \<and> \<not> abs_over la 90 \<and> \<not> abs_over lo 180"
| "value_ok (FsMap fs count) \<longleftrightarrow> count = None \<and> assignable fs \<and> (\<forall>p\<in>set fs. value_ok (snd p))"
| "value_ok (FsArray items count) \<longleftrightarrow> count = None \<and> (\<forall>v\<in>set items. value_ok v)"
| "value_ok (FsBytes b elided) \<longleftrightarrow> elided = None \<and> base64_shape b"
| "value_ok FsNull \<longleftrightarrow> True"
| "value_ok (FsVector xs) \<longleftrightarrow> NaN \<notin> set xs"
  by pat_completeness auto
termination by (relation "measure size") (auto elim!: in_set_conv_decomp [THEN iffD1, THEN exE])

function no_nan :: "json \<Rightarrow> bool" where
  "no_nan (JArr vs) \<longleftrightarrow> (\<forall>v\<in>set vs. no_nan v)"
| "no_nan (JObj ps) \<longleftrightarrow> (\<forall>p\<in>set ps. no_nan (snd p))"
| "no_nan (JNum x) \<longleftrightarrow> x \<noteq> NaN"
| "no_nan (JStr s) \<longleftrightarrow> True"
| "no_nan JUndefined \<longleftrightarrow> True"
| "no_nan JNull \<longleftrightarrow> True"
| "no_nan (JBool b) \<longleftrightarrow> True"
  by pat_completeness auto
termination by (relation "measure size") (auto elim!: in_set_conv_decomp [THEN iffD1, THEN exE])

lemma toDouble_number: "toDouble x \<noteq> NaN"
  by (simp add: toDouble_def Let_def)

lemma read_number_number: "read_number s = Some (x, r) \<Longrightarrow> x \<noteq> NaN"
  using toDouble_number by (auto simp: read_number_def split: if_splits)

lemma read_word_word: "read_word s = Some (v, r) \<Longrightarrow> no_nan v"
  by (auto simp: read_word_def split: if_splits)

lemma read_no_nan:
  "read_value fuel s = Some (v, r) \<Longrightarrow> no_nan v"
  "read_items fuel s = Some (vs, r) \<Longrightarrow> \<forall>v\<in>set vs. no_nan v"
  "read_members fuel s = Some (ps, r) \<Longrightarrow> \<forall>p\<in>set ps. no_nan (snd p)"
proof (induction fuel s and fuel s and fuel s arbitrary: v r and vs r and ps r
    rule: read_value_read_items_read_members.induct)
  case (2 fuel s)
  then show ?case
    by (auto split: list.splits if_splits dest!: read_number_number read_word_word obj_of_in) fastforce
next
  case (4 fuel s)
  then show ?case by (auto split: list.splits if_splits option.splits)
next
  case (6 fuel s)
  then show ?case by (auto split: list.splits if_splits option.splits) fastforce
qed simp_all

lemma parse_no_nan: "parse_json s = Some v \<Longrightarrow> no_nan v"
  by (auto simp: parse_json_def split: option.splits if_splits dest: read_no_nan(1) simp del: read_value.simps)

lemma those_in: "those (map as_number vs) = Some xs \<Longrightarrow> x \<in> set xs \<Longrightarrow> JNum x \<in> set vs"
proof (induction vs arbitrary: xs)
  case (Cons v vs)
  then show ?case by (cases v) (auto split: option.splits)
qed simp

lemma asVector_ok: "asVector ps = Some v \<Longrightarrow> no_nan (JObj ps) \<Longrightarrow> value_ok v"
proof -
  assume "asVector ps = Some v" and ok: "no_nan (JObj ps)"
  then obtain vs xs where vs: "map_of ps (js ''value'') = Some (JArr vs)" and xs: "those (map as_number vs) = Some xs"
    and v: "v = FsVector xs"
    by (auto simp: asVector_def split: if_splits option.splits json.splits)
  have "no_nan (JArr vs)" using ok map_of_SomeD [OF vs] by force
  then have "NaN \<notin> set xs" using those_in [OF xs, of NaN] by force
  then show ?thesis by (simp add: v)
qed

lemma asGeopoint_ok: "asGeopoint ps = Some v \<Longrightarrow> value_ok v"
  by (auto simp: asGeopoint_def split: if_splits option.splits)

lemma assign_all_in: "p \<in> set (assign_all f ps) \<Longrightarrow> \<exists>q\<in>set ps. snd p = f (snd q)"
  by (force simp: assign_all_def dest!: obj_of_in)

lemma assignable_assign: "assignable (assign_all f ps)"
  unfolding assignable_def assign_all_def by (auto simp: enumerated_obj_of obj_of_keys)

lemma fromJson_ok: "no_nan j \<Longrightarrow> value_ok (fromJson date j options)"
proof (induction date j options rule: fromJson.induct)
  case (7 date ps options)
  have "value_ok (snd p)" if "p \<in> set (assign_all (\<lambda>v. fromJson date v options) ps)"
    "(if shapes options then case asVector ps of Some v \<Rightarrow> Some v | None \<Rightarrow> asGeopoint ps else None) = None" for p
    using assign_all_in [OF that(1)] 7(1) [OF that(2)] 7(2) by auto
  moreover have "value_ok v" if "asVector ps = Some v \<or> asGeopoint ps = Some v" for v
    using that asVector_ok asGeopoint_ok 7(2) by blast
  ultimately show ?case by (auto simp: assignable_assign split: option.splits)
qed (auto split: option.splits)

lemma parse_geopoint_ok: "parse_geopoint s = Inr v \<Longrightarrow> fsType v = GeopointType \<and> value_ok v"
proof -
  assume "parse_geopoint s = Inr v"
  then obtain la lo where "v = FsGeopoint la lo" "la \<noteq> NaN" "lo \<noteq> NaN" "\<not> abs_over la 90" "\<not> abs_over lo 180"
    by (auto simp: parse_geopoint_def split: list.splits if_splits)
  then show ?thesis by (cases la; cases lo) (simp_all add: is_finite_def)
qed

lemma parse_vector_ok: "parse_vector s = Inr v \<Longrightarrow> fsType v = VectorType \<and> value_ok v"
proof -
  assume "parse_vector s = Inr v"
  then obtain vs xs where vs: "parse_json s = Some (JArr vs)" and xs: "those (map as_number vs) = Some xs"
    and v: "v = FsVector xs"
    by (auto simp: parse_vector_def split: option.splits json.splits)
  then have "NaN \<notin> set xs" using parse_no_nan [OF vs] those_in [OF xs, of NaN] by force
  then show ?thesis by (simp add: v)
qed

lemma parse_container_ok: "parse_container date type s = Inr v \<Longrightarrow> fsType v = type \<and> value_ok v"
  using fromJson_ok parse_no_nan by (auto simp: parse_container_def Let_def split: option.splits if_splits)

lemma parse_editor_ok: "parseEditorText date type s = Inr v \<Longrightarrow> fsType v = type \<and> value_ok v"
proof (cases type)
  case ReferenceType
  then show "parseEditorText date type s = Inr v \<Longrightarrow> ?thesis"
    by (auto simp: parseEditorText_def parse_reference_def Let_def document_path_def split: if_splits)
qed (auto simp: parseEditorText_def Let_def parse_number_def parse_boolean_def parse_timestamp_def parse_bytes_def
    split: if_splits option.splits dest: parse_geopoint_ok parse_vector_ok parse_container_ok)

lemma parse_editor_message: "parseEditorText date type s = Inl e \<Longrightarrow> e \<noteq> []"
  by (cases type) (auto simp: parseEditorText_def Let_def parse_number_def parse_boolean_def parse_timestamp_def
    parse_reference_def parse_geopoint_def parse_bytes_def parse_vector_def parse_container_def
    split: if_splits option.splits list.splits json.splits)

lemma value_ok_whole: "value_ok v \<Longrightarrow> \<not> isPartial v"
  by (induction v rule: value_ok.induct) auto

section \<open>Properties\<close>

text \<open>
  C39. The editor is typed: the empty value of a type and whatever a text is accepted as have the
  type asked for, and what is accepted is well formed: no number is not a number, places are in
  range, references are document paths, bytes are base64, objects have their keys once and in
  order, and nothing is partial, at any depth. A refusal always says something.
\<close>

theorem editor_typed:
  "type \<in> set VALUE_TYPES \<and> fsType (emptyValue now type) = type \<and>
   (case parseEditorText date type t of
      Inl message \<Rightarrow> message \<noteq> []
    | Inr v \<Rightarrow> fsType v = type \<and> value_ok v \<and> \<not> isPartial v)"
proof -
  have "type \<in> set VALUE_TYPES \<and> fsType (emptyValue now type) = type"
    by (cases type) (simp_all add: VALUE_TYPES_def)
  then show ?thesis
    using parse_editor_ok [of date type t] parse_editor_message [of date type t] value_ok_whole
    by (auto split: sum.splits)
qed

text \<open>
  Opening a value in its editor and saving the text unedited writes the same value: the text is
  accepted, shows the same and is encoded the same. \<open>editable\<close> says for which values: the scalars of
  every type in the editor's own spelling, and the maps and arrays whose JSON is read back to them.
\<close>

lemma editor_unchanged:
  assumes "editable date documentRoot v"
  shows "\<exists>v'. parseEditorText date (fsType v) (editorText v) = Inr v' \<and>
    encodeValue v' documentRoot = encodeValue v documentRoot \<and> displayValue v' = displayValue v"
  using editor_text_back [OF assms] assms by (cases v) auto

text \<open>
  The JSON view's text read with every inference on is the value it was written from, for the
  values that are \<open>stable\<close>: no reference and no bytes, no whole double, timestamps as \<open>toISOString\<close>
  spells them, no text that looks like one, no map that looks like a place or a vector.
\<close>

lemma json_view_unchanged:
  assumes "stable date INFER v" and "settled (toJson v)"
  shows "map_option (\<lambda>parsed. fromJson date parsed INFER) (parse_json (pretty_json [] (toJson v))) = Some v"
  using json_back [OF assms(1)] view_text.parse_written [OF assms(2)] by simp

end
