(* ===== verification/Firestore_Spans.thy ===== *)
theory Firestore_Spans
  imports Firestore_Editor "HOL-Library.AList"
begin

text \<open>
  Where the values of a JSON text are, \<open>firestore/json-text.ts\<close>: the scanner that forgives, the
  literals written as doubles, and the text laid out again. The lemmas show that the scanner always
  has fuel enough and that every span it answers lies in the text.
\<close>

definition SEP :: nat where
  "SEP = 0"

type_synonym spans = "(jstring \<times> (nat \<times> nat)) list"

definition span_key :: "jstring list \<Rightarrow> jstring" where
  "span_key path = join_with [SEP] path"

definition unit_at :: "jstring \<Rightarrow> nat \<Rightarrow> nat \<Rightarrow> bool" where
  "unit_at s i c \<longleftrightarrow> i < length s \<and> s ! i = c"

text \<open>\<open>space\<close>.\<close>

definition after_space :: "jstring \<Rightarrow> nat \<Rightarrow> nat" where
  "after_space s i = run_end json_space s i"

text \<open>\<open>quoted\<close>: past the closing quote of the string that starts here, with the key it spells.\<close>

function quote_end :: "jstring \<Rightarrow> nat \<Rightarrow> nat option" where
  "quote_end s i =
     (if i < length s
      then if s ! i = 92 then quote_end s (i + 2)
           else if s ! i = 34 then Some (i + 1)
           else quote_end s (i + 1)
      else None)"
  by pat_completeness auto
termination by (relation "measure (\<lambda>(s, i). length s - i)") auto

declare quote_end.simps [simp del]

definition quoted :: "jstring \<Rightarrow> nat \<Rightarrow> (jstring \<times> nat) option" where
  "quoted s i =
     (case quote_end s (i + 1) of
        None \<Rightarrow> None
      | Some e \<Rightarrow> (case parse_json (slice s i e) of Some (JStr k) \<Rightarrow> Some (k, e) | _ \<Rightarrow> None))"

text \<open>
  \<open>value\<close>, \<open>object\<close> after its brace or a comma, and \<open>array\<close> after its bracket or a comma: where the
  scan is after it, none once it makes no sense, and the spans found. Each takes the fuel the
  calls may still use.
\<close>

definition word_unit :: "nat \<Rightarrow> bool" where
  "word_unit c \<longleftrightarrow> c \<notin> {44, 93, 125, 32, 10, 13, 9}"

definition and_then :: "nat option \<times> spans \<Rightarrow> (nat \<Rightarrow> spans \<Rightarrow> nat option \<times> spans) \<Rightarrow> nat option \<times> spans" where
  "and_then r go = (case fst r of None \<Rightarrow> (None, snd r) | Some e \<Rightarrow> go e (snd r))"

definition span_scalar :: "jstring \<Rightarrow> nat \<Rightarrow> nat option" where
  "span_scalar s start =
     (if unit_at s start 34 then map_option snd (quoted s start)
      else let e = run_end word_unit s start in if start < e then Some e else None)"

text \<open>The key of a member and the place after its colon.\<close>

definition span_name :: "jstring \<Rightarrow> nat \<Rightarrow> (jstring \<times> nat) option" where
  "span_name s i =
     (let j = after_space s i
      in if \<not> unit_at s j 34 then None
         else case quoted s j of
             None \<Rightarrow> None
           | Some (k, e) \<Rightarrow> (let c = after_space s e in if unit_at s c 58 then Some (k, c + 1) else None))"

text \<open>What follows an element: a comma and the rest, or the closing mark.\<close>

definition span_next :: "jstring \<Rightarrow> nat \<Rightarrow> nat \<Rightarrow> spans \<Rightarrow> (nat \<Rightarrow> nat option \<times> spans) \<Rightarrow> nat option \<times> spans" where
  "span_next s closing v found rest =
     (let d = after_space s v
      in if unit_at s d 44 then rest (d + 1)
         else if unit_at s d closing then (Some (d + 1), found)
         else (None, found))"

definition span_open :: "jstring \<Rightarrow> nat \<Rightarrow> nat \<Rightarrow> spans \<Rightarrow> (nat \<Rightarrow> nat option \<times> spans) \<Rightarrow> nat option \<times> spans" where
  "span_open s closing start found rest =
     (let j = after_space s (start + 1)
      in if unit_at s j closing then (Some (j + 1), found) else rest j)"

definition span_note :: "jstring list \<Rightarrow> nat \<Rightarrow> nat option \<times> spans \<Rightarrow> nat option \<times> spans" where
  "span_note path start r = and_then r (\<lambda>e found.
     (Some e, if path = [] then found else AList.update (span_key path) (start, e) found))"

function span_value :: "nat \<Rightarrow> jstring \<Rightarrow> jstring list \<Rightarrow> nat \<Rightarrow> spans \<Rightarrow> nat option \<times> spans"
  and span_members :: "nat \<Rightarrow> jstring \<Rightarrow> jstring list \<Rightarrow> nat \<Rightarrow> spans \<Rightarrow> nat option \<times> spans"
  and span_items :: "nat \<Rightarrow> jstring \<Rightarrow> jstring list \<Rightarrow> nat \<Rightarrow> nat \<Rightarrow> spans \<Rightarrow> nat option \<times> spans" where
  "span_value 0 s path i found = (None, found)"
| "span_value (Suc fuel) s path i found =
     (let start = after_space s i
      in span_note path start
           (if unit_at s start 123 then span_open s 125 start found (\<lambda>j. span_members fuel s path j found)
            else if unit_at s start 91 then span_open s 93 start found (\<lambda>j. span_items fuel s path 0 j found)
            else (span_scalar s start, found)))"
| "span_members 0 s path i found = (None, found)"
| "span_members (Suc fuel) s path i found =
     (case span_name s i of
        None \<Rightarrow> (None, found)
      | Some (k, c) \<Rightarrow>
          and_then (span_value fuel s (path @ [k]) c found)
            (\<lambda>v found1. span_next s 125 v found1 (\<lambda>d. span_members fuel s path d found1)))"
| "span_items 0 s path n i found = (None, found)"
| "span_items (Suc fuel) s path n i found =
     and_then (span_value fuel s (path @ [show_nat n]) i found)
       (\<lambda>v found1. span_next s 93 v found1 (\<lambda>d. span_items fuel s path (n + 1) d found1))"
  by pat_completeness auto
termination by (relation "measure (case_sum fst (case_sum fst fst))") simp_all

definition valueSpans :: "jstring \<Rightarrow> spans" where
  "valueSpans s = snd (span_value (2 * length s + 2) s [] 0 [])"

definition writtenAsDouble :: "jstring \<Rightarrow> bool" where
  "writtenAsDouble literal \<longleftrightarrow> 46 \<in> set literal \<or> 101 \<in> set literal \<or> 69 \<in> set literal"

text \<open>\<open>tidyJson\<close> with its indent of two.\<close>

definition whole_number :: "jstring \<Rightarrow> bool" where
  "whole_number literal \<longleftrightarrow> isInteger (to_number literal)"

definition put_points :: "nat list \<Rightarrow> jstring \<Rightarrow> jstring" where
  "put_points places s = fold (\<lambda>i r. take i r @ 46 # 48 # drop i r) (rev (sort places)) s"

definition tidyJson :: "jstring \<Rightarrow> jstring option" where
  "tidyJson s = map_option (\<lambda>parsed.
     (let doubles = map fst (filter (\<lambda>(path, f, t). writtenAsDouble (slice s f t) \<and> whole_number (slice s f t)) (valueSpans s));
          laid = pretty_json [] parsed
      in if doubles = [] then laid
         else put_points (map (\<lambda>(path, f, t). t) (filter (\<lambda>(path, f, t). path \<in> set doubles \<and>
                \<not> writtenAsDouble (slice laid f t) \<and> whole_number (slice laid f t)) (valueSpans laid))) laid))
     (parse_json s)"

section \<open>Places and fuel\<close>

lemma unit_at_less: "unit_at s i c \<Longrightarrow> i < length s"
  by (simp add: unit_at_def)

lemma after_space_ge: "i \<le> after_space s i"
  by (simp add: after_space_def)

lemma quote_end_place: "quote_end s i = Some e \<Longrightarrow> i < e \<and> e \<le> length s"
proof (induction s i rule: quote_end.induct)
  case (1 s i)
  then show ?case by (auto simp: quote_end.simps [of s i] split: if_splits)
qed

lemma quoted_place: "quoted s i = Some (k, e) \<Longrightarrow> i < e \<and> e \<le> length s"
  using quote_end_place [of s "i + 1"] by (fastforce simp: quoted_def split: option.splits json.splits)

lemma run_end_place: "i < run_end p s i \<Longrightarrow> run_end p s i \<le> length s"
  using run_end_le [of i s p] by (cases "i \<le> length s") (auto simp: run_end_def)

lemma and_then_Some: "and_then r go = (Some e, found) \<Longrightarrow> \<exists>v found1. r = (Some v, found1) \<and> go v found1 = (Some e, found)"
  by (cases r) (simp add: and_then_def split: option.splits)

lemma span_note_Some: "span_note path start r = (Some e, found) \<Longrightarrow> \<exists>found'. r = (Some e, found')"
  by (auto simp: span_note_def dest!: and_then_Some)

lemma span_scalar_place: "span_scalar s i = Some e \<Longrightarrow> i < e \<and> e \<le> length s"
  using quoted_place run_end_place [of i word_unit s] by (auto simp: span_scalar_def Let_def split: if_splits)

lemma span_name_place:
  assumes "span_name s i = Some (k, c)"
  shows "i < c"
proof -
  obtain e where e: "quoted s (after_space s i) = Some (k, e)" and c: "c = after_space s e + 1"
    using assms by (auto simp: span_name_def Let_def split: if_splits option.splits)
  show ?thesis using quoted_place [OF e] after_space_ge [of i s] after_space_ge [of e s] c by linarith
qed

lemma span_next_place:
  assumes r: "span_next s closing v found rest = (Some e, found')"
    and rest: "\<And>d. v < d \<Longrightarrow> rest d = (Some e, found') \<Longrightarrow> d < e \<and> e \<le> length s"
  shows "v < e \<and> e \<le> length s"
proof -
  let ?d = "after_space s v"
  have d: "v \<le> ?d" by (rule after_space_ge)
  consider "rest (?d + 1) = (Some e, found')" | "unit_at s ?d closing" "e = ?d + 1"
    using r by (auto simp: span_next_def Let_def split: if_splits)
  then show ?thesis
  proof cases
    case 1
    with rest [of "?d + 1"] d show ?thesis by auto
  next
    case 2
    with d unit_at_less show ?thesis by fastforce
  qed
qed

lemma span_open_place:
  assumes r: "span_open s closing start found rest = (Some e, found')"
    and rest: "\<And>d. start < d \<Longrightarrow> rest d = (Some e, found') \<Longrightarrow> d < e \<and> e \<le> length s"
  shows "start < e \<and> e \<le> length s"
proof -
  let ?j = "after_space s (start + 1)"
  have j: "start + 1 \<le> ?j" by (rule after_space_ge)
  consider "rest ?j = (Some e, found')" | "unit_at s ?j closing" "e = ?j + 1"
    using r by (auto simp: span_open_def Let_def split: if_splits)
  then show ?thesis
  proof cases
    case 1
    with rest [of ?j] j show ?thesis by auto
  next
    case 2
    with j unit_at_less show ?thesis by fastforce
  qed
qed

lemma span_place:
  "span_value fuel s path i found = (Some e, found') \<Longrightarrow> i < e \<and> e \<le> length s"
  "span_members fuel s path i found = (Some e, found') \<Longrightarrow> i < e \<and> e \<le> length s"
  "span_items fuel s path n i found = (Some e, found') \<Longrightarrow> i < e \<and> e \<le> length s"
proof (induction fuel s path i found and fuel s path i found and fuel s path n i found
    arbitrary: e found' and e found' and e found' rule: span_value_span_members_span_items.induct)
  case (2 fuel s path i found)
  let ?a = "after_space s i"
  obtain found1 where r: "(if unit_at s ?a 123 then span_open s 125 ?a found (\<lambda>j. span_members fuel s path j found)
      else if unit_at s ?a 91 then span_open s 93 ?a found (\<lambda>j. span_items fuel s path 0 j found)
      else (span_scalar s ?a, found)) = (Some e, found1)"
    using span_note_Some "2.prems" unfolding span_value.simps Let_def by blast
  have "?a < e \<and> e \<le> length s"
  proof -
    consider "unit_at s ?a 123" "span_open s 125 ?a found (\<lambda>j. span_members fuel s path j found) = (Some e, found1)"
      | "\<not> unit_at s ?a 123" "unit_at s ?a 91" "span_open s 93 ?a found (\<lambda>j. span_items fuel s path 0 j found) = (Some e, found1)"
      | "span_scalar s ?a = Some e"
      using r by (auto split: if_splits)
    then show ?thesis
    proof cases
      case 1
      show ?thesis by (rule span_open_place [OF 1(2)]) (rule "2.IH"(1) [OF refl 1(1)])
    next
      case 2
      show ?thesis by (rule span_open_place [OF 2(3)]) (rule "2.IH"(2) [OF refl 2(1,2)])
    qed (rule span_scalar_place)
  qed
  then show ?case using after_space_ge [of i s] by linarith
next
  case (4 fuel s path i found)
  obtain k c v found1 where c: "span_name s i = Some (k, c)" and v: "span_value fuel s (path @ [k]) c found = (Some v, found1)"
    and n: "span_next s 125 v found1 (\<lambda>d. span_members fuel s path d found1) = (Some e, found')"
    using "4.prems" by (auto split: option.splits dest!: and_then_Some)
  have "v < e \<and> e \<le> length s" by (rule span_next_place [OF n]) (rule "4.IH"(2) [OF c refl])
  moreover have "c < v" using "4.IH"(1) [OF c refl v] by blast
  ultimately show ?case using span_name_place [OF c] by linarith
next
  case (6 fuel s path n i found)
  obtain v found1 where v: "span_value fuel s (path @ [show_nat n]) i found = (Some v, found1)"
    and n: "span_next s 93 v found1 (\<lambda>d. span_items fuel s path (n + 1) d found1) = (Some e, found')"
    using "6.prems" by (auto dest!: and_then_Some)
  have "v < e \<and> e \<le> length s" by (rule span_next_place [OF n]) (rule "6.IH"(2))
  moreover have "i < v" using "6.IH"(1) [OF v] by blast
  ultimately show ?case by linarith
qed simp_all

text \<open>More fuel than the text is long changes nothing.\<close>

lemma and_then_cong:
  assumes "r' = r" and "\<And>v found. r = (Some v, found) \<Longrightarrow> go' v found = go v found"
  shows "and_then r' go' = and_then r go"
  using assms by (cases r) (simp add: and_then_def split: option.splits)

lemma span_next_cong: "(\<And>d. v < d \<Longrightarrow> rest' d = rest d) \<Longrightarrow> span_next s closing v found rest' = span_next s closing v found rest"
  using after_space_ge [of v s] by (simp add: span_next_def Let_def)

lemma span_open_cong: "(\<And>d. start < d \<Longrightarrow> rest' d = rest d) \<Longrightarrow> span_open s closing start found rest' = span_open s closing start found rest"
  using after_space_ge [of "start + 1" s] by (simp add: span_open_def Let_def)

lemma span_fuel:
  "2 * (length s - i) + 1 \<le> fuel \<Longrightarrow> fuel \<le> more_fuel \<Longrightarrow>
     span_value more_fuel s path i found = span_value fuel s path i found"
  "2 * (length s - i) + 2 \<le> fuel \<Longrightarrow> fuel \<le> more_fuel \<Longrightarrow>
     span_members more_fuel s path i found = span_members fuel s path i found"
  "2 * (length s - i) + 2 \<le> fuel \<Longrightarrow> fuel \<le> more_fuel \<Longrightarrow>
     span_items more_fuel s path n i found = span_items fuel s path n i found"
proof (induction fuel s path i found and fuel s path i found and fuel s path n i found
    arbitrary: more_fuel and more_fuel and more_fuel rule: span_value_span_members_span_items.induct)
  case (2 fuel s path i found)
  obtain g where g: "more_fuel = Suc g" "fuel \<le> g" using "2.prems"(2) by (cases more_fuel) auto
  let ?a = "after_space s i"
  have fit: "2 * (length s - d) + 2 \<le> fuel" if "?a < d" "?a < length s" for d
    using that "2.prems"(1) after_space_ge [of i s] by linarith
  show ?case
  proof (cases "?a < length s")
    case True
    have "span_open s 125 ?a found (\<lambda>j. span_members g s path j found) =
        span_open s 125 ?a found (\<lambda>j. span_members fuel s path j found)" if "unit_at s ?a 123"
      by (rule span_open_cong) (rule "2.IH"(1) [OF refl that fit [OF _ True] g(2)])
    moreover have "span_open s 93 ?a found (\<lambda>j. span_items g s path 0 j found) =
        span_open s 93 ?a found (\<lambda>j. span_items fuel s path 0 j found)" if "\<not> unit_at s ?a 123" "unit_at s ?a 91"
      by (rule span_open_cong) (rule "2.IH"(2) [OF refl that fit [OF _ True] g(2)])
    ultimately show ?thesis by (simp add: g(1) Let_def)
  next
    case False
    then show ?thesis by (simp add: g(1) Let_def unit_at_def)
  qed
next
  case (4 fuel s path i found)
  obtain g where g: "more_fuel = Suc g" "fuel \<le> g" using "4.prems"(2) by (cases more_fuel) auto
  show ?case
  proof (cases "span_name s i")
    case (Some kc)
    obtain k c where kc: "kc = (k, c)" by (cases kc)
    have c: "i < c" using span_name_place Some kc by blast
    have v: "span_value g s (path @ [k]) c found = span_value fuel s (path @ [k]) c found"
      by (rule "4.IH"(1) [OF Some kc [symmetric] _ g(2)]) (use "4.prems"(1) c in linarith)
    have "span_members g s path d found1 = span_members fuel s path d found1"
      if "span_value fuel s (path @ [k]) c found = (Some w, found1)" "w < d" for w found1 d
    proof (rule "4.IH"(2) [OF Some kc [symmetric] _ g(2)])
      show "2 * (length s - d) + 2 \<le> fuel"
        using span_place(1) [OF that(1)] that(2) c "4.prems"(1) by linarith
    qed
    then show ?thesis unfolding g(1) span_members.simps Some kc option.case prod.case
      by (intro and_then_cong [OF v] span_next_cong)
  qed (simp add: g(1))
next
  case (6 fuel s path n i found)
  obtain g where g: "more_fuel = Suc g" "fuel \<le> g" using "6.prems"(2) by (cases more_fuel) auto
  have v: "span_value g s (path @ [show_nat n]) i found = span_value fuel s (path @ [show_nat n]) i found"
    by (rule "6.IH"(1) [OF _ g(2)]) (use "6.prems"(1) in linarith)
  have "span_items g s path (n + 1) d found1 = span_items fuel s path (n + 1) d found1"
    if "span_value fuel s (path @ [show_nat n]) i found = (Some w, found1)" "w < d" for w found1 d
  proof (rule "6.IH"(2) [OF _ g(2)])
    show "2 * (length s - d) + 2 \<le> fuel"
      using span_place(1) [OF that(1)] that(2) "6.prems"(1) by linarith
  qed
  then show ?case unfolding g(1) span_items.simps by (intro and_then_cong [OF v] span_next_cong)
qed simp_all

lemma valueSpans_fuel: "2 * length s + 2 \<le> fuel \<Longrightarrow> snd (span_value fuel s [] 0 []) = valueSpans s"
  using span_fuel(1) [of s 0 "2 * length s + 2" fuel "[]" "[]"] by (simp add: valueSpans_def)

end
