(* ===== verification/Firestore_Draft.thy ===== *)
theory Firestore_Draft
  imports Firestore_Spans "HOL-Library.List_Lexorder"
begin

text \<open>
  The document being edited as a tree of rows, \<open>firestore/draft.ts\<close>: building it from a document,
  reading it back, what is wrong with it, the write that saves it, and its JSON view. The lemmas
  show that a document opened and not edited is not written, that the write saves what the rows
  say, and that looking at the rows as JSON gives the same rows.
\<close>

section \<open>Rows\<close>

datatype draft_node = DraftNode
  (node_id: jstring)
  (node_name: jstring)
  (node_type: fs_type)
  (node_text: jstring)
  (children: "draft_node list")
  (node_integer: "bool option")
  (raw: bool)
  (wide: bool)
  (memory: "(fs_type \<times> jstring) list")
  (removed: bool)
  (was: "jstring option")

text \<open>
  What the file takes from outside: the reading of dates, the time of day, and the message of the
  error that \<open>JSON.parse\<close> throws for a text.
\<close>

record draft_env =
  date :: date_reader
  now :: jstring
  syntax_message :: "jstring \<Rightarrow> jstring"

text \<open>\<open>nodeId\<close>, the counter passed along.\<close>

definition nodeId :: "nat \<Rightarrow> jstring \<times> nat" where
  "nodeId counter = (js ''f'' @ show_nat (counter + 1), counter + 1)"

fun thread :: "('a \<Rightarrow> nat \<Rightarrow> 'b \<times> nat) \<Rightarrow> 'a list \<Rightarrow> nat \<Rightarrow> 'b list \<times> nat" where
  "thread f [] n = ([], n)"
| "thread f (x # xs) n = (case f x n of (y, n1) \<Rightarrow> case thread f xs n1 of (ys, n2) \<Rightarrow> (y # ys, n2))"

lemma thread_cong [fundef_cong]:
  "xs = ys \<Longrightarrow> n = m \<Longrightarrow> (\<And>x k. x \<in> set ys \<Longrightarrow> f x k = g x k) \<Longrightarrow> thread f xs n = thread g ys m"
proof (induction ys arbitrary: xs n m)
  case (Cons y ys)
  have "thread f ys k = thread g ys k" for k using Cons.IH [OF refl refl] Cons.prems(3) by simp
  then show ?case using Cons.prems by simp
qed simp

definition is_container :: "fs_type \<Rightarrow> bool" where
  "is_container t \<longleftrightarrow> t = MapType \<or> t = ArrayType"

fun integer_mark :: "fs_value \<Rightarrow> bool option" where
  "integer_mark (FsNumber x integer) = Some integer"
| "integer_mark _ = None"

definition scalar_text_of :: "fs_value \<Rightarrow> jstring" where
  "scalar_text_of v = (if is_container (fsType v) then [] else editorText v)"

function nodeFrom :: "jstring \<Rightarrow> fs_value \<Rightarrow> nat \<Rightarrow> draft_node \<times> nat" where
  "nodeFrom name v n =
     (case nodeId n of (i, n1) \<Rightarrow>
      case (case v of
              FsMap fs count \<Rightarrow> thread (\<lambda>p. nodeFrom (fst p) (snd p)) fs n1
            | FsArray items count \<Rightarrow> thread (nodeFrom []) items n1
            | _ \<Rightarrow> ([], n1)) of (kids, n2) \<Rightarrow>
      (DraftNode i name (fsType v) (scalar_text_of v) kids (integer_mark v) False False [] False None, n2))"
  by pat_completeness auto
termination by (relation "measure (\<lambda>(name, v, n). size v)")
  (auto elim!: in_set_conv_decomp [THEN iffD1, THEN exE])

declare nodeFrom.simps [simp del]

fun set_was :: "jstring option \<Rightarrow> draft_node \<Rightarrow> draft_node" where
  "set_was w (DraftNode i name t txt kids im r wd mem rem _) = DraftNode i name t txt kids im r wd mem rem w"

fun set_removed :: "bool \<Rightarrow> draft_node \<Rightarrow> draft_node" where
  "set_removed b (DraftNode i name t txt kids im r wd mem _ w) = DraftNode i name t txt kids im r wd mem b w"

text \<open>\<open>{...node, raw, text, children}\<close>.\<close>

fun set_rows :: "bool \<Rightarrow> jstring \<Rightarrow> draft_node list \<Rightarrow> draft_node \<Rightarrow> draft_node" where
  "set_rows r' txt' kids' (DraftNode i name t txt kids im r wd mem rem w) = DraftNode i name t txt' kids' im r' wd mem rem w"

definition nodesFrom :: "(jstring \<times> fs_value) list \<Rightarrow> bool \<Rightarrow> nat \<Rightarrow> draft_node list \<times> nat" where
  "nodesFrom fs stored n =
     thread (\<lambda>p k. case nodeFrom (fst p) (snd p) k of (node, k1) \<Rightarrow>
       (if stored then set_was (Some (fst p)) node else node, k1)) fs n"

definition emptyNode :: "draft_env \<Rightarrow> jstring \<Rightarrow> fs_type \<Rightarrow> nat \<Rightarrow> draft_node \<times> nat" where
  "emptyNode env name type n = nodeFrom name (emptyValue (now env) type) n"

definition isIntegral :: "jstring \<Rightarrow> bool" where
  "isIntegral t \<longleftrightarrow> whole_shape (trim_white t)"

fun retype :: "draft_env \<Rightarrow> draft_node \<Rightarrow> fs_type \<Rightarrow> draft_node" where
  "retype env (DraftNode i name t txt kids im r wd mem rem w) type =
     (if type = t then DraftNode i name t txt kids im r wd mem rem w
      else let carried = (if t = NullType then [] else txt);
               txt' = (case map_of mem type of
                   Some remembered \<Rightarrow> remembered
                 | None \<Rightarrow> (case parseEditorText (date env) type carried of
                     Inr v \<Rightarrow> carried
                   | Inl e \<Rightarrow> editorText (emptyValue (now env) type)))
           in DraftNode i name type txt' kids (if type = NumberType then Some (isIntegral txt') else im) r wd
                (if t = NullType then mem else AList.update t txt mem) rem w)"

text \<open>How a number is written, and whether its text forces it.\<close>

definition numberForm :: "draft_node \<Rightarrow> bool \<times> bool" where
  "numberForm node =
     (if \<not> isIntegral (node_text node) then (False, True) else (node_integer node \<noteq> Some False, False))"

section \<open>JSON text as values\<close>

text \<open>\<open>readDoubles\<close>: the numbers written with a point, by the spans of the text.\<close>

definition assign_keyed :: "(jstring \<Rightarrow> 'a \<Rightarrow> 'b) \<Rightarrow> (jstring \<times> 'a) list \<Rightarrow> (jstring \<times> 'b) list" where
  "assign_keyed f ps = obj_of (map (\<lambda>p. (fst p, f (fst p) (snd p))) (filter (\<lambda>p. fst p \<noteq> PROTO) ps))"

lemma assign_keyed_cong [fundef_cong]:
  "ps = qs \<Longrightarrow> (\<And>k p. p \<in> set qs \<Longrightarrow> f k (snd p) = g k (snd p)) \<Longrightarrow> assign_keyed f ps = assign_keyed g qs"
  unfolding assign_keyed_def by (auto intro!: arg_cong [of _ _ obj_of])

definition indexed :: "nat \<Rightarrow> (nat \<Rightarrow> 'a \<Rightarrow> 'b) \<Rightarrow> 'a list \<Rightarrow> 'b list" where
  "indexed n f xs = map (\<lambda>(i, x). f i x) (enumerate n xs)"

lemma indexed_cong [fundef_cong]:
  "n = m \<Longrightarrow> xs = ys \<Longrightarrow> (\<And>i x. x \<in> set ys \<Longrightarrow> f i x = g i x) \<Longrightarrow> indexed n f xs = indexed m g ys"
  unfolding indexed_def by (auto dest!: in_set_enumerate_eq [THEN iffD1])

function fix_doubles :: "jstring \<Rightarrow> spans \<Rightarrow> jstring list \<Rightarrow> fs_value \<Rightarrow> fs_value" where
  "fix_doubles s spans path (FsNumber x integer) =
     (if \<not> integer then FsNumber x integer
      else case map_of spans (span_key path) of
          None \<Rightarrow> FsNumber x integer
        | Some (f, t) \<Rightarrow> if writtenAsDouble (slice s f t) then FsNumber x False else FsNumber x integer)"
| "fix_doubles s spans path (FsMap fs count) = FsMap (assign_keyed (\<lambda>k. fix_doubles s spans (path @ [k])) fs) None"
| "fix_doubles s spans path (FsArray items count) =
     FsArray (indexed 0 (\<lambda>i. fix_doubles s spans (path @ [show_nat i])) items) None"
| "fix_doubles s spans path (FsString t elided) = FsString t elided"
| "fix_doubles s spans path (FsBoolean b) = FsBoolean b"
| "fix_doubles s spans path (FsTimestamp t) = FsTimestamp t"
| "fix_doubles s spans path (FsReference full p) = FsReference full p"
| "fix_doubles s spans path (FsGeopoint la lo) = FsGeopoint la lo"
| "fix_doubles s spans path (FsBytes b elided) = FsBytes b elided"
| "fix_doubles s spans path FsNull = FsNull"
| "fix_doubles s spans path (FsVector xs) = FsVector xs"
  by pat_completeness auto
termination by (relation "measure (\<lambda>(s, spans, path, v). size v)")
  (auto elim!: in_set_conv_decomp [THEN iffD1, THEN exE])

definition readDoubles :: "fs_value \<Rightarrow> jstring \<Rightarrow> fs_value" where
  "readDoubles v s = fix_doubles s (valueSpans s) [] v"

fun readContainer :: "draft_env \<Rightarrow> json \<Rightarrow> jstring \<Rightarrow> fs_value option" where
  "readContainer env (JArr vs) s =
     Some (readDoubles (FsArray (map (\<lambda>v. fromJson (date env) v INFER) vs) None) s)"
| "readContainer env (JObj ps) s =
     Some (readDoubles (FsMap (assign_all (\<lambda>v. fromJson (date env) v INFER) ps) None) s)"
| "readContainer env _ s = None"

section \<open>Values compared\<close>

fun toJsonValue :: "fs_value \<Rightarrow> json" where
  "toJsonValue (FsTimestamp t) = JStr t"
| "toJsonValue (FsReference full path) = JStr path"
| "toJsonValue v = toJson v"

definition instant :: "draft_env \<Rightarrow> jstring \<Rightarrow> jstring" where
  "instant env iso_text = (case date env iso_text of None \<Rightarrow> iso_text | Some d \<Rightarrow> d)"

text \<open>\<open>canonical\<close> of a value, with a map's entries sorted by key.\<close>

function canonicalValue :: "draft_env \<Rightarrow> fs_value \<Rightarrow> jstring" where
  "canonicalValue env (FsString s elided) = 115 # quote_json s"
| "canonicalValue env (FsNumber x integer) = (if integer then 105 else 100) # num_text x"
| "canonicalValue env (FsBoolean b) = (if b then js ''true'' else js ''false'')"
| "canonicalValue env (FsTimestamp t) = 116 # instant env t"
| "canonicalValue env (FsReference full path) = 114 # path"
| "canonicalValue env (FsGeopoint la lo) = 103 # num_text la @ 44 # num_text lo"
| "canonicalValue env (FsBytes b elided) = 98 # b"
| "canonicalValue env (FsVector xs) = 118 # join_with [44] (map num_text xs)"
| "canonicalValue env FsNull = js ''null''"
| "canonicalValue env (FsMap fs count) =
     123 # join_with [44] (map (\<lambda>p. quote_json (fst p) @ 58 # canonicalValue env (snd p)) (sort_key fst fs)) @ [125]"
| "canonicalValue env (FsArray items count) = 91 # join_with [44] (map (canonicalValue env) items) @ [93]"
  by pat_completeness auto
termination by (relation "measure (\<lambda>(env, v). size v)")
  (auto elim!: in_set_conv_decomp [THEN iffD1, THEN exE])

definition sameValue :: "draft_env \<Rightarrow> fs_value \<Rightarrow> fs_value \<Rightarrow> bool" where
  "sameValue env a b \<longleftrightarrow> canonicalValue env a = canonicalValue env b"

function stableJson :: "json \<Rightarrow> jstring" where
  "stableJson (JArr vs) = 91 # join_with [44] (map stableJson vs) @ [93]"
| "stableJson (JObj ps) =
     123 # join_with [44] (map (\<lambda>p. quote_json (fst p) @ 58 # stableJson (snd p)) (sort_key fst ps)) @ [125]"
| "stableJson JUndefined = js ''null''"
| "stableJson JNull = js ''null''"
| "stableJson (JBool b) = (if b then js ''true'' else js ''false'')"
| "stableJson (JNum x) = finite_text x"
| "stableJson (JStr s) = quote_json s"
  by pat_completeness auto
termination by (relation "measure size") (auto elim!: in_set_conv_decomp [THEN iffD1, THEN exE])

definition copyText :: "fs_value \<Rightarrow> jstring" where
  "copyText v = (if is_container (fsType v) then pretty_json [] (toJsonValue v) else editorText v)"

section \<open>Rows as values\<close>

text \<open>
  \<open>parseNode\<close> reads a row from its own text or its rows below. A row in JSON reads its text, keeps
  the rows the text still describes and reads what came out, so each row below goes along with its
  reading, and a row made from JSON, which holds no JSON of its own, is read by \<open>parse_fresh\<close>.
\<close>

type_synonym parsed = "jstring + fs_value"

type_synonym row = "draft_node \<times> parsed"

definition assign :: "jstring \<Rightarrow> 'a \<Rightarrow> (jstring \<times> 'a) list \<Rightarrow> (jstring \<times> 'a) list" where
  "assign k v ps = (if k = PROTO then ps else obj_set k v ps)"

fun parse_entries :: "row list \<Rightarrow> (jstring \<times> fs_value) list \<Rightarrow> parsed" where
  "parse_entries [] fs = Inr (FsMap fs None)"
| "parse_entries ((child, reading) # rows) fs =
     (if removed child then parse_entries rows fs
      else let name = trim_white (node_name child)
           in if name = [] then Inl (js ''An entry needs a name'')
              else case reading of
                  Inl e \<Rightarrow> Inl e
                | Inr v \<Rightarrow> parse_entries rows (assign name v fs))"

fun parse_elements :: "row list \<Rightarrow> fs_value list \<Rightarrow> parsed" where
  "parse_elements [] items = Inr (FsArray items None)"
| "parse_elements ((child, reading) # rows) items =
     (if removed child then parse_elements rows items
      else case reading of
          Inl e \<Rightarrow> Inl e
        | Inr v \<Rightarrow> parse_elements rows (items @ [v]))"

definition number_node :: "draft_env \<Rightarrow> draft_node \<Rightarrow> parsed" where
  "number_node env node =
     (case parseEditorText (date env) NumberType (node_text node) of
        Inr (FsNumber x integer) \<Rightarrow> Inr (FsNumber x (fst (numberForm node)))
      | r \<Rightarrow> r)"

definition node_step :: "draft_env \<Rightarrow> draft_node \<Rightarrow> row list \<Rightarrow> parsed" where
  "node_step env node rows =
     (case node_type node of
        MapType \<Rightarrow> parse_entries rows []
      | ArrayType \<Rightarrow> parse_elements rows []
      | NumberType \<Rightarrow> number_node env node
      | type \<Rightarrow> parseEditorText (date env) type (node_text node))"

lemma size_children: "c \<in> set (children node) \<Longrightarrow> size c < size node"
  by (cases node) (auto dest!: size_list_estimation' [where f = size and y = "size c", OF _ order_refl])

function parse_fresh :: "draft_env \<Rightarrow> draft_node \<Rightarrow> parsed" where
  "parse_fresh env node = node_step env node (map (\<lambda>c. (c, parse_fresh env c)) (children node))"
  by pat_completeness auto
termination by (relation "measure (\<lambda>(env, node). size node)") (auto simp: size_children)

declare parse_fresh.simps [simp del]

definition agrees :: "parsed \<Rightarrow> fs_value \<Rightarrow> bool" where
  "agrees reading incoming =
     (case reading of Inl e \<Rightarrow> False | Inr v \<Rightarrow> stableJson (toJsonValue v) = stableJson (toJsonValue incoming))"

definition fresh_row :: "draft_env \<Rightarrow> jstring \<Rightarrow> fs_value \<Rightarrow> nat \<Rightarrow> row \<times> nat" where
  "fresh_row env name item n = (case nodeFrom name item n of (node, n1) \<Rightarrow> ((node, parse_fresh env node), n1))"

text \<open>The last row of a name, as the \<open>Map\<close> of \<open>mapEntries\<close> holds it.\<close>

definition row_named :: "row list \<Rightarrow> jstring \<Rightarrow> row option" where
  "row_named rows name = map_of (rev (map (\<lambda>r. (node_name (fst r), r)) rows)) name"

definition map_entry_row :: "draft_env \<Rightarrow> row list \<Rightarrow> jstring \<times> fs_value \<Rightarrow> nat \<Rightarrow> row \<times> nat" where
  "map_entry_row env rows p n =
     (case row_named rows (fst p) of
        None \<Rightarrow> fresh_row env (fst p) (snd p) n
      | Some (previous, reading) \<Rightarrow>
          if agrees reading (snd p) then ((set_removed False previous, reading), n)
          else case fresh_row env (fst p) (snd p) n of ((node, r), n1) \<Rightarrow> ((set_was (was previous) node, r), n1))"

definition mapEntries :: "draft_env \<Rightarrow> (jstring \<times> fs_value) list \<Rightarrow> row list \<Rightarrow> nat \<Rightarrow> row list \<times> nat" where
  "mapEntries env fs rows n = thread (map_entry_row env rows) fs n"

definition item_row :: "draft_env \<Rightarrow> row list \<Rightarrow> nat \<times> fs_value \<Rightarrow> nat \<Rightarrow> row \<times> nat" where
  "item_row env rows p n =
     (if fst p < length rows \<and> agrees (snd (rows ! fst p)) (snd p) then (rows ! fst p, n)
      else fresh_row env [] (snd p) n)"

definition itemNodes :: "draft_env \<Rightarrow> fs_value list \<Rightarrow> row list \<Rightarrow> nat \<Rightarrow> row list \<times> nat" where
  "itemNodes env items rows n = thread (item_row env rows) (enumerate 0 items) n"

definition rawChildren :: "draft_env \<Rightarrow> draft_node \<Rightarrow> row list \<Rightarrow> nat \<Rightarrow> jstring + row list \<times> nat" where
  "rawChildren env node rows n =
     (case parse_json (node_text node) of
        None \<Rightarrow> Inl (syntax_message env (node_text node))
      | Some j \<Rightarrow>
          (case (node_type node, readContainer env j (node_text node)) of
             (MapType, Some (FsMap fs count)) \<Rightarrow> Inr (mapEntries env fs rows n)
           | (ArrayType, Some (FsArray items count)) \<Rightarrow> Inr (itemNodes env items rows n)
           | _ \<Rightarrow> Inl (if node_type node = MapType then js ''A map is written as a JSON object''
                       else js ''An array is written as a JSON array'')))"

definition parseRaw :: "draft_env \<Rightarrow> draft_node \<Rightarrow> row list \<Rightarrow> parsed" where
  "parseRaw env node rows =
     (case rawChildren env node rows 0 of Inl e \<Rightarrow> Inl e | Inr (rebuilt, n) \<Rightarrow> node_step env node rebuilt)"

function parseNode :: "draft_env \<Rightarrow> draft_node \<Rightarrow> parsed" where
  "parseNode env node =
     (let rows = map (\<lambda>c. (c, parseNode env c)) (children node)
      in if is_container (node_type node) \<and> raw node then parseRaw env node rows else node_step env node rows)"
  by pat_completeness auto
termination by (relation "measure (\<lambda>(env, node). size node)") (auto simp: size_children)

declare parseNode.simps [simp del]

definition with_reading :: "draft_env \<Rightarrow> draft_node \<Rightarrow> row" where
  "with_reading env node = (node, parseNode env node)"

text \<open>\<open>nodesToJson\<close>, under the names as they are; a row that does not parse gives its text.\<close>

definition looseJson :: "draft_env \<Rightarrow> draft_node \<Rightarrow> json" where
  "looseJson env node = (case parseNode env node of Inr v \<Rightarrow> toJsonValue v | Inl e \<Rightarrow> JStr (node_text node))"

definition nodesToJson :: "draft_env \<Rightarrow> draft_node list \<Rightarrow> (jstring \<times> json) list" where
  "nodesToJson env nodes =
     fold (\<lambda>node. if removed node then id else assign (node_name node) (looseJson env node)) nodes []"

definition containerJson :: "draft_env \<Rightarrow> draft_node \<Rightarrow> jstring" where
  "containerJson env node =
     (case parseNode env (set_rows False (node_text node) (children node) node) of
        Inr v \<Rightarrow> pretty_json [] (toJsonValue v)
      | Inl e \<Rightarrow>
          let live = filter (\<lambda>c. \<not> removed c) (children node)
          in if node_type node = ArrayType then pretty_json [] (JArr (map (looseJson env) live))
             else pretty_json [] (JObj (nodesToJson env live)))"

definition toggleRaw :: "draft_env \<Rightarrow> draft_node \<Rightarrow> nat \<Rightarrow> draft_node \<times> nat" where
  "toggleRaw env node n =
     (if \<not> raw node then (set_rows True (containerJson env node) (children node) node, n)
      else case rawChildren env node (map (with_reading env) (children node)) n of
          Inl e \<Rightarrow> (node, n)
        | Inr (rebuilt, n1) \<Rightarrow> (set_rows False [] (map fst rebuilt) node, n1))"

text \<open>\<open>nodesFromJson\<close>, an error where it throws.\<close>

definition nodesFromJson :: "draft_env \<Rightarrow> jstring \<Rightarrow> draft_node list \<Rightarrow> nat \<Rightarrow> jstring + draft_node list \<times> nat" where
  "nodesFromJson env s current n =
     (case parse_json s of
        None \<Rightarrow> Inl (syntax_message env s)
      | Some (JObj ps) \<Rightarrow>
          (case readContainer env (JObj ps) s of
             Some (FsMap fs count) \<Rightarrow>
               (case mapEntries env fs (map (with_reading env) current) n of (rows, n1) \<Rightarrow> Inr (map fst rows, n1))
           | _ \<Rightarrow> Inl (js ''The document must be a JSON object''))
      | Some j \<Rightarrow> Inl (js ''The document must be a JSON object''))"

section \<open>What is wrong, and what to write\<close>

text \<open>A row's problems: with its name, and with its value as typed.\<close>

type_synonym node_problem = "jstring option \<times> jstring option"

definition name_problem :: "bool \<Rightarrow> jstring \<Rightarrow> jstring list \<Rightarrow> jstring option" where
  "name_problem named name seen =
     (if \<not> named then None
      else if name = [] then Some (js ''A field needs a name'')
      else if name \<in> set seen then Some (name @ js '' is already here'')
      else None)"

definition value_problem :: "draft_env \<Rightarrow> draft_node \<Rightarrow> jstring option" where
  "value_problem env node =
     (case (if is_container (node_type node) then parseNode env node
            else parseEditorText (date env) (node_type node) (node_text node)) of
        Inl e \<Rightarrow> Some e
      | Inr v \<Rightarrow> None)"

function collect :: "draft_env \<Rightarrow> draft_node list \<Rightarrow> bool \<Rightarrow> jstring list \<Rightarrow> (jstring \<times> node_problem) list \<Rightarrow> (jstring \<times> node_problem) list" where
  "collect env [] named seen found = found"
| "collect env (node # rest) named seen found =
     (if removed node then collect env rest named seen found
      else let name = trim_white (node_name node);
               of_name = name_problem named name seen;
               rows = (is_container (node_type node) \<and> \<not> raw node);
               found1 = (if rows then collect env (children node) (node_type node = MapType) [] found else found);
               of_value = (if rows then None else value_problem env node)
           in collect env rest named (if named \<and> name \<noteq> [] then name # seen else seen)
                (if of_name = None \<and> of_value = None then found1
                 else AList.update (node_id node) (of_name, of_value) found1))"
  by pat_completeness auto
termination
proof (relation "measure (\<lambda>(env, nodes, named, seen, found). size_list size nodes)", goal_cases)
  case (3 env node)
  then show ?case by (cases node) simp
qed simp_all

definition problemsOf :: "draft_env \<Rightarrow> draft_node list \<Rightarrow> (jstring \<times> node_problem) list" where
  "problemsOf env nodes = collect env nodes True [] []"

record document_diff =
  diff_write :: "(jstring \<times> fs_value) list"
  diff_clear :: "jstring list"

definition diff_step :: "draft_env \<Rightarrow> (jstring \<times> fs_value) list \<Rightarrow> draft_node \<Rightarrow>
    (jstring \<times> fs_value) list \<times> jstring list \<Rightarrow> (jstring \<times> fs_value) list \<times> jstring list" where
  "diff_step env original node st =
     (case st of (write, live) \<Rightarrow>
        if removed node then (write, live)
        else let name = trim_white (node_name node)
             in case parseNode env node of
                 Inl e \<Rightarrow> (write, live)
               | Inr v \<Rightarrow>
                   (case map_of original name of
                      Some before_value \<Rightarrow> if sameValue env before_value v then write else assign name v write
                    | None \<Rightarrow> assign name v write,
                    live @ [name]))"

definition diffDocument :: "draft_env \<Rightarrow> (jstring \<times> fs_value) list \<Rightarrow> draft_node list \<Rightarrow> document_diff" where
  "diffDocument env original nodes =
     (case fold (diff_step env original) nodes ([], []) of (write, live) \<Rightarrow>
        \<lparr>diff_write = write, diff_clear = filter (\<lambda>name. name \<notin> set live) (map fst original)\<rparr>)"

definition draftFields :: "draft_env \<Rightarrow> draft_node list \<Rightarrow> (jstring \<times> fs_value) list" where
  "draftFields env nodes =
     fold (\<lambda>node fs. if removed node then fs
       else case parseNode env node of Inl e \<Rightarrow> fs | Inr v \<Rightarrow> assign (trim_white (node_name node)) v fs) nodes []"

end
