(* ===== verification/Firestore_Saved.thy ===== *)
theory Firestore_Saved
  imports Firestore_Draft
begin

text \<open>
  What saving a draft does: a document opened and not edited is not written, and the write of an
  edited one leaves in the store what the rows say.
\<close>

section \<open>A row made from a value\<close>

text \<open>The values an editor opens without loss, and what their rows are read as.\<close>

function openable :: "draft_env \<Rightarrow> fs_value \<Rightarrow> bool" where
  "openable env (FsString s elided) \<longleftrightarrow> elided = None"
| "openable env (FsNumber x integer) \<longleftrightarrow> double_value x \<and> (integer \<longrightarrow> whole_shape (num_text x))"
| "openable env (FsBoolean b) \<longleftrightarrow> True"
| "openable env (FsTimestamp t) \<longleftrightarrow> t \<noteq> [] \<and> trim_white t = t \<and>
     (case date env t of None \<Rightarrow> False | Some d \<Rightarrow> date env d = Some d)"
| "openable env (FsReference full path) \<longleftrightarrow>
     document_path path \<and> index_text DOCUMENTS_MARKER path = None \<and> trim_white path = path"
| "openable env (FsGeopoint la lo) \<longleftrightarrow>
     double_value la \<and> double_value lo \<and> \<not> abs_over la 90 \<and> \<not> abs_over lo 180"
| "openable env (FsBytes b elided) \<longleftrightarrow> elided = None \<and> base64_shape b"
| "openable env (FsVector xs) \<longleftrightarrow> (\<forall>x\<in>set xs. double_value x)"
| "openable env FsNull \<longleftrightarrow> True"
| "openable env (FsMap fs count) \<longleftrightarrow> count = None \<and> assignable fs \<and>
     (\<forall>p\<in>set fs. fst p \<noteq> [] \<and> trim_white (fst p) = fst p \<and> openable env (snd p))"
| "openable env (FsArray items count) \<longleftrightarrow> count = None \<and> (\<forall>v\<in>set items. openable env v)"
  by pat_completeness auto
termination by (relation "measure (\<lambda>(env, v). size v)")
  (auto elim!: in_set_conv_decomp [THEN iffD1, THEN exE])

function reread :: "draft_env \<Rightarrow> fs_value \<Rightarrow> fs_value" where
  "reread env (FsTimestamp t) = FsTimestamp (instant env t)"
| "reread env (FsReference full path) = FsReference path path"
| "reread env (FsMap fs count) = FsMap (map (\<lambda>p. (fst p, reread env (snd p))) fs) None"
| "reread env (FsArray items count) = FsArray (map (reread env) items) None"
| "reread env (FsString s elided) = FsString s elided"
| "reread env (FsNumber x integer) = FsNumber x integer"
| "reread env (FsBoolean b) = FsBoolean b"
| "reread env (FsGeopoint la lo) = FsGeopoint la lo"
| "reread env (FsBytes b elided) = FsBytes b elided"
| "reread env (FsVector xs) = FsVector xs"
| "reread env FsNull = FsNull"
  by pat_completeness auto
termination by (relation "measure (\<lambda>(env, v). size v)")
  (auto elim!: in_set_conv_decomp [THEN iffD1, THEN exE])

lemma thread_rows: "list_all2 (\<lambda>x y. \<exists>k. y = fst (f x k)) xs (fst (thread f xs n))"
proof (induction xs arbitrary: n)
  case (Cons x xs)
  obtain y n1 where y: "f x n = (y, n1)" by (cases "f x n")
  obtain ys n2 where ys: "thread f xs n1 = (ys, n2)" by (cases "thread f xs n1")
  have "\<exists>k. y = fst (f x k)" using y by (metis fst_conv)
  with Cons.IH [of n1] show ?case by (simp add: y ys)
qed simp

lemma nodeFrom_shape:
  obtains i kids where "fst (nodeFrom name v n) =
     DraftNode i name (fsType v) (scalar_text_of v) kids (integer_mark v) False False [] False None"
   and "\<And>fs count. v = FsMap fs count \<Longrightarrow> list_all2 (\<lambda>p c. \<exists>k. c = fst (nodeFrom (fst p) (snd p) k)) fs kids"
   and "\<And>items count. v = FsArray items count \<Longrightarrow> list_all2 (\<lambda>x c. \<exists>k. c = fst (nodeFrom [] x k)) items kids"
   and "\<not> is_container (fsType v) \<Longrightarrow> kids = []"
proof -
  obtain i n1 where i: "nodeId n = (i, n1)" by (cases "nodeId n")
  obtain kids n2 where k: "(case v of
              FsMap fs count \<Rightarrow> thread (\<lambda>p. nodeFrom (fst p) (snd p)) fs n1
            | FsArray items count \<Rightarrow> thread (nodeFrom []) items n1
            | _ \<Rightarrow> ([], n1)) = (kids, n2)" by fastforce
  show ?thesis
  proof (rule that [of i kids])
    show "fst (nodeFrom name v n) =
        DraftNode i name (fsType v) (scalar_text_of v) kids (integer_mark v) False False [] False None"
      using i k by (simp add: nodeFrom.simps [of name])
    show "list_all2 (\<lambda>p c. \<exists>k. c = fst (nodeFrom (fst p) (snd p) k)) fs kids" if "v = FsMap fs count" for fs count
      using thread_rows [of "\<lambda>p. nodeFrom (fst p) (snd p)" fs n1] k by (simp add: that)
    show "list_all2 (\<lambda>x c. \<exists>k. c = fst (nodeFrom [] x k)) items kids" if "v = FsArray items count" for items count
      using thread_rows [of "nodeFrom []" items n1] k by (simp add: that)
    show "kids = []" if "\<not> is_container (fsType v)" using k that by (cases v) (simp_all add: is_container_def)
  qed
qed

text \<open>Reading rows that all parse, under names that are already trimmed.\<close>

lemma parse_entries_ok:
  assumes "list_all2 (\<lambda>p r. \<not> removed (fst r) \<and> trim_white (node_name (fst r)) = fst p \<and> fst p \<noteq> [] \<and>
      snd r = Inr (g (snd p))) fs rows"
    and "assignable (acc @ map (\<lambda>p. (fst p, g (snd p))) fs)"
  shows "parse_entries rows acc = Inr (FsMap (acc @ map (\<lambda>p. (fst p, g (snd p))) fs) None)"
  using assms
proof (induction fs rows arbitrary: acc rule: list_all2_induct)
  case (Cons p fs r rows)
  obtain c v where r: "r = (c, v)" by (cases r)
  have "fst p \<noteq> PROTO" and "obj_set (fst p) (g (snd p)) acc = acc @ [(fst p, g (snd p))]"
    using Cons.prems by (auto simp: assignable_def enumerated_def sorted_wrt_append intro!: obj_set_last)
  then have "assign (fst p) (g (snd p)) acc = acc @ [(fst p, g (snd p))]" by (simp add: assign_def)
  then show ?case using Cons.hyps Cons.IH [of "acc @ [(fst p, g (snd p))]"] Cons.prems by (simp add: r)
qed simp

lemma parse_elements_ok:
  assumes "list_all2 (\<lambda>x r. \<not> removed (fst r) \<and> snd r = Inr (g x)) xs rows"
  shows "parse_elements rows acc = Inr (FsArray (acc @ map g xs) None)"
  using assms
proof (induction xs rows arbitrary: acc rule: list_all2_induct)
  case (Cons x xs r rows)
  then show ?case by (cases r) simp
qed simp

lemma isIntegral_text: "double_value x \<Longrightarrow> isIntegral (num_text x) = whole_shape (num_text x)"
  by (cases x) (simp_all add: isIntegral_def double_value_def del: num_text.simps)

lemma scalar_reads:
  assumes "openable env v" and "\<not> is_container (fsType v)"
  shows "node_step env (DraftNode i name (fsType v) (editorText v) kids (integer_mark v) r wd mem rem w) rows =
    Inr (reread env v)"
proof (cases v)
  case (FsNumber x integer)
  with assms have "double_value x" "integer \<longrightarrow> whole_shape (num_text x)" by simp_all
  with FsNumber show ?thesis
    by (auto simp: node_step_def number_node_def numberForm_def parseEditorText_def parse_number_text isIntegral_text
        simp del: num_text.simps)
next
  case (FsBoolean b)
  then show ?thesis by (simp add: node_step_def parseEditorText_def parse_boolean_def trim_white_def js_white_def)
next
  case (FsTimestamp t)
  then show ?thesis using assms(1)
    by (auto simp: node_step_def parseEditorText_def parse_timestamp_def instant_def split: option.splits)
next
  case (FsReference full path)
  with assms(1) have "parse_reference (trim_white path) = Inr (FsReference path path)"
    by (intro parse_reference_text) simp_all
  with FsReference show ?thesis by (simp add: node_step_def parseEditorText_def)
next
  case (FsGeopoint la lo)
  with assms(1) parse_geopoint_text [of la lo] show ?thesis by (simp add: node_step_def parseEditorText_def)
next
  case (FsBytes b elided)
  with assms(1) base64_trim [of b] show ?thesis by (simp add: node_step_def parseEditorText_def parse_bytes_def)
next
  case (FsVector xs)
  with assms(1) show ?thesis by (simp add: node_step_def parseEditorText_def parse_vector_text)
qed (use assms in \<open>simp_all add: node_step_def parseEditorText_def is_container_def\<close>)

lemma list_all2_rows:
  assumes "list_all2 (\<lambda>x c. \<exists>k. c = fst (f x k)) xs kids"
    and "\<And>x k. x \<in> set xs \<Longrightarrow> P x (fst (f x k)) (g (fst (f x k)))"
  shows "list_all2 (\<lambda>x r. P x (fst r) (snd r)) xs (map (\<lambda>c. (c, g c)) kids)"
  using assms by (induction xs kids rule: list_all2_induct) auto

lemma nodeFrom_head: "node_name (fst (nodeFrom name v n)) = name" "\<not> removed (fst (nodeFrom name v n))"
  by (rule nodeFrom_shape [of name v n], simp)+

text \<open>Any reading that follows \<^const>\<open>node_step\<close> where no JSON is edited.\<close>

lemma node_reads_scalar:
  assumes "\<And>node. \<not> raw node \<Longrightarrow> reads node = node_step env node (map (\<lambda>c. (c, reads c)) (children node))"
    and "openable env v" and "\<not> is_container (fsType v)"
  shows "reads (fst (nodeFrom name v n)) = Inr (reread env v)"
proof -
  obtain i kids where "fst (nodeFrom name v n) =
      DraftNode i name (fsType v) (scalar_text_of v) kids (integer_mark v) False False [] False None"
    by (rule nodeFrom_shape [of name v n])
  with assms scalar_reads [OF assms(2,3)] show ?thesis by (simp add: scalar_text_of_def)
qed

lemma node_reads:
  assumes "\<And>env node. \<not> raw node \<Longrightarrow> reads env node = node_step env node (map (\<lambda>c. (c, reads env c)) (children node))"
    and "openable env v"
  shows "reads env (fst (nodeFrom name v n)) = Inr (reread env v)"
  using assms(2)
proof (induction env v arbitrary: name n rule: openable.induct)
  case (10 env fs count)
  obtain i kids where node: "fst (nodeFrom name (FsMap fs count) n) =
      DraftNode i name MapType (scalar_text_of (FsMap fs count)) kids None False False [] False None"
    and kids: "list_all2 (\<lambda>p c. \<exists>k. c = fst (nodeFrom (fst p) (snd p) k)) fs kids"
    by (rule nodeFrom_shape [of name "FsMap fs count" n]) simp
  have "list_all2 (\<lambda>p r. \<not> removed (fst r) \<and> trim_white (node_name (fst r)) = fst p \<and> fst p \<noteq> [] \<and>
      snd r = Inr (reread env (snd p))) fs (map (\<lambda>c. (c, reads env c)) kids)"
    by (rule list_all2_rows [OF kids]) (use 10 in \<open>simp add: nodeFrom_head\<close>)
  then have "parse_entries (map (\<lambda>c. (c, reads env c)) kids) [] = Inr (FsMap (map (\<lambda>p. (fst p, reread env (snd p))) fs) None)"
    using 10 parse_entries_ok [of "reread env" fs "map (\<lambda>c. (c, reads env c)) kids" "[]"] by (simp add: assignable_map)
  then show ?case by (simp add: node assms(1) node_step_def)
next
  case (11 env items count)
  obtain i kids where node: "fst (nodeFrom name (FsArray items count) n) =
      DraftNode i name ArrayType (scalar_text_of (FsArray items count)) kids None False False [] False None"
    and kids: "list_all2 (\<lambda>x c. \<exists>k. c = fst (nodeFrom [] x k)) items kids"
    by (rule nodeFrom_shape [of name "FsArray items count" n]) simp
  have "list_all2 (\<lambda>x r. \<not> removed (fst r) \<and> snd r = Inr (reread env x)) items (map (\<lambda>c. (c, reads env c)) kids)"
    by (rule list_all2_rows [OF kids]) (use 11 in \<open>simp add: nodeFrom_head\<close>)
  then show ?case by (simp add: node assms(1) node_step_def parse_elements_ok)
qed (rule node_reads_scalar [OF assms(1)]; simp add: is_container_def)+

lemma parseNode_step: "\<not> raw node \<Longrightarrow> parseNode env node = node_step env node (map (\<lambda>c. (c, parseNode env c)) (children node))"
  by (subst parseNode.simps) (simp add: Let_def)

lemmas parseNode_reads = node_reads [of parseNode, OF parseNode_step]
lemmas parse_fresh_reads = node_reads [of parse_fresh, OF parse_fresh.simps]

text \<open>Where a row's name comes from does not change what it is read as.\<close>

lemma set_simps [simp]:
  "node_type (set_was w node) = node_type node" "node_text (set_was w node) = node_text node"
  "children (set_was w node) = children node" "raw (set_was w node) = raw node"
  "node_integer (set_was w node) = node_integer node" "node_name (set_was w node) = node_name node"
  "removed (set_was w node) = removed node"
  "node_type (set_removed b node) = node_type node" "node_text (set_removed b node) = node_text node"
  "children (set_removed b node) = children node" "raw (set_removed b node) = raw node"
  "node_integer (set_removed b node) = node_integer node" "node_name (set_removed b node) = node_name node"
  "removed (set_removed b node) = b"
  by (cases node; simp)+

lemma parseNode_cong:
  assumes "node_type node' = node_type node" "node_text node' = node_text node" "children node' = children node"
    "raw node' = raw node" "node_integer node' = node_integer node"
  shows "parseNode env node' = parseNode env node"
proof -
  have step: "node_step env node' rows = node_step env node rows" for rows
    unfolding node_step_def number_node_def numberForm_def assms by (rule refl)
  have "rawChildren env node' rows 0 = rawChildren env node rows 0" for rows
    unfolding rawChildren_def assms by (rule refl)
  then have "parseRaw env node' rows = parseRaw env node rows" for rows
    unfolding parseRaw_def step by simp
  with step show ?thesis by (simp add: parseNode.simps [of env node'] parseNode.simps [of env node] assms Let_def)
qed

lemma parseNode_set [simp]:
  "parseNode env (set_was w node) = parseNode env node" "parseNode env (set_removed b node) = parseNode env node"
  by (rule parseNode_cong; simp)+

lemma insort_key_keyed: "insort_key fst (fst q, g (snd q)) (map (\<lambda>p. (fst p, g (snd p))) ps) =
    map (\<lambda>p. (fst p, g (snd p))) (insort_key fst q ps)"
  by (induction ps) auto

lemma sort_key_keyed: "sort_key fst (map (\<lambda>p. (fst p, g (snd p))) ps) = map (\<lambda>p. (fst p, g (snd p))) (sort_key fst ps)"
  by (induction ps) (simp_all only: list.map sort_key_simps insort_key_keyed)

lemma reread_same: "openable env v \<Longrightarrow> canonicalValue env (reread env v) = canonicalValue env v"
proof (induction env v rule: openable.induct)
  case (10 env fs count)
  then have "map (\<lambda>p. quote_json (fst p) @ 58 # canonicalValue env (reread env (snd p))) (sort_key fst fs) =
      map (\<lambda>p. quote_json (fst p) @ 58 # canonicalValue env (snd p)) (sort_key fst fs)"
    by (intro map_cong [OF refl]) simp
  then show ?case by (simp add: sort_key_keyed comp_def del: map_eq_conv)
next
  case (11 env items count)
  then have "map (\<lambda>v. canonicalValue env (reread env v)) items = map (canonicalValue env) items"
    by (intro map_cong [OF refl]) simp
  then show ?case by (simp add: comp_def del: map_eq_conv)
qed (auto simp: instant_def split: option.splits)

section \<open>Nothing to write\<close>

definition open_document :: "draft_env \<Rightarrow> (jstring \<times> fs_value) list \<Rightarrow> bool" where
  "open_document env fs \<longleftrightarrow> openable env (FsMap fs None)"

lemma diff_unedited:
  assumes "list_all2 (\<lambda>p node. \<not> removed node \<and> trim_white (node_name node) = fst p \<and>
      (\<exists>v. parseNode env node = Inr v \<and> map_of original (fst p) = Some (snd p) \<and> sameValue env (snd p) v)) fs nodes"
  shows "fold (diff_step env original) nodes (write, live) = (write, live @ map fst fs)"
  using assms
proof (induction fs nodes arbitrary: live rule: list_all2_induct)
  case (Cons p fs node nodes)
  then have "diff_step env original node (write, live) = (write, live @ [fst p])"
    by (auto simp: diff_step_def)
  then show ?case using Cons.IH [of "live @ [fst p]"] by simp
qed simp

lemma diff_document_unedited:
  assumes "open_document env fs"
  shows "diffDocument env fs (fst (nodesFrom fs stored n)) = \<lparr>diff_write = [], diff_clear = []\<rparr>"
proof -
  have fs: "assignable fs" "\<And>p. p \<in> set fs \<Longrightarrow> trim_white (fst p) = fst p \<and> openable env (snd p)"
    using assms by (auto simp: open_document_def)
  have d: "distinct (map fst fs)" using fs(1) enumerated_distinct by (simp add: assignable_def)
  have rows: "list_all2 (\<lambda>p node. \<exists>k. node = fst (case nodeFrom (fst p) (snd p) k of (node, k1) \<Rightarrow>
      (if stored then set_was (Some (fst p)) node else node, k1))) fs (fst (nodesFrom fs stored n))"
    unfolding nodesFrom_def by (rule thread_rows)
  have "list_all2 (\<lambda>p node. \<not> removed node \<and> trim_white (node_name node) = fst p \<and>
      (\<exists>v. parseNode env node = Inr v \<and> map_of fs (fst p) = Some (snd p) \<and> sameValue env (snd p) v))
      fs (fst (nodesFrom fs stored n))"
  proof (rule list.rel_mono_strong [OF rows])
    fix p node assume p: "p \<in> set fs" and "\<exists>k. node = fst (case nodeFrom (fst p) (snd p) k of (node, k1) \<Rightarrow>
      (if stored then set_was (Some (fst p)) node else node, k1))"
    then obtain k where node: "node = (if stored then set_was (Some (fst p)) (fst (nodeFrom (fst p) (snd p) k))
        else fst (nodeFrom (fst p) (snd p) k))"
      by (auto simp: case_prod_beta)
    have "parseNode env node = Inr (reread env (snd p))" using parseNode_reads fs(2) [OF p] by (simp add: node)
    moreover have "map_of fs (fst p) = Some (snd p)" using d p by simp
    moreover have "sameValue env (snd p) (reread env (snd p))" using reread_same fs(2) [OF p] by (simp add: sameValue_def)
    ultimately show "\<not> removed node \<and> trim_white (node_name node) = fst p \<and>
      (\<exists>v. parseNode env node = Inr v \<and> map_of fs (fst p) = Some (snd p) \<and> sameValue env (snd p) v)"
      using fs(2) [OF p] by (simp add: node nodeFrom_head)
  qed
  from diff_unedited [OF this, of "[]" "[]"] show ?thesis by (simp add: diffDocument_def)
qed

lemma value_problem_reads: "parseNode env node = Inr v \<Longrightarrow> value_problem env node = None"
proof (cases "is_container (node_type node)")
  case False
  assume "parseNode env node = Inr v"
  then have "node_step env node (map (\<lambda>c. (c, parseNode env c)) (children node)) = Inr v"
    using False by (simp add: parseNode.simps [of env node] Let_def)
  then have "\<exists>w. parseEditorText (date env) (node_type node) (node_text node) = Inr w"
    using False by (cases "node_type node") (auto simp: node_step_def number_node_def is_container_def split: sum.splits)
  with False show ?thesis by (auto simp: value_problem_def)
qed (simp add: value_problem_def)

text \<open>The rows made from openable values, under names that are there once.\<close>

definition made_from :: "draft_env \<Rightarrow> bool \<Rightarrow> jstring \<times> fs_value \<Rightarrow> draft_node \<Rightarrow> bool" where
  "made_from env named p node \<longleftrightarrow> openable env (snd p) \<and> (named \<longrightarrow> fst p \<noteq> [] \<and> trim_white (fst p) = fst p) \<and>
     (\<exists>k w. node = set_was w (fst (nodeFrom (fst p) (snd p) k)))"

lemma made_from_child: "openable env v \<Longrightarrow> (named \<longrightarrow> name \<noteq> [] \<and> trim_white name = name) \<Longrightarrow>
    made_from env named (name, v) (fst (nodeFrom name v k))"
proof -
  assume v: "openable env v" "named \<longrightarrow> name \<noteq> [] \<and> trim_white name = name"
  have "fst (nodeFrom name v k) = set_was None (fst (nodeFrom name v k))"
    by (rule nodeFrom_shape [of name v k]) simp
  then have "\<exists>k' w. fst (nodeFrom name v k) = set_was w (fst (nodeFrom name v k'))" by blast
  with v show ?thesis by (simp add: made_from_def)
qed

lemma collect_made:
  assumes "list_all2 (made_from env named) fs nodes"
    and "named \<longrightarrow> distinct (map fst fs) \<and> fst ` set fs \<inter> set seen = {}"
  shows "collect env nodes named seen found = found"
  using assms
proof (induction env nodes named seen found arbitrary: fs rule: collect.induct)
  case (2 env node rest named seen found)
  obtain p ps where fs: "fs = p # ps" and p: "made_from env named p node" and ps: "list_all2 (made_from env named) ps rest"
    using "2.prems"(1) by (auto simp: list_all2_Cons2)
  obtain k w where node: "node = set_was w (fst (nodeFrom (fst p) (snd p) k))" using p by (auto simp: made_from_def)
  obtain i kids where made: "fst (nodeFrom (fst p) (snd p) k) =
      DraftNode i (fst p) (fsType (snd p)) (scalar_text_of (snd p)) kids (integer_mark (snd p)) False False [] False None"
    and kids: "\<And>fs count. snd p = FsMap fs count \<Longrightarrow> list_all2 (\<lambda>p c. \<exists>k. c = fst (nodeFrom (fst p) (snd p) k)) fs kids"
      "\<And>items count. snd p = FsArray items count \<Longrightarrow> list_all2 (\<lambda>x c. \<exists>k. c = fst (nodeFrom [] x k)) items kids"
      "\<not> is_container (fsType (snd p)) \<Longrightarrow> kids = []"
    by (rule nodeFrom_shape [of "fst p" "snd p" k], rule that) blast+
  have r: "\<not> removed node" "\<not> raw node" "node_name node = fst p" "node_type node = fsType (snd p)" "children node = kids"
    by (simp_all add: node made)
  have v: "value_problem env node = None"
    using parseNode_reads [of env "snd p" "fst p" k] p by (intro value_problem_reads) (simp add: node made_from_def)
  have name: "name_problem named (trim_white (node_name node)) seen = None"
    using p "2.prems"(2) by (auto simp: name_problem_def r(3) made_from_def fs)
  have inner: "collect env (children node) (node_type node = MapType) [] found = found"
    if c: "is_container (node_type node)"
  proof (cases "snd p")
    case (FsMap gs count)
    have "openable env (FsMap gs count)" using p by (simp add: made_from_def FsMap)
    then have g: "distinct (map fst gs)" "\<And>q. q \<in> set gs \<Longrightarrow> openable env (snd q) \<and> fst q \<noteq> [] \<and> trim_white (fst q) = fst q"
      using enumerated_distinct by (auto simp: assignable_def)
    have "list_all2 (made_from env (node_type node = MapType)) gs (children node)"
      unfolding r(5) by (rule list.rel_mono_strong [OF kids(1) [OF FsMap]]) (use g(2) made_from_child in \<open>metis prod.collapse\<close>)
    then show ?thesis using "2.IH"(2) [OF r(1) refl refl refl] c r(2) g(1) by simp
  next
    case (FsArray items count)
    have "openable env (FsArray items count)" using p by (simp add: made_from_def FsArray)
    then have "list_all2 (made_from env (node_type node = MapType)) (map (\<lambda>x. ([], x)) items) (children node)"
      unfolding r(5) list_all2_map1
      by (intro list.rel_mono_strong [OF kids(2) [OF FsArray]]) (use made_from_child r(4) FsArray in \<open>auto\<close>)
    then show ?thesis using "2.IH"(2) [OF r(1) refl refl refl] c r(2,4) FsArray by simp
  qed (use c r(4) in \<open>simp_all add: is_container_def\<close>)
  let ?name = "trim_white (node_name node)"
  have "named \<longrightarrow> distinct (map fst ps) \<and>
      fst ` set ps \<inter> set (if named \<and> ?name \<noteq> [] then ?name # seen else seen) = {}"
    using p "2.prems"(2) by (auto simp: fs r(3) made_from_def)
  from "2.IH"(3) [OF r(1) refl refl refl refl refl ps this] show ?case
    using r(1) v name inner by (auto simp: Let_def)
qed simp

section \<open>The write saves what the rows say\<close>

text \<open>The rows that stand, by name.\<close>

definition live_rows :: "draft_node list \<Rightarrow> draft_node list" where
  "live_rows nodes = filter (\<lambda>node. \<not> removed node) nodes"

definition row_key :: "draft_node \<Rightarrow> jstring" where
  "row_key node = trim_white (node_name node)"

lemma update_not_Nil: "AList.update k v xs \<noteq> []"
  by (cases xs) auto

lemma collect_keeps: "collect env nodes named seen found = [] \<Longrightarrow> found = []"
proof (induction env nodes named seen found rule: collect.induct)
  case (2 env node rest named seen found)
  show ?case
  proof (cases "removed node")
    case True
    with 2 show ?thesis by simp
  next
    case False
    let ?rows = "is_container (node_type node) \<and> \<not> raw node"
    let ?found1 = "if ?rows then collect env (children node) (node_type node = MapType) [] found else found"
    have "?found1 = []"
      using 2(3) [OF False refl refl refl refl refl] 2(4) False update_not_Nil
      by (auto simp: Let_def split: if_splits)
    then show ?thesis using 2(2) [OF False refl refl refl] by (auto split: if_splits)
  qed
qed simp

lemma parse_entries_total:
  "\<forall>r\<in>set rows. removed (fst r) \<or> row_key (fst r) \<noteq> [] \<and> (\<exists>v. snd r = Inr v) \<Longrightarrow> \<exists>v. parse_entries rows acc = Inr v"
proof (induction rows arbitrary: acc)
  case (Cons r rows)
  then show ?case by (cases r) (auto simp: row_key_def Let_def)
qed simp

lemma parse_elements_total:
  "\<forall>r\<in>set rows. removed (fst r) \<or> (\<exists>v. snd r = Inr v) \<Longrightarrow> \<exists>v. parse_elements rows acc = Inr v"
proof (induction rows arbitrary: acc)
  case (Cons r rows)
  then show ?case by (cases r) auto
qed simp

lemma value_problem_none:
  assumes "value_problem env node = None" and "\<not> (is_container (node_type node) \<and> \<not> raw node)"
  shows "\<exists>v. parseNode env node = Inr v"
proof (cases "is_container (node_type node)")
  case True
  with assms(1) show ?thesis by (auto simp: value_problem_def split: sum.splits)
next
  case False
  with assms(1) obtain v where v: "parseEditorText (date env) (node_type node) (node_text node) = Inr v"
    by (auto simp: value_problem_def split: sum.splits)
  have t: "fsType v = node_type node" using parse_editor_ok [OF v] by simp
  have "parseNode env node = node_step env node (map (\<lambda>c. (c, parseNode env c)) (children node))"
    using False by (simp add: parseNode.simps [of env node] Let_def)
  moreover have "\<exists>w. node_step env node rows = Inr w" for rows
  proof (cases "node_type node")
    case NumberType
    with t obtain x i where "v = FsNumber x i" by (cases v) auto
    with v NumberType show ?thesis by (simp add: node_step_def number_node_def)
  qed (use v False in \<open>simp_all add: node_step_def is_container_def\<close>)
  ultimately show ?thesis by simp
qed

lemma rows_parse:
  assumes "is_container (node_type node)" and "\<not> raw node"
    and "\<forall>c\<in>set (live_rows (children node)). \<exists>v. parseNode env c = Inr v"
    and "node_type node = MapType \<Longrightarrow> [] \<notin> row_key ` set (live_rows (children node))"
  shows "\<exists>v. parseNode env node = Inr v"
proof -
  let ?rows = "map (\<lambda>c. (c, parseNode env c)) (children node)"
  have "\<exists>v. parse_entries ?rows [] = Inr v" if "node_type node = MapType"
    using assms(3) assms(4) [OF that] by (intro parse_entries_total) (force simp: live_rows_def)
  moreover have "\<exists>v. parse_elements ?rows [] = Inr v"
    using assms(3) by (intro parse_elements_total) (auto simp: live_rows_def)
  ultimately show ?thesis using assms(1,2) by (auto simp: parseNode_step node_step_def is_container_def)
qed

lemma no_problems:
  "collect env nodes named seen found = [] \<Longrightarrow>
   (\<forall>node\<in>set (live_rows nodes). \<exists>v. parseNode env node = Inr v) \<and>
   (named \<longrightarrow> distinct (map row_key (live_rows nodes)) \<and> row_key ` set (live_rows nodes) \<inter> insert [] (set seen) = {})"
proof (induction env nodes named seen found rule: collect.induct)
  case (1 env named seen found)
  then show ?case by (simp add: live_rows_def)
next
  case (2 env node rest named seen found)
  show ?case
  proof (cases "removed node")
    case True
    with 2 show ?thesis by (simp add: live_rows_def)
  next
    case False
    let ?rows = "is_container (node_type node) \<and> \<not> raw node" and ?name = "trim_white (node_name node)"
    let ?found1 = "if ?rows then collect env (children node) (node_type node = MapType) [] found else found"
    let ?seen = "if named \<and> ?name \<noteq> [] then ?name # seen else seen"
    let ?found2 = "if name_problem named ?name seen = None \<and> (if ?rows then None else value_problem env node) = None then ?found1
        else AList.update (node_id node) (name_problem named ?name seen, if ?rows then None else value_problem env node) ?found1"
    have c: "collect env rest named ?seen ?found2 = []" using 2(4) False by (simp add: Let_def)
    have f: "?found2 = []" by (rule collect_keeps [OF c])
    then have p: "name_problem named ?name seen = None" "(if ?rows then None else value_problem env node) = None" "?found1 = []"
      using update_not_Nil by (auto split: if_splits)
    have rest: "(\<forall>node\<in>set (live_rows rest). \<exists>v. parseNode env node = Inr v) \<and>
      (named \<longrightarrow> distinct (map row_key (live_rows rest)) \<and> row_key ` set (live_rows rest) \<inter> insert [] (set ?seen) = {})"
      using 2(3) [OF False refl refl refl refl refl] c by simp
    have node: "\<exists>v. parseNode env node = Inr v"
    proof (cases ?rows)
      case True
      with p(3) have "collect env (children node) (node_type node = MapType) [] found = []" by simp
      from 2(2) [OF False refl refl refl True this] True show ?thesis by (intro rows_parse) auto
    next
      case False
      with p(2) show ?thesis by (intro value_problem_none) auto
    qed
    have "named \<longrightarrow> ?name \<noteq> [] \<and> ?name \<notin> set seen" using p(1) by (auto simp: name_problem_def split: if_splits)
    with rest node False show ?thesis by (auto simp: live_rows_def simp flip: row_key_def)
  qed
qed

text \<open>The draft's fields, and the store after the write.\<close>

lemma map_of_replace: "map_of (map (\<lambda>p. if fst p = k then (k, v) else p) ps) x =
    (if x = k \<and> k \<in> fst ` set ps then Some v else map_of ps x)"
proof (induction ps)
  case (Cons p ps)
  then show ?case by (cases p; cases "x = k"; cases "fst p = k"; cases "k \<in> fst ` set ps") simp_all
qed simp

lemma map_of_obj_set: "map_of (obj_set k v ps) = (map_of ps)(k \<mapsto> v)"
proof (cases "k \<in> fst ` set ps")
  case True
  then show ?thesis by (auto simp: obj_set_def fun_eq_iff map_of_replace)
next
  case False
  have "map_of (insert_index k v ps) x = ((map_of ps)(k \<mapsto> v)) x" for x
    using False by (induction ps) auto
  moreover have "map_of (ps @ [(k, v)]) x = ((map_of ps)(k \<mapsto> v)) x" for x
    using False by (induction ps) auto
  ultimately show ?thesis using False by (simp add: obj_set_def fun_eq_iff)
qed

lemma map_of_assign: "map_of (assign k v ps) = (if k = PROTO then map_of ps else (map_of ps)(k \<mapsto> v))"
  by (simp add: assign_def map_of_obj_set)

definition stored_after :: "(jstring \<times> fs_value) list \<Rightarrow> document_diff \<Rightarrow> jstring \<Rightarrow> fs_value option" where
  "stored_after original d k =
     (case map_of (diff_write d) k of
        Some v \<Rightarrow> Some v
      | None \<Rightarrow> if k \<in> set (diff_clear d) then None else map_of original k)"

definition draft_step :: "draft_env \<Rightarrow> draft_node \<Rightarrow> (jstring \<times> fs_value) list \<Rightarrow> (jstring \<times> fs_value) list" where
  "draft_step env node fs = (if removed node then fs
     else case parseNode env node of Inl e \<Rightarrow> fs | Inr v \<Rightarrow> assign (trim_white (node_name node)) v fs)"

lemma draftFields_fold: "draftFields env nodes = fold (draft_step env) nodes []"
  unfolding draftFields_def draft_step_def by (rule refl)

lemma draft_other:
  assumes "\<forall>node\<in>set nodes. row_key node \<noteq> k \<or> removed node"
  shows "map_of (fold (draft_step env) nodes acc) k = map_of acc k"
  using assms
proof (induction nodes arbitrary: acc)
  case (Cons node nodes)
  have "map_of (draft_step env node acc) k = map_of acc k"
    using Cons.prems by (auto simp: draft_step_def map_of_assign row_key_def split: sum.splits)
  with Cons show ?case by simp
qed simp

lemma diff_other:
  assumes "\<forall>node\<in>set nodes. row_key node \<noteq> k \<or> removed node"
  shows "map_of (fst (fold (diff_step env original) nodes st)) k = map_of (fst st) k \<and>
    (k \<in> set (snd (fold (diff_step env original) nodes st)) \<longleftrightarrow> k \<in> set (snd st))"
  using assms
proof (induction nodes arbitrary: st)
  case (Cons node nodes)
  have "map_of (fst (diff_step env original node st)) k = map_of (fst st) k \<and>
      (k \<in> set (snd (diff_step env original node st)) \<longleftrightarrow> k \<in> set (snd st))"
    using Cons.prems by (auto simp: diff_step_def Let_def map_of_assign row_key_def split: prod.splits sum.splits option.splits)
  with Cons show ?case by simp
qed simp

text \<open>A name that one row has.\<close>

lemma draft_hit:
  assumes "node \<in> set nodes" and "\<not> removed node" and "parseNode env node = Inr v" and "row_key node \<noteq> PROTO"
    and "distinct (map row_key (live_rows nodes))"
  shows "map_of (draftFields env nodes) (row_key node) = Some v"
    and "map_of (fst (fold (diff_step env original) nodes ([], []))) (row_key node) =
      (case map_of original (row_key node) of Some b \<Rightarrow> if sameValue env b v then None else Some v | None \<Rightarrow> Some v)"
    and "row_key node \<in> set (snd (fold (diff_step env original) nodes ([], [])))"
proof -
  obtain xs ys where nodes: "nodes = xs @ node # ys" using assms(1) by (meson split_list)
  have "row_key node \<notin> row_key ` {n \<in> set xs. \<not> removed n}" "row_key node \<notin> row_key ` {n \<in> set ys. \<not> removed n}"
    using assms(2,5) by (simp_all add: nodes live_rows_def)
  then have other: "\<forall>n\<in>set xs. row_key n \<noteq> row_key node \<or> removed n" "\<forall>n\<in>set ys. row_key n \<noteq> row_key node \<or> removed n"
    by (metis (mono_tags, lifting) image_eqI mem_Collect_eq)+
  show "map_of (draftFields env nodes) (row_key node) = Some v"
    using draft_other [OF other(2)] assms(2-4) by (simp add: draftFields_fold nodes draft_step_def [of env node] map_of_assign row_key_def)
  let ?st = "fold (diff_step env original) xs ([], [])"
  have st: "map_of (fst ?st) (row_key node) = None" using diff_other [OF other(1), of env original "([], [])"] by simp
  obtain ws live where ws: "?st = (ws, live)" by fastforce
  show "map_of (fst (fold (diff_step env original) nodes ([], []))) (row_key node) =
      (case map_of original (row_key node) of Some b \<Rightarrow> if sameValue env b v then None else Some v | None \<Rightarrow> Some v)"
    using diff_other [OF other(2)] assms(2-4) st ws
    by (simp add: nodes diff_step_def [of env original node] Let_def map_of_assign row_key_def split: option.splits)
  show "row_key node \<in> set (snd (fold (diff_step env original) nodes ([], [])))"
    using diff_other [OF other(2)] assms(2-4) ws by (simp add: nodes diff_step_def [of env original node] Let_def row_key_def)
qed

lemma draft_proto: "map_of (draftFields env nodes) PROTO = None"
proof -
  have "map_of (fold (draft_step env) nodes acc) PROTO = map_of acc PROTO" for acc
    by (induction nodes arbitrary: acc) (simp_all add: draft_step_def map_of_assign split: sum.splits)
  then show ?thesis by (simp add: draftFields_fold)
qed

lemma diff_proto: "map_of (fst (fold (diff_step env original) nodes ([], []))) PROTO = None"
proof -
  have "map_of (fst (fold (diff_step env original) nodes st)) PROTO = map_of (fst st) PROTO" for st
    by (induction nodes arbitrary: st)
      (auto simp: diff_step_def Let_def map_of_assign split: sum.splits option.splits prod.splits)
  then show ?thesis by simp
qed

lemma diff_fields:
  "diff_write (diffDocument env original nodes) = fst (fold (diff_step env original) nodes ([], []))"
  "diff_clear (diffDocument env original nodes) =
     filter (\<lambda>name. name \<notin> set (snd (fold (diff_step env original) nodes ([], [])))) (map fst original)"
  by (simp_all add: diffDocument_def case_prod_beta)

lemma saved_field:
  assumes "problemsOf env nodes = []" and "map_of original PROTO = None"
  shows "rel_option (sameValue env) (stored_after original (diffDocument env original nodes) k) (map_of (draftFields env nodes) k)"
proof -
  have rows: "\<forall>node\<in>set (live_rows nodes). \<exists>v. parseNode env node = Inr v" "distinct (map row_key (live_rows nodes))"
    using no_problems [of env nodes True "[]" "[]"] assms(1) by (auto simp: problemsOf_def)
  consider "k = PROTO" | node where "k \<noteq> PROTO" "node \<in> set nodes" "\<not> removed node" "k = row_key node"
    | "\<forall>node\<in>set nodes. row_key node \<noteq> k \<or> removed node" by blast
  then show ?thesis
  proof cases
    case 1
    then show ?thesis using draft_proto diff_proto assms(2) by (simp add: stored_after_def diff_fields)
  next
    case (2 node)
    then obtain v where v: "parseNode env node = Inr v" using rows(1) by (auto simp: live_rows_def)
    have "row_key node \<noteq> PROTO" using 2 by simp
    note hit = draft_hit [OF 2(2,3) v this rows(2)]
    show ?thesis unfolding 2(4) stored_after_def diff_fields hit(1)
      using hit(2,3) [of original] by (auto simp: sameValue_def split: option.splits)
  next
    case 3
    have "map_of original k = None \<or> k \<in> set (map fst original)" using weak_map_of_SomeI by (metis domIff dom_map_of_conv_image_fst set_map)
    then show ?thesis using draft_other [OF 3] diff_other [OF 3, of env original "([], [])"]
      by (auto simp: draftFields_fold stored_after_def diff_fields)
  qed
qed

lemma problems_unedited:
  assumes "open_document env fs"
  shows "problemsOf env (fst (nodesFrom fs stored n)) = []"
proof -
  have fs: "distinct (map fst fs)" "\<And>p. p \<in> set fs \<Longrightarrow> openable env (snd p) \<and> fst p \<noteq> [] \<and> trim_white (fst p) = fst p"
    using assms enumerated_distinct by (auto simp: open_document_def assignable_def)
  have "list_all2 (made_from env True) fs (fst (nodesFrom fs stored n))"
    unfolding nodesFrom_def
  proof (rule list.rel_mono_strong [OF thread_rows], elim exE)
    fix p node k assume p: "p \<in> set fs" and "node = fst (case nodeFrom (fst p) (snd p) k of (node, k1) \<Rightarrow>
      (if stored then set_was (Some (fst p)) node else node, k1))"
    then have node: "node = (if stored then set_was (Some (fst p)) (fst (nodeFrom (fst p) (snd p) k))
        else fst (nodeFrom (fst p) (snd p) k))"
      by (simp add: case_prod_beta)
    show "made_from env True p node"
      using fs(2) [OF p] made_from_child [of env "snd p" True "fst p" k] by (auto simp: node made_from_def)
  qed
  from collect_made [OF this] fs(1) show ?thesis by (simp add: problemsOf_def)
qed

section \<open>Properties\<close>

text \<open>
  C40. A document opened in the editor and not edited has nothing to save: its rows have no problem
  and the write computed from them writes no field and clears none, with maps and arrays to any
  depth, whichever spelling of its instants the engine uses and whether or not its doubles are
  whole. The document must have arrived whole; its names must have no white space around them and
  be neither empty nor \<open>__proto__\<close>; its numbers must be finite and its integers short enough to be
  written without an exponent; its instants must be read by \<open>Date\<close>, its references be paths of
  documents with no collection named \<open>documents\<close>, its places in range and its bytes base64.
\<close>

theorem unedited_not_written:
  assumes "open_document env fs"
  shows "problemsOf env (fst (nodesFrom fs stored n)) = [] \<and>
    diffDocument env fs (fst (nodesFrom fs stored n)) = \<lparr>diff_write = [], diff_clear = []\<rparr>"
  using problems_unedited [OF assms] diff_document_unedited [OF assms] by simp

text \<open>The server's spelling of a day and the editor's.\<close>

definition day_env :: draft_env where
  "day_env = \<lparr>date = (\<lambda>t. if t \<in> {js ''2026-11-01T00:00:00Z'', js ''2026-11-01T00:00:00.000Z''}
       then Some (js ''2026-11-01T00:00:00.000Z'') else None),
     now = js ''2026-11-01T00:00:00.000Z'', syntax_message = (\<lambda>t. js ''Unexpected token'')\<rparr>"

definition stored_fields :: "(jstring \<times> fs_value) list" where
  "stored_fields = [(js ''due'', FsTimestamp (js ''2026-11-01T00:00:00Z'')),
     (js ''tags'', FsArray [FsMap [(js ''by'', FsReference (js ''users/ada'') (js ''users/ada''))] None, FsNull] None)]"

lemma sample_open: "open_document day_env stored_fields"
  unfolding open_document_def stored_fields_def by code_simp

theorem unedited_not_written_witness:
  "open_document day_env stored_fields \<and> problemsOf day_env (fst (nodesFrom stored_fields True 0)) = [] \<and>
   diffDocument day_env stored_fields (fst (nodesFrom stored_fields True 0)) = \<lparr>diff_write = [], diff_clear = []\<rparr>"
  using sample_open unedited_not_written [OF sample_open, of True 0] by simp


text \<open>One field renamed to the name of another, which is removed.\<close>

definition sample_nodes :: "draft_node list" where
  "sample_nodes =
     [DraftNode (js ''f1'') (js ''b'') StringType (js ''one'') [] None False False [] False (Some (js ''a'')),
      DraftNode (js ''f2'') (js ''b'') BooleanType (js ''true'') [] None False False [] True (Some (js ''b''))]"


end
