(* ===== verification/Firestore_Tab.thy ===== *)
theory Firestore_Tab
  imports Firestore_Saved
begin

text \<open>
  The JSON tab of the document editor: a draft written as JSON and read back keeps its rows, with
  their types, as long as the JSON read plainly is the JSON it was written from.
\<close>

section \<open>JSON that stays what it is\<close>

lemma toJsonValue_toJson [simp]: "toJsonValue v = toJson v"
  by (cases v) simp_all

text \<open>
  JSON that inference does not rewrite: an instant in it is spelled as the reader of dates spells
  it, and an object taken for a place or a vector holds nothing else.
\<close>

function json_kept :: "date_reader \<Rightarrow> json \<Rightarrow> bool" where
  "json_kept rd (JStr t) \<longleftrightarrow> \<not> ISO_TIMESTAMP t \<or> rd t = None \<or> rd t = Some t"
| "json_kept rd (JArr vs) \<longleftrightarrow> (\<forall>v\<in>set vs. json_kept rd v)"
| "json_kept rd (JObj ps) \<longleftrightarrow> assignable ps \<and>
     (case (case asVector ps of Some v \<Rightarrow> Some v | None \<Rightarrow> asGeopoint ps) of
        Some v \<Rightarrow> toJson v = JObj ps
      | None \<Rightarrow> \<forall>p\<in>set ps. json_kept rd (snd p))"
| "json_kept rd (JNum x) \<longleftrightarrow> True"
| "json_kept rd (JBool b) \<longleftrightarrow> True"
| "json_kept rd JNull \<longleftrightarrow> True"
| "json_kept rd JUndefined \<longleftrightarrow> False"
  by pat_completeness auto
termination by (relation "measure (\<lambda>(rd, v). size v)")
  (auto elim!: in_set_conv_decomp [THEN iffD1, THEN exE])

lemma kept_back: "json_kept rd j \<Longrightarrow> toJson (fromJson rd j INFER) = j"
proof (induction rd j rule: json_kept.induct)
  case (2 rd vs)
  then show ?case by (simp add: map_idI)
next
  case (3 rd ps)
  let ?shaped = "case asVector ps of Some v \<Rightarrow> Some v | None \<Rightarrow> asGeopoint ps"
  have p: "assignable ps" using "3.prems" by simp
  show ?case
  proof (cases ?shaped)
    case None
    have "toJson (fromJson rd (snd p) INFER) = snd p" if "p \<in> set ps" for p
      using "3.IH" [OF None that] "3.prems" None that by simp
    then have "map (\<lambda>p. (fst p, toJson (fromJson rd (snd p) INFER))) ps = ps" by (simp add: map_idI)
    moreover have q: "assignable (map (\<lambda>p. (fst p, fromJson rd (snd p) INFER)) ps)"
      using p assignable_map [of "\<lambda>v. fromJson rd v INFER"] by simp
    ultimately show ?thesis using None assign_all_plain [OF q, of toJson]
      by (simp add: INFER_def [THEN arg_cong [of _ _ shapes]] assign_all_plain [OF p] comp_def)
  next
    case (Some v)
    with "3.prems" show ?thesis by (simp add: INFER_def [THEN arg_cong [of _ _ shapes]])
  qed
qed (auto simp: INFER_def)

text \<open>Which numbers are doubles does not show in JSON.\<close>

lemma assign_keyed_plain: "assignable ps \<Longrightarrow> assign_keyed f ps = map (\<lambda>p. (fst p, f (fst p) (snd p))) ps"
proof -
  assume p: "assignable ps"
  then have "filter (\<lambda>p. fst p \<noteq> PROTO) ps = ps" by (intro filter_True) (force simp: assignable_def)
  moreover have "obj_of (map (\<lambda>p. (fst p, f (fst p) (snd p))) ps) = map (\<lambda>p. (fst p, f (fst p) (snd p))) ps"
    using p by (intro obj_of_enumerated) (simp add: assignable_def comp_def)
  ultimately show ?thesis by (simp add: assign_keyed_def)
qed

lemma map_indexed: "(\<And>i x. x \<in> set xs \<Longrightarrow> g (f i x) = h x) \<Longrightarrow> map g (indexed n f xs) = map h xs"
  by (induction xs arbitrary: n) (simp_all add: indexed_def)

lemma fix_doubles_json: "value_ok v \<Longrightarrow> toJson (fix_doubles s spans path v) = toJson v"
proof (induction s spans path v rule: fix_doubles.induct)
  case (2 s spans path fs count)
  let ?f = "\<lambda>p. (fst p, fix_doubles s spans (path @ [fst p]) (snd p))"
  have p: "assignable fs" "\<forall>p\<in>set fs. value_ok (snd p)" using "2.prems" by simp_all
  then have "assignable (map ?f fs)" by (simp add: assignable_def comp_def image_image)
  with 2 p show ?case by (simp add: assign_keyed_plain assign_all_plain comp_def)
next
  case (3 s spans path items count)
  then show ?case by (auto intro!: map_indexed)
qed (simp_all split: option.splits)

section \<open>The rows a text gives\<close>

lemma parse_object_enumerated: "parse_json s = Some (JObj ps) \<Longrightarrow> enumerated (map fst ps)"
proof -
  assume p: "parse_json s = Some (JObj ps)"
  then obtain r where "read_value (Suc (length s)) (skip_space s) = Some (JObj ps, r)"
    by (auto simp: parse_json_def split: option.splits if_splits)
  then show ?thesis
    by (auto simp: enumerated_obj_of enumerated_def [of "[]"] Let_def read_word_def
        split: list.splits if_splits option.splits prod.splits)
qed

definition entry_value :: "draft_env \<Rightarrow> jstring \<Rightarrow> jstring \<times> json \<Rightarrow> fs_value" where
  "entry_value env s p = fix_doubles s (valueSpans s) [fst p] (fromJson (date env) (snd p) INFER)"

definition own_entries :: "(jstring \<times> 'a) list \<Rightarrow> (jstring \<times> 'a) list" where
  "own_entries ps = filter (\<lambda>p. fst p \<noteq> PROTO) ps"

lemma own_assignable: "enumerated (map fst ps) \<Longrightarrow> assignable (own_entries ps)"
  by (auto simp: assignable_def own_entries_def enumerated_def sorted_wrt_map sorted_wrt_filter)

lemma tab_fields:
  assumes "enumerated (map fst ps)"
  shows "readContainer env (JObj ps) s = Some (FsMap (map (\<lambda>p. (fst p, entry_value env s p)) (own_entries ps)) None)"
proof -
  let ?f = "\<lambda>v. fromJson (date env) v INFER"
  have own: "assignable (own_entries ps)" using assms by (rule own_assignable)
  have "assign_all ?f ps = assign_all ?f (own_entries ps)" by (simp add: assign_all_def own_entries_def)
  then have all: "assign_all ?f ps = map (\<lambda>p. (fst p, ?f (snd p))) (own_entries ps)" using assign_all_plain [OF own] by simp
  have "assignable (map (\<lambda>p. (fst p, ?f (snd p))) (own_entries ps))" using own assignable_map [of ?f] by simp
  from assign_keyed_plain [OF this] show ?thesis by (simp add: readDoubles_def all entry_value_def comp_def)
qed

lemma entry_json:
  assumes "parse_json s = Some (JObj ps)" and "p \<in> set ps" and "json_kept (date env) (snd p)"
  shows "toJson (entry_value env s p) = snd p"
proof -
  have "no_nan (snd p)" using parse_no_nan [OF assms(1)] assms(2) by simp
  then show ?thesis
    using fix_doubles_json [OF fromJson_ok] kept_back [OF assms(3)] by (simp add: entry_value_def)
qed

lemma row_named_node:
  assumes "distinct (map node_name current)" and "node \<in> set current"
  shows "row_named (map (with_reading env) current) (node_name node) = Some (with_reading env node)"
proof -
  let ?rows = "map (\<lambda>r. (node_name (fst r), r)) (map (with_reading env) current)"
  have "map fst ?rows = map node_name current" by (simp add: comp_def with_reading_def)
  then have "distinct (map fst (rev ?rows))" using assms(1) by (metis rev_map distinct_rev)
  moreover have "(node_name node, with_reading env node) \<in> set (rev ?rows)"
    using assms(2) by (force simp: with_reading_def)
  ultimately show ?thesis unfolding row_named_def by (rule map_of_is_SomeI)
qed

lemma entry_row_kept:
  assumes "distinct (map node_name current)" and "node \<in> set current" and "parseNode env node = Inr v"
    and "toJson item = toJson v"
  shows "map_entry_row env (map (with_reading env) current) (node_name node, item) n =
    ((set_removed False node, Inr v), n)"
  using row_named_node [OF assms(1,2), of env] assms(3,4)
  by (simp add: map_entry_row_def with_reading_def agrees_def)

lemma entry_row_name: "node_name (fst (fst (map_entry_row env (map (with_reading env) current) p n))) = fst p"
proof -
  have new: "node_name (fst (nodeFrom (fst p) (snd p) n)) = fst p"
    by (rule nodeFrom_shape [of "fst p" "snd p" n]) simp
  have old: "node_name previous = fst p" if "row_named (map (with_reading env) current) (fst p) = Some (previous, r)" for previous r
    using map_of_SomeD [OF that [unfolded row_named_def]] by (auto simp: with_reading_def)
  have names: "node_name (set_removed b node) = node_name node" "node_name (set_was w node) = node_name node" for b w node
    by (cases node; simp)+
  show ?thesis using new old
    by (auto simp: map_entry_row_def fresh_row_def names split: option.splits prod.splits)
qed

lemma from_text:
  assumes "parse_json s = Some (JObj ps)"
  shows "nodesFromJson env s current n =
    (case thread (map_entry_row env (map (with_reading env) current))
        (map (\<lambda>p. (fst p, entry_value env s p)) (own_entries ps)) n of (rows, n1) \<Rightarrow> Inr (map fst rows, n1))"
  using tab_fields [OF parse_object_enumerated [OF assms]] by (simp add: nodesFromJson_def assms mapEntries_def)

lemma thread_still: "(\<And>x. x \<in> set xs \<Longrightarrow> f x n = (g x, n)) \<Longrightarrow> thread f xs n = (map g xs, n)"
  by (induction xs) simp_all

lemma thread_map: "thread f (map g xs) n = thread (\<lambda>x. f (g x)) xs n"
  by (induction xs arbitrary: n) simp_all

text \<open>A draft the JSON tab shows in full: every row that stands reads, and its JSON stays what it is.\<close>

definition tab_row :: "draft_env \<Rightarrow> draft_node \<Rightarrow> bool" where
  "tab_row env node \<longleftrightarrow> units_ok (node_name node) \<and>
     (case parseNode env node of Inl e \<Rightarrow> False | Inr v \<Rightarrow> json_kept (date env) (toJson v) \<and> settled (toJson v))"

definition tab_rows :: "draft_env \<Rightarrow> draft_node list \<Rightarrow> bool" where
  "tab_rows env nodes \<longleftrightarrow> distinct (map node_name nodes) \<and>
     assignable (map (\<lambda>node. (node_name node, ())) (live_rows nodes)) \<and> list_all (tab_row env) (live_rows nodes)"

lemma to_json_plain:
  assumes "assignable (acc @ map (\<lambda>node. (node_name node, looseJson env node)) (live_rows nodes))"
  shows "fold (\<lambda>node. if removed node then id else assign (node_name node) (looseJson env node)) nodes acc =
    acc @ map (\<lambda>node. (node_name node, looseJson env node)) (live_rows nodes)"
  using assms
proof (induction nodes arbitrary: acc)
  case (Cons node nodes)
  show ?case
  proof (cases "removed node")
    case True
    with Cons show ?thesis by (simp add: live_rows_def)
  next
    case False
    have "node_name node \<noteq> PROTO" "obj_set (node_name node) (looseJson env node) acc = acc @ [(node_name node, looseJson env node)]"
      using Cons.prems False
      by (auto simp: live_rows_def assignable_def enumerated_def sorted_wrt_append intro!: obj_set_last)
    then show ?thesis using False Cons.IH [of "acc @ [(node_name node, looseJson env node)]"] Cons.prems
      by (simp add: assign_def live_rows_def)
  qed
qed (simp add: live_rows_def)

lemma live_row: "tab_rows env nodes \<Longrightarrow> node \<in> set (live_rows nodes) \<Longrightarrow> \<exists>v. parseNode env node = Inr v \<and>
    json_kept (date env) (toJson v) \<and> settled (toJson v) \<and> units_ok (node_name node) \<and> looseJson env node = toJson v"
  by (auto simp: tab_rows_def tab_row_def list_all_iff looseJson_def split: sum.splits)

lemma tab_json:
  assumes "tab_rows env nodes"
  shows "nodesToJson env nodes = map (\<lambda>node. (node_name node, looseJson env node)) (live_rows nodes)"
    and "settled (JObj (nodesToJson env nodes))"
    and "own_entries (nodesToJson env nodes) = nodesToJson env nodes"
proof -
  have a: "assignable (map (\<lambda>node. (node_name node, looseJson env node)) (live_rows nodes))"
    using assms by (simp add: tab_rows_def assignable_def comp_def image_image)
  then show j: "nodesToJson env nodes = map (\<lambda>node. (node_name node, looseJson env node)) (live_rows nodes)"
    using to_json_plain [of "[]"] by (simp add: nodesToJson_def)
  show "own_entries (nodesToJson env nodes) = nodesToJson env nodes"
    using a unfolding j own_entries_def by (intro filter_True) (force simp: assignable_def image_image)
  show "settled (JObj (nodesToJson env nodes))"
    using a live_row [OF assms] unfolding j by (fastforce simp: assignable_def)
qed

lemma set_live: "\<not> removed node \<Longrightarrow> set_removed False node = node"
  by (cases node) simp

lemma tab_back:
  assumes "tab_rows env nodes"
  shows "nodesFromJson env (pretty_json [] (JObj (nodesToJson env nodes))) nodes n = Inr (live_rows nodes, n)"
proof -
  let ?s = "pretty_json [] (JObj (nodesToJson env nodes))"
  have s: "parse_json ?s = Some (JObj (nodesToJson env nodes))" using view_text.parse_written [OF tab_json(2) [OF assms]] by simp
  let ?item = "\<lambda>node. (node_name node, entry_value env ?s (node_name node, looseJson env node))"
  have row: "map_entry_row env (map (with_reading env) nodes) (?item node) n = ((node, parseNode env node), n)"
    if node: "node \<in> set (live_rows nodes)" for node
  proof -
    obtain v where v: "parseNode env node = Inr v" "json_kept (date env) (toJson v)" "looseJson env node = toJson v"
      using live_row [OF assms node] by blast
    have "(node_name node, looseJson env node) \<in> set (nodesToJson env nodes)" using node by (simp add: tab_json(1) [OF assms])
    from entry_json [OF s this] v have "toJson (entry_value env ?s (node_name node, looseJson env node)) = toJson v" by simp
    moreover have "node \<in> set nodes" "set_removed False node = node"
      using node set_live [of node] by (simp_all add: live_rows_def)
    moreover have "distinct (map node_name nodes)" using assms by (simp add: tab_rows_def)
    ultimately show ?thesis using entry_row_kept [of nodes node env v] v(1) by metis
  qed
  have "thread (map_entry_row env (map (with_reading env) nodes)) (map ?item (live_rows nodes)) n =
      (map (\<lambda>node. (node, parseNode env node)) (live_rows nodes), n)"
    using thread_still [of "live_rows nodes" "\<lambda>node. map_entry_row env (map (with_reading env) nodes) (?item node)"] row
    by (simp add: thread_map)
  then show ?thesis
    unfolding from_text [OF s] tab_json(3) [OF assms] by (simp add: tab_json(1) [OF assms] comp_def)
qed

lemma rows_of_text:
  assumes "parse_json s = Some (JObj ps)"
  shows "\<exists>rows n'. nodesFromJson env s current n = Inr (rows, n') \<and> list_all2 (\<lambda>p node.
    \<exists>k. node = fst (fst (map_entry_row env (map (with_reading env) current) (fst p, entry_value env s p) k)))
    (own_entries ps) rows"
proof -
  obtain rows n' where r: "thread (map_entry_row env (map (with_reading env) current))
      (map (\<lambda>p. (fst p, entry_value env s p)) (own_entries ps)) n = (rows, n')" by fastforce
  have "list_all2 (\<lambda>p row. \<exists>k. row = fst (map_entry_row env (map (with_reading env) current) (fst p, entry_value env s p) k))
      (own_entries ps) rows"
    using thread_rows [of "\<lambda>p. map_entry_row env (map (with_reading env) current) (fst p, entry_value env s p)" "own_entries ps" n]
      r by (simp add: thread_map)
  then have "list_all2 (\<lambda>p node. \<exists>k. node = fst (fst (map_entry_row env (map (with_reading env) current)
      (fst p, entry_value env s p) k))) (own_entries ps) (map fst rows)"
    unfolding list_all2_map2 by (rule list.rel_mono_strong) metis
  with r show ?thesis by (simp add: from_text [OF assms])
qed

lemma list_all2_names: "list_all2 (\<lambda>p node. node_name node = fst p) ps rows \<Longrightarrow> map node_name rows = map fst ps"
  by (induction rule: list_all2_induct) simp_all

text \<open>
  Typing in the JSON tab changes the rows typed at and no other: whatever the text, if it reads
  as an object then the rows are its entries in order, and an entry that still says what its row
  says keeps that row as it is, of whatever type, no longer removed if it was.
\<close>

lemma json_tab_keeps:
  assumes "parse_json s = Some (JObj ps)" and "distinct (map node_name current)" and "node \<in> set current"
    and "parseNode env node = Inr v" and "json_kept (date env) (toJson v)"
    and "(node_name node, toJson v) \<in> set ps" and "node_name node \<noteq> PROTO"
  shows "\<exists>rows n'. nodesFromJson env s current n = Inr (rows, n') \<and>
    map node_name rows = map fst (own_entries ps) \<and> set_removed False node \<in> set rows"
proof -
  let ?row = "\<lambda>p k. fst (fst (map_entry_row env (map (with_reading env) current) (fst p, entry_value env s p) k))"
  obtain rows n' where r: "nodesFromJson env s current n = Inr (rows, n')"
      "list_all2 (\<lambda>p node. \<exists>k. node = ?row p k) (own_entries ps) rows"
    using rows_of_text [OF assms(1)] by blast
  have "map node_name rows = map fst (own_entries ps)"
    by (rule list_all2_names, rule list.rel_mono_strong [OF r(2)]) (auto simp: entry_row_name)
  moreover have "(node_name node, toJson v) \<in> set (own_entries ps)" using assms(6,7) by (simp add: own_entries_def)
  then obtain i where i: "i < length (own_entries ps)" "own_entries ps ! i = (node_name node, toJson v)"
    by (auto simp: in_set_conv_nth)
  with list_all2_nthD [OF r(2) i(1)] obtain k where k: "rows ! i = ?row (node_name node, toJson v) k" by auto
  have "toJson (entry_value env s (node_name node, toJson v)) = toJson v"
    using entry_json [OF assms(1,6)] assms(5) by simp
  then have "rows ! i = set_removed False node"
    unfolding k using entry_row_kept [OF assms(2-4)] by simp
  moreover have "rows ! i \<in> set rows" using i(1) list_all2_lengthD [OF r(2)] by (intro nth_mem) simp
  ultimately show ?thesis using r(1) by auto
qed

lemma diff_live: "fold (diff_step env original) (live_rows nodes) st = fold (diff_step env original) nodes st"
  by (induction nodes arbitrary: st) (auto simp: live_rows_def diff_step_def split: prod.splits)

lemma collect_live: "collect env (live_rows nodes) named seen found = collect env nodes named seen found"
  by (induction nodes arbitrary: seen found) (simp_all add: live_rows_def Let_def)

section \<open>Properties\<close>

text \<open>
  C16. Looking at a draft in the JSON tab changes nothing: the text the tab shows, read back, gives
  the rows that stand, the very same rows with their types, their marks of integer and double and
  their old names, though the text shows neither references, bytes nor instants as such; what
  would be saved and what is wrong stay the same as well. This is so for drafts whose rows that
  stand all read, with finite numbers, where no string looks like an instant spelled another way
  than \<open>toISOString\<close> spells it, and where a map that looks like a place or a vector is one and
  nothing more. No two rows may share a name, those marked for deletion included, none that stands
  may be named \<open>__proto__\<close>, and names that are array indices must come first, in their order, as
  the keys of an object do.
\<close>

theorem json_tab_unchanged:
  assumes "tab_rows env nodes"
  shows "nodesFromJson env (pretty_json [] (JObj (nodesToJson env nodes))) nodes n = Inr (live_rows nodes, n) \<and>
    diffDocument env original (live_rows nodes) = diffDocument env original nodes \<and>
    problemsOf env (live_rows nodes) = problemsOf env nodes"
  using tab_back [OF assms] by (simp add: diffDocument_def diff_live problemsOf_def collect_live)

definition reference_row :: draft_node where
  "reference_row = DraftNode (js ''f1'') (js ''by'') ReferenceType (js ''users/ada'') [] None False False [] False (Some (js ''by''))"

definition flag_row :: "bool \<Rightarrow> draft_node" where
  "flag_row gone = DraftNode (js ''f2'') (js ''done'') BooleanType (js ''true'') [] None False False [] gone (Some (js ''done''))"

lemma sample_rows_read:
  "parseNode day_env reference_row = Inr (FsReference (js ''users/ada'') (js ''users/ada''))"
  "parseNode day_env (flag_row gone) = Inr (FsBoolean True)"
proof -
  have "parseEditorText (date day_env) ReferenceType (js ''users/ada'') = Inr (FsReference (js ''users/ada'') (js ''users/ada''))"
    by code_simp
  then show "parseNode day_env reference_row = Inr (FsReference (js ''users/ada'') (js ''users/ada''))"
    by (subst parseNode.simps) (simp add: reference_row_def node_step_def Let_def is_container_def)
  have "parseEditorText (date day_env) BooleanType (js ''true'') = Inr (FsBoolean True)"
    by code_simp
  then show "parseNode day_env (flag_row gone) = Inr (FsBoolean True)"
    by (subst parseNode.simps) (simp add: flag_row_def node_step_def Let_def is_container_def)
qed

lemma sample_kept: "json_kept (date day_env) (JStr (js ''users/ada''))" "settled (JStr (js ''users/ada''))"
  by code_simp+

theorem json_tab_unchanged_witness:
  "tab_rows day_env [reference_row, flag_row True] \<and>
   nodesFromJson day_env (pretty_json [] (JObj (nodesToJson day_env [reference_row, flag_row True])))
     [reference_row, flag_row True] 7 = Inr ([reference_row], 7)"
proof -
  have live: "live_rows [reference_row, flag_row True] = [reference_row]"
    by (simp add: live_rows_def reference_row_def flag_row_def)
  have "tab_rows day_env [reference_row, flag_row True]"
    unfolding tab_rows_def live using sample_kept
    by (simp add: tab_row_def sample_rows_read)
      (simp add: reference_row_def flag_row_def assignable_def enumerated_def PROTO_def units_ok_def)
  then show ?thesis using json_tab_unchanged live by metis
qed

end
