(* ===== verification/Spec2Isabelle.thy ===== *)
theory Spec2Isabelle
  imports Feed_Store Filter_Fields Rules_Outline Live_Fleet Firestore_Tab
begin

text \<open>
  A verification library for the console of Firenook, the TypeScript front end under
  \<open>src/console/src\<close> of a local emulator of the Firebase services. It covers the parts of the console
  that compute rather than draw: the rows of the live feeds, the filter language of the search
  fields, the reading of security rules in the rules editor, the channel that brings the engine's
  events to every tab, and the values and the document editor of the Firestore page.

  \<^bold>\<open>The language.\<close>
  \<open>JS_Base\<close> has strings as lists of UTF-16 units, code points, decimal numerals, \<open>split\<close>, \<open>join\<close> and
  the loops that walk a string. \<open>JS_Number\<close> has doubles as rationals with the two infinities and
  NaN; every rounding of the source is a call of \<open>toDouble\<close>, and minus zero is not told from zero.
  \<open>JS_Json\<close> has JSON values, \<open>JSON.parse\<close> and the text of strings and numbers (the shortest digits
  that round to the number). \<open>JS_Object\<close> has the order in which an object enumerates its keys, and
  \<open>JS_Spelling\<close> proves once that every text that spells a JSON value, whatever its white space, is
  read back to it: the interface \<open>json_writer\<close>, interpreted for the two writers of JSON below.

  \<^bold>\<open>Feed store\<close>, \<open>lib/live/feed-store.ts\<close>, in \<open>Feed_Store\<close>. The closure's variables are the record
  \<open>feed\<close>, its ring of a power of two of slots included; each method is a function of the same name,
  and \<open>apply_op\<close> is the returned object. The lemmas relate the ring to a plain list of rows
  (\<open>feed_rep\<close>), through the interface \<open>feed_contract\<close>: every run of operations does on the ring what
  it does on the list (C1), positions and keys agree (C2), pushes stay within bounds and report
  exactly what they evict (C3, C4), and a frozen feed does not move (C5).

  \<^bold>\<open>Filter language\<close>, \<open>lib/filter.ts\<close>. \<open>Filter_Parse\<close> is the parser, \<open>Filter_Print\<close> the printer with
  the proofs that texts and queries give each other back and that items have their places (C6 to
  C8); \<open>Filter_Tokens\<close> is the scanner that forgives, which covers the text (C11) and agrees with the
  parser where that accepts (C12), and the completion's context (C13); \<open>Filter_Values\<close> are the parsers
  of numbers, sizes, durations and times (C14, C15, C21), \<open>Filter_Validate\<close> the check against a page's
  fields (C18 to C20), and \<open>Filter_Fields\<close> the fields of the console's ten lists, on each of which a
  checked filter can be written back (C17). The interface \<open>forward_scanner\<close> of \<open>Scanners\<close>, tokens by a scanner that only
  moves forward, is interpreted here and for the rules. Whether a pattern is a regular expression is
  an argument.

  \<^bold>\<open>Rules editor\<close>, \<open>components/code-editor/rules/scan.ts\<close>, \<open>outline.ts\<close> and \<open>language.ts\<close>. \<open>Rules_Scan\<close>
  is the scanner as a function of a line, a place and the state \<open>scan_state\<close>; \<open>Rules_State\<close> shows what
  a state may be, \<open>Rules_Lex\<close> that scanning ends and covers the text (C22, C23) and that the editor, which reads
  a line at a time (\<open>highlight\<close>), finds the tokens \<open>lex\<close> finds in the whole (C24). \<open>Rules_Outline\<close> builds the brackets of a ruleset; its stack is the scanner's (C25), and what
  the editor asks of it, the enclosing brackets, the fold of a line and the path of a match, is
  exact (C26 to C28).

  \<^bold>\<open>Live channel\<close>, \<open>lib/live/leader.ts\<close>, \<open>topics.ts\<close> and \<open>channel.ts\<close>. \<open>Live_Leader\<close> is the election
  of one tab, \<open>election\<close>, whose methods answer the calls they make, and around it the tabs of a
  browser with the lock manager as its documentation describes it (\<open>browser_step\<close>): at most one tab
  leads and some tab comes to lead (C29, C30), where there are Web Locks. \<open>Live_Topics\<close> is the key of a subscription (C31).
  \<open>Live_Channel\<close> is \<open>createLiveChannel\<close>: the variables of the closure are the record \<open>chan\<close>, each of
  its functions a function of \<open>chan\<close>, and what it calls outside (listeners, the relay between tabs, the
  lock manager, the engine, timers) a log \<open>out\<close>; \<open>react\<close> is every moment at which its code
  runs, and \<open>running\<close> the states it can reach. \<open>Live_Frame\<close> says what each function leaves alone; its
  interface \<open>channel_law\<close>, a law that every part of the channel keeps, is interpreted for the books
  of subscriptions in \<open>Live_Books\<close> (C32), for what a tab shows in \<open>Live_Shown\<close> (C33) and for what is
  asked of the engine in \<open>Live_Posts\<close>: never two POSTs at once, and nothing left unasked unless a
  POST outlives its leadership (C34). \<open>Live_Delivery\<close> follows events and cursors (C36, C37).
  \<open>Live_Fleet\<close> runs the channels of a browser's tabs together: their logged calls drive the lock
  manager, each reaction is shown to be a run of the election's methods (\<open>acts_react\<close>), so the
  invariant of \<open>Live_Leader\<close> holds of the channels' own elections, and at most one tab has a
  connection (C10); without Web Locks no lock is ever asked for. This theory follows an event from
  the tab that leads to the tab that listens (C9).

  \<^bold>\<open>Firestore values\<close>, \<open>firestore/value.ts\<close>. \<open>Firestore_Value\<close> has the wire's values \<open>rest_value\<close>, the
  typed values \<open>fs_value\<close> and the functions between them and plain JSON; \<open>Firestore_Codec\<close> shows that
  decoding and encoding give back what is in the console's own form (C38), and what does not come
  back; \<open>Firestore_Editor\<close> has the text of cells and editors, and shows that an editor accepts only
  well-formed values of its type (C39). What \<open>Date\<close> makes of a text is an argument, as the language
  leaves it to the implementation, and so is the time of day.

  \<^bold>\<open>Document editor\<close>, \<open>firestore/json-text.ts\<close> and \<open>draft.ts\<close>. \<open>Firestore_Spans\<close> finds the places of a
  JSON text's values; \<open>Firestore_Draft\<close> has the editor's rows, \<open>draft_node\<close>, one function per function
  of the source, the counter behind the rows' identities passed along; \<open>parseNode\<close> carries the readings
  of the rows below along with the rows. \<open>Firestore_Saved\<close> shows that a document opened and not edited
  has nothing to save (C40) and that saving a draft without problems leaves what its rows say (C35);
  \<open>Firestore_Tab\<close> that the JSON tab keeps the rows its text still describes (C16). The message of a
  syntax error is an argument.

  \<^bold>\<open>Bounds.\<close> Loops are recursive functions with a proof that they end. Four take fuel: \<open>JSON.parse\<close>
  starts with one more than the length of the text, and every nesting and every element consumes
  a unit of it; the search for the shortest digits goes up to a count at which the decimal is
  exact; \<open>chainAt\<close> walks at most as many brackets as there are; \<open>valueSpans\<close> starts with twice the
  length of the text and two, and two calls in a row consume a unit of the text. That the fuel is
  enough is part of the theorems: \<open>parse_spelled\<close>, \<open>read_number_text\<close>, C26 and \<open>valueSpans_fuel\<close>.

  \<^bold>\<open>What the models leave out.\<close> A listener that calls back into the channel while it is called;
  random identifiers (the tab's name is an argument); React hooks and the browser's environment
  object; minus zero; the time at which timers fire (any later moment is allowed). Pages,
  components, HTTP clients, caches of the query library, the query line and exports of Firestore,
  the completion of rules, generated routes and the Rust engine are not modelled: the first four
  are rendering and I/O, the others build on the parts above and wait for their turn, and the
  engine is a system of its own that the channel meets as inputs and outputs.

  \<^bold>\<open>What the work showed.\<close> A POST answered after its leadership ended leaves the next leadership's
  subscriptions unasked (\<open>late_answer_forgets\<close>); a 400 answer loses the identifiers to be removed; a stored timing
  of \<open>null\<close> throws; the pattern that reads an event's head loses a cursor next to an escaped name;
  the forgiving scanner splits a regular expression at a space; a relative document path through a
  collection named \<open>documents\<close> is cut; an integer beyond \<open>2\<^sup>5\<^sup>3\<close> is written back as a double
  (\<open>wide_integer_back\<close>) and NaN as a number JSON cannot carry (\<open>nan_back\<close>); a lone comma is taken for a
  geopoint; a field whose name has white space around it is renamed by saving an unedited document;
  a string that looks like an instant can become a timestamp in the JSON tab, and editing one entry
  of a map there can change the types of its siblings.
\<close>

section \<open>An event between two tabs\<close>

lemma count_distinct: "distinct xs \<Longrightarrow> count_list xs x = (if x \<in> set xs then 1 else 0)"
  by (induction xs) auto

text \<open>
  C9. An event crosses from the tab that leads to the tab that listens: when the engine's event for a
  subscription of another tab arrives at the leader, the leader sends it in exactly one message of
  the relay, and that message makes the other tab's channel call the subscription's listener
  exactly once, with the event's own name, data and cursor.
\<close>

theorem event_across_tabs:
  assumes "running s" and "source s = Some n" and "shared (elect s)" and "\<not> el_closed (elect s)"
    and "readHead frame = Some h" and "map_of (engineSubs s) (h_sub h) = Some en"
    and "parse_json frame = Some m" and "m \<noteq> JNull" and "json_get m (js ''name'') \<noteq> JStr (js ''tick'')"
    and "map_of (tabSubs s) i = Some u" and "engine u = Some (h_sub h)" and "t_tab u \<noteq> tab s"
    and "shared (elect s')" and "\<not> el_closed (elect s')" and "\<not> closed s'" and "\<not> isLeader s'"
    and "map_of (locals s') i \<noteq> None"
  shows "\<exists>ids new here.
    deliveries (react (SourceMessage n Ev frame) s) = deliveries s @ new \<and>
    count_list new (Send (RelayEv Ev frame ids)) = 1 \<and>
    deliveries (react (Relayed (RelayEv Ev frame ids)) s') = deliveries s' @ here \<and>
    count_list here (OnEvent i (json_get m (js ''name'')) (json_get m (js ''data'')) (as_string (json_get m (js ''cursor'')))) = 1"
proof -
  note ev = event_deliveries [OF assms(1,5,6,7,8,3,4)]
  let ?theirs = "filter (\<lambda>i. \<not> own_sub s i) (members en)"
  have "i \<in> set (members en)" using ev(2) map_of_SomeD [OF assms(10)] assms(11) by blast
  then have i: "i \<in> set ?theirs" using assms(10,12) by (simp add: own_sub_def)
  define new where "new = Send (RelayEv Ev frame ?theirs) #
    map (\<lambda>i. the_event i m) (filter (\<lambda>i. map_of (locals s) i \<noteq> None) (filter (own_sub s) (members en)))"
  have "deliveries (react (SourceMessage n Ev frame) s) = deliveries s @ new"
    using ev(3) assms(2,9) length_pos_if_in_set [OF i] by (simp add: new_def Let_def)
  moreover have "count_list new (Send (RelayEv Ev frame ?theirs)) = 1"
    by (simp add: new_def the_event_def count_list_0_iff image_iff)
  moreover have "deliveries (react (Relayed (RelayEv Ev frame ?theirs)) s') = deliveries s' @
      map (\<lambda>i. the_event i m) (filter (\<lambda>i. map_of (locals s') i \<noteq> None) ?theirs)"
    using assms(9,13-16) deliveries_deliverRaw [OF assms(7,8)] by simp
  moreover have "count_list (map (\<lambda>i. the_event i m) (filter (\<lambda>i. map_of (locals s') i \<noteq> None) ?theirs)) (the_event i m) = 1"
  proof -
    have "distinct (map (\<lambda>i. the_event i m) (filter (\<lambda>i. map_of (locals s') i \<noteq> None) ?theirs))"
      using ev(1) by (simp add: distinct_map inj_on_def the_event_def)
    then show ?thesis using i assms(17) by (simp add: count_distinct)
  qed
  ultimately show ?thesis unfolding the_event_def by blast
qed

text \<open>The tab that listens to the sample's shared subscription.\<close>

definition listening_tab :: chan where
  "listening_tab = react (Subscribe (js ''shell'') (JObj []) None) (createLiveChannel (js ''u'') RESUME True True 0)"

theorem event_across_tabs_witness:
  "\<exists>ids new here.
    deliveries (react (SourceMessage 0 Ev sample_event) (run_sample sample_inputs)) = deliveries (run_sample sample_inputs) @ new \<and>
    count_list new (Send (RelayEv Ev sample_event ids)) = 1 \<and>
    deliveries (react (Relayed (RelayEv Ev sample_event ids)) listening_tab) = deliveries listening_tab @ here \<and>
    count_list here (OnEvent (js ''u.s1'') (JStr (js ''status'')) (JStr (js ''x'')) (Some (js ''7''))) = 1"
proof -
  let ?s = "run_sample sample_inputs" and ?h = "\<lparr>h_sub = js ''t.2'', h_name = Some (js ''status''), h_cursor = Some (js ''7'')\<rparr>"
  let ?m = "JObj [(js ''sub'', JStr (js ''t.2'')), (js ''name'', JStr (js ''status'')), (js ''cursor'', JStr (js ''7'')),
    (js ''data'', JStr (js ''x''))]"
  have "map_of (engineSubs ?s) (js ''t.2'') \<noteq> None" by code_simp
  then obtain en where en: "map_of (engineSubs ?s) (h_sub ?h) = Some en" by auto
  have "map_option (\<lambda>u. (engine u, t_tab u)) (map_of (tabSubs ?s) (js ''u.s1'')) = Some (Some (js ''t.2''), js ''u'')"
    by code_simp
  then obtain u where u: "map_of (tabSubs ?s) (js ''u.s1'') = Some u" "engine u = Some (h_sub ?h)" "t_tab u = js ''u''"
    by auto
  have t: "t_tab u \<noteq> tab ?s" unfolding u(3) by code_simp
  have s: "source ?s = Some 0" "shared (elect ?s)" "\<not> el_closed (elect ?s)"
    and h: "readHead sample_event = Some ?h" and m: "parse_json sample_event = Some ?m"
    and f: "shared (elect listening_tab)" "\<not> el_closed (elect listening_tab)" "\<not> closed listening_tab"
      "\<not> isLeader listening_tab" "map_of (locals listening_tab) (js ''u.s1'') \<noteq> None"
    by code_simp+
  show ?thesis using event_across_tabs [OF running_sample s h en m _ _ u(1,2) t f] by simp
qed

end
